(* ===== verification/Aiomsg_Prelude.thy ===== *)
theory Aiomsg_Prelude
  imports Main "HOL-Library.Word" "HOL-Library.AList" "HOL-Library.Multiset"
begin

text \<open>
  The prelude of the development: machine integers at the widths the Rust crates use, byte
  strings, the big-endian conversions of Rust's standard library (\<open>to_be_bytes\<close> and
  \<open>from_be_bytes\<close>), hash maps as association lists with their interface, and the generic
  facts about lists and words that the component theories share.  Components use the named
  collections \<open>be_simps\<close> (byte-order conversions) and \<open>hm_simps\<close> (hash maps).

  Targets are 64-bit, so \<open>usize\<close> has 64 bits and the conversions \<open>as usize\<close> from narrower
  widths lose nothing.  Lengths of byte strings are natural numbers; where the source narrows a
  length (\<open>as u32\<close>, \<open>as u16\<close>, \<open>as u8\<close>), the model narrows it with \<^const>\<open>word_of_nat\<close>.
\<close>

named_theorems be_simps \<open>big-endian conversions\<close>
named_theorems hm_simps \<open>hash maps\<close>

type_synonym u8 = "8 word"
type_synonym u16 = "16 word"
type_synonym u32 = "32 word"
type_synonym u64 = "64 word"
type_synonym usize = "64 word"
type_synonym bytes = "u8 list"


section \<open>Big-endian byte strings\<close>

text \<open>Bounds of machine integers as natural numbers.\<close>

lemma unat_u8_lt: "unat (b :: u8) < 256"
  using unsigned_less [of b, where ?'a = nat] by simp

lemma unat_u16_lt: "unat (w :: u16) < 65536"
  using unsigned_less [of w, where ?'a = nat] by simp

lemma unat_u32_lt: "unat (w :: u32) < 4294967296"
  using unsigned_less [of w, where ?'a = nat] by simp

lemma unat_u64_lt: "unat (w :: u64) < 18446744073709551616"
  using unsigned_less [of w, where ?'a = nat] by simp

lemma unat_pos: "w \<noteq> 0 \<Longrightarrow> 0 < unat (w :: 'a :: len word)"
  by (metis gr0I unat_eq_zero)

text \<open>\<open>be_digits n v\<close> is the \<open>n\<close>-byte big-endian representation of \<open>v\<close>, \<open>be_val\<close> its inverse.\<close>

fun be_digits :: "nat \<Rightarrow> nat \<Rightarrow> bytes" where
  "be_digits 0 v = []"
| "be_digits (Suc n) v = be_digits n (v div 256) @ [word_of_nat v]"

definition be_val :: "bytes \<Rightarrow> nat" where
  "be_val bs = foldl (\<lambda>a b. a * 256 + unat b) 0 bs"

definition u16_to_be_bytes :: "u16 \<Rightarrow> bytes" where
  "u16_to_be_bytes w = be_digits 2 (unat w)"

definition u32_to_be_bytes :: "u32 \<Rightarrow> bytes" where
  "u32_to_be_bytes w = be_digits 4 (unat w)"

definition u64_to_be_bytes :: "u64 \<Rightarrow> bytes" where
  "u64_to_be_bytes w = be_digits 8 (unat w)"

definition u16_from_be_bytes :: "bytes \<Rightarrow> u16" where
  "u16_from_be_bytes bs = word_of_nat (be_val bs)"

definition u32_from_be_bytes :: "bytes \<Rightarrow> u32" where
  "u32_from_be_bytes bs = word_of_nat (be_val bs)"

definition u64_from_be_bytes :: "bytes \<Rightarrow> u64" where
  "u64_from_be_bytes bs = word_of_nat (be_val bs)"

lemma length_be_digits [simp]: "length (be_digits n v) = n"
  by (induction n arbitrary: v) auto

text \<open>The three widths, one byte at a time, for evaluation.\<close>

lemma be_digits_2: "be_digits 2 v = [word_of_nat (v div 256), word_of_nat v]"
proof -
  have "(2 :: nat) = Suc (Suc 0)" by simp
  then show ?thesis by (simp only: be_digits.simps append.simps)
qed

lemma be_digits_4:
  "be_digits 4 v =
     map (\<lambda>n. word_of_nat n) [v div 256 div 256 div 256, v div 256 div 256, v div 256, v]"
proof -
  have "(4 :: nat) = Suc (Suc (Suc (Suc 0)))" by simp
  then show ?thesis by (simp only: be_digits.simps append.simps list.map)
qed

lemma be_digits_8: "be_digits 8 v = be_digits 4 (v div 256 div 256 div 256 div 256) @ be_digits 4 v"
proof -
  have "(8 :: nat) = Suc (Suc (Suc (Suc 4)))" by simp
  then show ?thesis
    by (simp only: be_digits.simps be_digits_4 append.simps append_assoc list.map)
qed

lemmas be_digits_eval = be_digits_2 be_digits_4 be_digits_8

lemma be_val_Nil [simp]: "be_val [] = 0"
  by (simp add: be_val_def)

lemma be_val_snoc [simp]: "be_val (bs @ [b]) = be_val bs * 256 + unat b"
  by (simp add: be_val_def)

lemma unat_byte_of_nat: "unat (word_of_nat v :: u8) = v mod 256"
  by (simp add: unat_of_nat)

lemma u8_of_nat_inj:
  assumes "(word_of_nat c :: u8) = word_of_nat d" and "c < 256" and "d < 256"
  shows "c = d"
proof -
  have "unat (word_of_nat c :: u8) = unat (word_of_nat d :: u8)" using assms(1) by simp
  with assms(2,3) show ?thesis by (simp add: unat_byte_of_nat)
qed

lemma be_val_be_digits [be_simps]: "be_val (be_digits n v) = v mod 256 ^ n"
proof (induction n arbitrary: v)
  case 0
  then show ?case by (simp add: be_val_def)
next
  case (Suc n)
  have "be_val (be_digits (Suc n) v) = (v div 256) mod 256 ^ n * 256 + v mod 256"
    by (simp add: Suc.IH unat_byte_of_nat)
  also have "\<dots> = v mod 256 ^ Suc n"
    by (simp add: mod_mult2_eq mult.commute)
  finally show ?case .
qed

lemma be_val_bound: "be_val bs < 256 ^ length bs"
proof (induction bs rule: rev_induct)
  case Nil
  then show ?case by simp
next
  case (snoc b bs)
  have "unat b < 256" by (rule unat_u8_lt)
  with snoc show ?case by simp
qed

lemma be_digits_be_val [be_simps]: "be_digits (length bs) (be_val bs) = bs"
proof (induction bs rule: rev_induct)
  case Nil
  then show ?case by simp
next
  case (snoc b bs)
  have b: "unat b < 256" by (rule unat_u8_lt)
  have z: "(256 :: u8) = 0" by simp
  have "(word_of_nat (be_val bs * 256 + unat b) :: u8) = b"
    by (simp add: z)
  with b snoc show ?case by simp
qed

lemma length_u16_to_be [simp]: "length (u16_to_be_bytes w) = 2"
  by (simp add: u16_to_be_bytes_def)

lemma length_u32_to_be [simp]: "length (u32_to_be_bytes w) = 4"
  by (simp add: u32_to_be_bytes_def)

lemma length_u64_to_be [simp]: "length (u64_to_be_bytes w) = 8"
  by (simp add: u64_to_be_bytes_def)

lemma u16_be_roundtrip [be_simps]: "u16_from_be_bytes (u16_to_be_bytes w) = w"
  using unat_u16_lt [of w]
  by (simp add: u16_from_be_bytes_def u16_to_be_bytes_def be_simps)

lemma u32_be_roundtrip [be_simps]: "u32_from_be_bytes (u32_to_be_bytes w) = w"
  using unat_u32_lt [of w]
  by (simp add: u32_from_be_bytes_def u32_to_be_bytes_def be_simps)

lemma u64_be_roundtrip [be_simps]: "u64_from_be_bytes (u64_to_be_bytes w) = w"
  using unat_u64_lt [of w]
  by (simp add: u64_from_be_bytes_def u64_to_be_bytes_def be_simps)

lemma unat_u16_from_be: "length bs = 2 \<Longrightarrow> unat (u16_from_be_bytes bs) = be_val bs"
  using be_val_bound [of bs] by (simp add: u16_from_be_bytes_def unat_of_nat)

lemma unat_u32_from_be: "length bs = 4 \<Longrightarrow> unat (u32_from_be_bytes bs) = be_val bs"
  using be_val_bound [of bs] by (simp add: u32_from_be_bytes_def unat_of_nat)

lemma unat_u64_from_be: "length bs = 8 \<Longrightarrow> unat (u64_from_be_bytes bs) = be_val bs"
  using be_val_bound [of bs] by (simp add: u64_from_be_bytes_def unat_of_nat)

lemma u64_to_be_inj: "u64_to_be_bytes v = u64_to_be_bytes w \<longleftrightarrow> v = w"
  by (metis u64_be_roundtrip)


text \<open>Byte-wise equations for evaluation, which avoid large natural numbers.\<close>

lemma word_of_nat_be_val:
  "(word_of_nat (be_val bs) :: 'a :: len word) = foldl (\<lambda>a b. a * 256 + ucast b) 0 bs"
  by (induction bs rule: rev_induct) simp_all

lemmas u16_from_be_code [code] = u16_from_be_bytes_def [unfolded word_of_nat_be_val]
lemmas u32_from_be_code [code] = u32_from_be_bytes_def [unfolded word_of_nat_be_val]
lemmas u64_from_be_code [code] = u64_from_be_bytes_def [unfolded word_of_nat_be_val]

lemma byte_of_div: "(word_of_nat (unat w div 2 ^ n) :: u8) = ucast (drop_bit n w)"
proof -
  have "unat w div 2 ^ n = unat (drop_bit n w)"
    unfolding unat_drop_bit_eq by (simp add: drop_bit_eq_div)
  then show ?thesis by simp
qed

lemmas byte_of_divs =
  byte_of_div [of _ 56, simplified] byte_of_div [of _ 48, simplified]
  byte_of_div [of _ 40, simplified] byte_of_div [of _ 32, simplified]
  byte_of_div [of _ 24, simplified] byte_of_div [of _ 16, simplified]
  byte_of_div [of _ 8, simplified] byte_of_div [of _ 0, simplified]

lemma u16_to_be_code [code]: "u16_to_be_bytes w = [ucast (drop_bit 8 w), ucast w]"
  by (simp add: u16_to_be_bytes_def be_digits_2 byte_of_divs)

lemma u32_to_be_code [code]:
  "u32_to_be_bytes w = [ucast (drop_bit 24 w), ucast (drop_bit 16 w), ucast (drop_bit 8 w), ucast w]"
  by (simp add: u32_to_be_bytes_def be_digits_4 byte_of_divs div_mult2_eq [symmetric])

lemma u64_to_be_code [code]:
  "u64_to_be_bytes w = [ucast (drop_bit 56 w), ucast (drop_bit 48 w), ucast (drop_bit 40 w),
     ucast (drop_bit 32 w), ucast (drop_bit 24 w), ucast (drop_bit 16 w), ucast (drop_bit 8 w), ucast w]"
  by (simp add: u64_to_be_bytes_def be_digits_8 be_digits_4 byte_of_divs div_mult2_eq [symmetric])

text \<open>The bytes of a string literal.\<close>

definition ascii :: "string \<Rightarrow> bytes" where
  "ascii s = map of_char s"


section \<open>Lists\<close>

text \<open>\<open>slice::chunks\<close>: pieces of \<open>n\<close> elements, the last one possibly shorter.\<close>

function chunks :: "nat \<Rightarrow> 'a list \<Rightarrow> 'a list list" where
  "chunks n xs = (if n = 0 \<or> xs = [] then [] else take n xs # chunks n (drop n xs))"
  by pat_completeness auto
termination
  by (relation "measure (\<lambda>(n, xs). length xs)") auto

declare chunks.simps [simp del]

lemma chunks_Nil [simp]: "chunks n [] = []"
  by (simp add: chunks.simps)

lemma chunks_take: "0 < n \<Longrightarrow> xs \<noteq> [] \<Longrightarrow> chunks n xs = take n xs # chunks n (drop n xs)"
  by (simp add: chunks.simps)

lemma chunks_append: "0 < n \<Longrightarrow> length xs = n \<Longrightarrow> chunks n (xs @ ys) = xs # chunks n ys"
  by (subst chunks_take) auto

lemma take_append_exact [simp]: "length xs = n \<Longrightarrow> take n (xs @ ys) = xs"
  by simp

lemma drop_append_exact [simp]: "length xs = n \<Longrightarrow> drop n (xs @ ys) = ys"
  by simp

lemma take_4_nth: "4 \<le> length xs \<Longrightarrow> take 4 xs = [xs ! 0, xs ! 1, xs ! 2, xs ! 3]"
  by (auto simp: numeral_eq_Suc Suc_le_length_iff)


text \<open>A value kept only where a predicate holds of it.\<close>

lemma option_restrictI:
  assumes "\<And>v. x = Some v \<longleftrightarrow> y = Some v \<and> P v"
  shows "x = (case y of None \<Rightarrow> None | Some v \<Rightarrow> if P v then Some v else None)"
proof (cases y)
  case None
  with assms have "x = None" by (cases x) auto
  with None show ?thesis by simp
next
  case (Some v)
  with assms [of v] assms [of "the x"] show ?thesis by (cases x) auto
qed


section \<open>Hash maps\<close>

text \<open>
  Rust's \<open>HashMap\<close> and its operations \<open>get\<close>, \<open>insert\<close>, \<open>remove\<close> as an association list with
  distinct keys.  The iteration order of a hash map is unspecified; the model fixes one, and
  what depends on it (the order in which a publish visits the connections) is shown not to
  matter where it is used.
\<close>

type_synonym ('k, 'v) hmap = "('k \<times> 'v) list"

definition hm_get :: "('k, 'v) hmap \<Rightarrow> 'k \<Rightarrow> 'v option" where
  "hm_get m k = map_of m k"

definition hm_insert :: "'k \<Rightarrow> 'v \<Rightarrow> ('k, 'v) hmap \<Rightarrow> ('k, 'v) hmap" where
  "hm_insert k v m = AList.update k v m"

definition hm_remove :: "'k \<Rightarrow> ('k, 'v) hmap \<Rightarrow> ('k, 'v) hmap" where
  "hm_remove k m = AList.delete k m"

definition hm_keys :: "('k, 'v) hmap \<Rightarrow> 'k set" where
  "hm_keys m = fst ` set m"

definition hm_wf :: "('k, 'v) hmap \<Rightarrow> bool" where
  "hm_wf m \<longleftrightarrow> distinct (map fst m)"

text \<open>The interface of a hash map: what its clients may rely on, and what follows from it.\<close>

locale hash_map =
  fixes empty :: "'m"
    and get :: "'m \<Rightarrow> 'k \<Rightarrow> 'v option"
    and insert_at :: "'k \<Rightarrow> 'v \<Rightarrow> 'm \<Rightarrow> 'm"
    and remove_at :: "'k \<Rightarrow> 'm \<Rightarrow> 'm"
    and keys_of :: "'m \<Rightarrow> 'k set"
    and inv :: "'m \<Rightarrow> bool"
  assumes get_empty: "get empty k = None"
    and get_insert: "get (insert_at k v m) k' = (if k' = k then Some v else get m k')"
    and get_remove: "get (remove_at k m) k' = (if k' = k then None else get m k')"
    and keys_get: "k \<in> keys_of m \<longleftrightarrow> get m k \<noteq> None"
    and inv_empty: "inv empty"
    and inv_insert: "inv m \<Longrightarrow> inv (insert_at k v m)"
    and inv_remove: "inv m \<Longrightarrow> inv (remove_at k m)"
begin

lemma keys_insert: "keys_of (insert_at k v m) = insert k (keys_of m)"
  by (auto simp: keys_get get_insert split: if_splits)

lemma keys_remove: "keys_of (remove_at k m) = keys_of m - {k}"
  by (auto simp: keys_get get_remove split: if_splits)

lemma keys_empty: "keys_of empty = {}"
  by (auto simp: keys_get get_empty)

lemma get_remove_insert: "get m k = None \<Longrightarrow> get (remove_at k (insert_at k v m)) k' = get m k'"
  by (auto simp: get_insert get_remove)

end

interpretation hm: hash_map "[]" hm_get hm_insert hm_remove hm_keys hm_wf
  by unfold_locales
    (simp_all add: hm_get_def hm_insert_def hm_remove_def hm_keys_def hm_wf_def
      update_conv' delete_conv' map_of_eq_None_iff distinct_update distinct_delete)

lemmas [hm_simps] =
  hm.get_empty hm.get_insert hm.get_remove hm.keys_insert hm.keys_remove hm.keys_empty
  hm.inv_empty hm.inv_insert hm.inv_remove

lemma hm_get_in_set: "hm_get m k = Some v \<Longrightarrow> (k, v) \<in> set m"
  by (auto simp: hm_get_def dest: map_of_SomeD)

lemma hm_keys_empty_iff: "hm_keys m = {} \<longleftrightarrow> m = []"
  by (simp add: hm_keys_def)

lemma hm_insert_new: "hm_get m k = None \<Longrightarrow> hm_insert k v m = m @ [(k, v)]"
proof (induction m)
  case Nil
  then show ?case by (simp add: hm_insert_def)
next
  case (Cons p m)
  then show ?case by (cases p) (auto simp: hm_insert_def hm_get_def split: if_splits)
qed

lemma hm_remove_absent: "hm_get m k = None \<Longrightarrow> hm_remove k m = m"
  by (simp add: hm_remove_def hm_get_def map_of_eq_None_iff delete_id)

lemma mset_hm_remove:
  "hm_wf m \<Longrightarrow> hm_get m k = Some v \<Longrightarrow> mset m = add_mset (k, v) (mset (hm_remove k m))"
proof (induction m)
  case Nil
  then show ?case by (simp add: hm_get_def)
next
  case (Cons p m)
  obtain k' v' where p: "p = (k', v')" by (cases p)
  show ?case
  proof (cases "k' = k")
    case True
    with Cons.prems p have "k \<notin> fst ` set m" by (auto simp: hm_wf_def)
    with Cons.prems p True show ?thesis
      by (simp add: hm_get_def hm_remove_def delete_id)
  next
    case False
    with Cons p show ?thesis by (simp add: hm_wf_def hm_get_def hm_remove_def)
  qed
qed

lemma distinct_snd_insert:
  "hm_get m k = None \<Longrightarrow> v \<notin> snd ` set m \<Longrightarrow>
   distinct (map snd (hm_insert k v m)) = distinct (map snd m)"
  by (auto simp: hm_insert_new)

lemma distinct_snd_remove: "distinct (map snd m) \<Longrightarrow> distinct (map snd (hm_remove k m))"
  by (simp add: hm_remove_def AList.delete_eq distinct_map_filter)

lemma hm_insert_set: "x \<in> set (hm_insert k v m) \<Longrightarrow> x = (k, v) \<or> x \<in> set m"
  by (induction m) (auto simp: hm_insert_def split: if_splits)

lemma hm_remove_set: "x \<in> set (hm_remove k m) \<Longrightarrow> x \<in> set m"
  by (auto simp: hm_remove_def AList.delete_eq)

end
