(* ===== verification/Io_Model.thy ===== *)
theory Io_Model
  imports Aiomsg_Prelude
begin

text \<open>
  The operating system's side of a connection, and the part of Rust's \<open>std::io\<close> the crates use.

  An object that implements \<open>Read\<close> is a state \<open>'s\<close> with a function \<open>'s reader\<close>: a call with a
  buffer of \<open>n\<close> bytes returns either an error or at most \<open>n\<close> bytes (none of them at the end of
  the stream), and the new state.  The locale \<open>byte_stream\<close> states the contract a client may
  rely on: the bytes handed out are a prefix of the bytes still to come, an error loses nothing,
  and only finitely many reads come before the end of the stream.

  The record \<open>stream\<close> is a socket with an arbitrary environment: the script of what successive
  reads will return (data in pieces of any size, or an error such as an expired read timeout),
  each after some delay, the outcomes of writes, the bytes written so far and the clock.  Any
  finite behaviour of a TCP socket or of a decrypted TLS stream is such a script.
\<close>

datatype error_kind = WouldBlock | TimedOut | Interrupted | UnexpectedEof | WriteZero | OtherKind

text \<open>The three kinds that the source's \<open>matches!\<close> guards treat as an idle tick.\<close>

definition is_idle_tick :: "error_kind \<Rightarrow> bool" where
  "is_idle_tick k \<longleftrightarrow> k = WouldBlock \<or> k = TimedOut \<or> k = Interrupted"

type_synonym 'a io_result = "error_kind + 'a"
type_synonym 's reader = "'s \<Rightarrow> nat \<Rightarrow> bytes io_result \<times> 's"

text \<open>
  \<open>Read::read_exact\<close>: fill a buffer, ignoring interrupted reads; an early end of the stream is
  \<^const>\<open>UnexpectedEof\<close>.  \<^term>\<open>None\<close> means that the call never returns.
\<close>

partial_function (option) read_exact_loop ::
    "'s reader \<Rightarrow> 's \<Rightarrow> nat \<Rightarrow> bytes \<Rightarrow> (bytes io_result \<times> 's) option" where
  "read_exact_loop rd s n acc =
     (if n = 0 then Some (Inr acc, s)
      else case rd s n of (r, s') \<Rightarrow>
        (case r of
           Inl e \<Rightarrow> if e = Interrupted then read_exact_loop rd s' n acc else Some (Inl e, s')
         | Inr bs \<Rightarrow> if bs = [] then Some (Inl UnexpectedEof, s')
                     else read_exact_loop rd s' (n - length bs) (acc @ bs)))"

definition read_exact :: "'s reader \<Rightarrow> 's \<Rightarrow> nat \<Rightarrow> (bytes io_result \<times> 's) option" where
  "read_exact rd s n = read_exact_loop rd s n []"


section \<open>The contract of a byte stream\<close>

locale byte_stream =
  fixes rd :: "'s reader"
    and pend :: "'s \<Rightarrow> bytes"
    and steps :: "'s \<Rightarrow> nat"
  assumes rd_ok: "rd s n = (Inr bs, s') \<Longrightarrow> 0 < n \<Longrightarrow> pend s = bs @ pend s' \<and> length bs \<le> n"
    and rd_err: "rd s n = (Inl e, s') \<Longrightarrow> pend s' = pend s"
    and rd_eof: "rd s n = (Inr [], s') \<Longrightarrow> 0 < n \<Longrightarrow> pend s = []"
    and rd_progress: "rd s n = (r, s') \<Longrightarrow> 0 < n \<Longrightarrow> r \<noteq> Inr [] \<Longrightarrow> steps s' < steps s"
begin

lemma read_exact_loop_returns: "\<exists>r s'. read_exact_loop rd s n acc = Some (r, s')"
proof (induction "steps s" arbitrary: s n acc rule: less_induct)
  case less
  obtain r s' where rd: "rd s n = (r, s')" by (cases "rd s n")
  show ?case
  proof (cases "n = 0 \<or> r = Inr []")
    case True
    with rd show ?thesis by (subst read_exact_loop.simps) auto
  next
    case False
    then have "steps s' < steps s" using rd_progress [OF rd] by auto
    then have IH: "\<exists>r'' s''. read_exact_loop rd s' m a = Some (r'', s'')" for m a
      by (rule less)
    show ?thesis
      using rd False IH by (subst read_exact_loop.simps) (auto split: sum.splits)
  qed
qed

lemma read_exact_loop_ok:
  assumes "read_exact_loop rd s n acc = Some (Inr bs, s')"
  shows "\<exists>cs. bs = acc @ cs \<and> length cs = n \<and> pend s = cs @ pend s'"
  using assms
proof (induction "steps s" arbitrary: s n acc rule: less_induct)
  case less
  obtain r t where rd: "rd s n = (r, t)" by (cases "rd s n")
  show ?case
  proof (cases "n = 0")
    case True
    with less.prems show ?thesis by (subst (asm) read_exact_loop.simps) auto
  next
    case False
    with less.prems rd have r_ne: "r \<noteq> Inr []"
      by (subst (asm) read_exact_loop.simps) auto
    have lt: "steps t < steps s" using rd_progress [OF rd _ r_ne] False by simp
    show ?thesis
    proof (cases r)
      case (Inl e)
      with less.prems rd False have "read_exact_loop rd t n acc = Some (Inr bs, s')"
        by (subst (asm) read_exact_loop.simps) (auto split: if_splits)
      from less.hyps [OF lt this] rd_err [OF rd [unfolded Inl]] show ?thesis by simp
    next
      case (Inr cs)
      with less.prems rd False r_ne
      have *: "read_exact_loop rd t (n - length cs) (acc @ cs) = Some (Inr bs, s')"
        by (subst (asm) read_exact_loop.simps) auto
      from less.hyps [OF lt *] rd_ok [OF rd [unfolded Inr]] False
      obtain ds where "bs = (acc @ cs) @ ds" "length ds = n - length cs" "pend t = ds @ pend s'"
        and p: "pend s = cs @ pend t" "length cs \<le> n"
        by auto
      then show ?thesis by (intro exI [of _ "cs @ ds"]) simp
    qed
  qed
qed

lemma read_exact_loop_steps:
  assumes "read_exact_loop rd s n acc = Some (Inr bs, s')"
  shows "steps s' \<le> steps s \<and> (0 < n \<longrightarrow> steps s' < steps s)"
  using assms
proof (induction "steps s" arbitrary: s n acc rule: less_induct)
  case less
  obtain r t where rd: "rd s n = (r, t)" by (cases "rd s n")
  show ?case
  proof (cases "n = 0")
    case True
    with less.prems show ?thesis by (subst (asm) read_exact_loop.simps) auto
  next
    case False
    with less.prems rd have r_ne: "r \<noteq> Inr []"
      by (subst (asm) read_exact_loop.simps) auto
    have lt: "steps t < steps s" using rd_progress [OF rd _ r_ne] False by simp
    obtain m acc' where "read_exact_loop rd t m acc' = Some (Inr bs, s')"
      using less.prems rd False r_ne
      by (subst (asm) read_exact_loop.simps) (auto split: sum.splits if_splits)
    from less.hyps [OF lt this] lt show ?thesis by auto
  qed
qed

lemma read_exact_returns: "\<exists>r s'. read_exact rd s n = Some (r, s')"
  by (simp add: read_exact_def read_exact_loop_returns)

lemma read_exact_ok:
  "read_exact rd s n = Some (Inr bs, s') \<Longrightarrow> length bs = n \<and> pend s = bs @ pend s'"
  by (auto simp: read_exact_def dest: read_exact_loop_ok)

lemma read_exact_steps:
  "read_exact rd s n = Some (Inr bs, s') \<Longrightarrow> steps s' \<le> steps s \<and> (0 < n \<longrightarrow> steps s' < steps s)"
  by (simp add: read_exact_def read_exact_loop_steps)

end

text \<open>A stream that reports no error but interrupted reads: the peer's bytes arrive in time.\<close>

locale steady_stream = byte_stream +
  fixes steady :: "'s \<Rightarrow> bool"
  assumes steady_rd: "steady s \<Longrightarrow> rd s n = (r, s') \<Longrightarrow> steady s'"
    and steady_err: "steady s \<Longrightarrow> rd s n = (Inl e, s') \<Longrightarrow> e = Interrupted"
begin

lemma read_exact_loop_steady:
  assumes "steady s"
  shows "\<exists>s'. steady s' \<and>
    (if n \<le> length (pend s)
     then read_exact_loop rd s n acc = Some (Inr (acc @ take n (pend s)), s') \<and>
       pend s' = drop n (pend s)
     else read_exact_loop rd s n acc = Some (Inl UnexpectedEof, s') \<and> pend s' = [])"
  using assms
proof (induction "steps s" arbitrary: s n acc rule: less_induct)
  case less
  obtain r t where rd: "rd s n = (r, t)" by (cases "rd s n")
  show ?case
  proof (cases "n = 0")
    case True
    with less.prems show ?thesis by (subst read_exact_loop.simps) auto
  next
    case n: False
    have t: "steady t" using steady_rd less.prems rd by blast
    show ?thesis
    proof (cases "r = Inr []")
      case True
      then have "pend s = []" using rd_eof rd n by blast
      moreover have "pend t = []" using rd_ok [OF rd [unfolded True]] n calculation by simp
      ultimately show ?thesis
        using rd n t True by (subst read_exact_loop.simps) auto
    next
      case r_ne: False
      have lt: "steps t < steps s" using rd_progress [OF rd _ r_ne] n by simp
      show ?thesis
      proof (cases r)
        case (Inl e)
        then have "e = Interrupted" using steady_err less.prems rd by blast
        then have eq: "read_exact_loop rd s n acc = read_exact_loop rd t n acc"
          using rd Inl n by (subst read_exact_loop.simps) simp
        have p: "pend s = pend t" using rd_err rd Inl by simp
        from less.hyps [OF lt t, of n acc] show ?thesis unfolding eq p .
      next
        case (Inr cs)
        have p: "pend s = cs @ pend t" "length cs \<le> n"
          using rd_ok rd Inr n by blast+
        have "read_exact_loop rd s n acc =
              read_exact_loop rd t (n - length cs) (acc @ cs)"
          using rd Inr n r_ne by (subst read_exact_loop.simps) simp
        with less.hyps [OF lt t, of "n - length cs" "acc @ cs"] p show ?thesis
          by (cases "n \<le> length (pend s)") auto
      qed
    qed
  qed
qed

lemma read_exact_steady:
  assumes "steady s" and "n \<le> length (pend s)"
  obtains s' where "read_exact rd s n = Some (Inr (take n (pend s)), s')"
    and "pend s' = drop n (pend s)" and "steady s'"
  using read_exact_loop_steady [OF assms(1), of n "[]"] assms(2)
  by (auto simp: read_exact_def)

lemma read_exact_steady_eof:
  assumes "steady s" and "length (pend s) < n"
  obtains s' where "read_exact rd s n = Some (Inl UnexpectedEof, s')"
    and "pend s' = []" and "steady s'"
  using read_exact_loop_steady [OF assms(1), of n "[]"] assms(2)
  by (auto simp: read_exact_def)

end

text \<open>A stream whose only errors are idle ticks: expired read timeouts and interruptions.\<close>

locale idle_stream = byte_stream +
  fixes idle_only :: "'s \<Rightarrow> bool"
  assumes idle_rd: "idle_only s \<Longrightarrow> rd s n = (r, s') \<Longrightarrow> idle_only s'"
    and idle_err: "idle_only s \<Longrightarrow> rd s n = (Inl e, s') \<Longrightarrow> is_idle_tick e"

text \<open>A stream with a clock, and a time by which everything it will report has been reported.\<close>

locale timed_stream = idle_stream +
  fixes now :: "'s \<Rightarrow> nat"
    and horizon :: "'s \<Rightarrow> nat"
  assumes now_horizon: "now s \<le> horizon s"
    and horizon_rd: "rd s n = (r, s') \<Longrightarrow> horizon s' \<le> horizon s"
    and now_rd: "rd s n = (r, s') \<Longrightarrow> now s \<le> now s'"



section \<open>A socket with a scripted environment\<close>

datatype net_event = Arrive bytes | Stall error_kind

record stream =
  inbound :: "(nat \<times> net_event) list"  \<comment> \<open>what reads will meet: a delay and an event\<close>
  outbound :: bytes                      \<comment> \<open>the bytes written so far\<close>
  wfaults :: "(nat \<times> error_kind) option list"
    \<comment> \<open>outcomes of the coming writes: a fault after so many bytes, or success\<close>
  ffaults :: "error_kind option list"    \<comment> \<open>outcomes of the coming flushes\<close>
  clock :: nat                           \<comment> \<open>the time, in milliseconds\<close>

fun read_script :: "(nat \<times> net_event) list \<Rightarrow> nat \<Rightarrow> nat \<Rightarrow>
    bytes io_result \<times> (nat \<times> net_event) list \<times> nat" where
  "read_script [] n t = (Inr [], [], t)"
| "read_script ((d, Stall e) # es) n t = (Inl e, es, t + d)"
| "read_script ((d, Arrive bs) # es) n t =
     (if bs = [] then read_script es n (t + d)
      else if length bs \<le> n then (Inr bs, es, t + d)
      else (Inr (take n bs), (0, Arrive (drop n bs)) # es, t + d))"

definition stream_read :: "stream reader" where
  "stream_read s n =
     (let (r, es, t) = read_script (inbound s) n (clock s)
      in (r, s\<lparr>inbound := es, clock := t\<rparr>))"

text \<open>\<open>TcpStream::peek\<close> with a one-byte buffer: the byte stays in the socket.\<close>

fun peek_script :: "(nat \<times> net_event) list \<Rightarrow> nat \<Rightarrow>
    bytes io_result \<times> (nat \<times> net_event) list \<times> nat" where
  "peek_script [] t = (Inr [], [], t)"
| "peek_script ((d, Stall e) # es) t = (Inl e, es, t + d)"
| "peek_script ((d, Arrive bs) # es) t =
     (if bs = [] then peek_script es (t + d)
      else (Inr [hd bs], (0, Arrive bs) # es, t + d))"

definition stream_peek :: "stream \<Rightarrow> bytes io_result \<times> stream" where
  "stream_peek s =
     (let (r, es, t) = peek_script (inbound s) (clock s)
      in (r, s\<lparr>inbound := es, clock := t\<rparr>))"

definition stream_write_all :: "stream \<Rightarrow> bytes \<Rightarrow> unit io_result \<times> stream" where
  "stream_write_all s bs =
     (case wfaults s of
        [] \<Rightarrow> (Inr (), s\<lparr>outbound := outbound s @ bs\<rparr>)
      | None # fs \<Rightarrow> (Inr (), s\<lparr>outbound := outbound s @ bs, wfaults := fs\<rparr>)
      | Some (k, e) # fs \<Rightarrow> (Inl e, s\<lparr>outbound := outbound s @ take k bs, wfaults := fs\<rparr>))"

definition stream_flush :: "stream \<Rightarrow> unit io_result \<times> stream" where
  "stream_flush s =
     (case ffaults s of
        [] \<Rightarrow> (Inr (), s)
      | None # fs \<Rightarrow> (Inr (), s\<lparr>ffaults := fs\<rparr>)
      | Some e # fs \<Rightarrow> (Inl e, s\<lparr>ffaults := fs\<rparr>))"

text \<open>The bytes still to come, the length of the script, and scripts without timeouts.\<close>

fun arrivals :: "(nat \<times> net_event) list \<Rightarrow> bytes" where
  "arrivals [] = []"
| "arrivals ((d, Stall e) # es) = arrivals es"
| "arrivals ((d, Arrive bs) # es) = bs @ arrivals es"

fun script_size :: "(nat \<times> net_event) list \<Rightarrow> nat" where
  "script_size [] = 0"
| "script_size ((d, Stall e) # es) = Suc (script_size es)"
| "script_size ((d, Arrive bs) # es) = length bs + script_size es"

definition script_steady :: "(nat \<times> net_event) list \<Rightarrow> bool" where
  "script_steady es \<longleftrightarrow>
     list_all (\<lambda>(d, ev). case ev of Arrive _ \<Rightarrow> True | Stall e \<Rightarrow> e = Interrupted) es"

definition script_idle :: "(nat \<times> net_event) list \<Rightarrow> bool" where
  "script_idle es \<longleftrightarrow>
     list_all (\<lambda>(d, ev). case ev of Arrive _ \<Rightarrow> True | Stall e \<Rightarrow> is_idle_tick e) es"

definition stream_pend :: "stream \<Rightarrow> bytes" where
  "stream_pend s = arrivals (inbound s)"

definition stream_steps :: "stream \<Rightarrow> nat" where
  "stream_steps s = script_size (inbound s)"

definition stream_steady :: "stream \<Rightarrow> bool" where
  "stream_steady s \<longleftrightarrow> script_steady (inbound s)"

definition stream_idle :: "stream \<Rightarrow> bool" where
  "stream_idle s \<longleftrightarrow> script_idle (inbound s)"

lemma arrivals_append: "arrivals (es @ es') = arrivals es @ arrivals es'"
  by (induction es rule: arrivals.induct) auto

lemma read_script_ok:
  "read_script es n t = (Inr bs, es', t') \<Longrightarrow> 0 < n \<Longrightarrow>
   arrivals es = bs @ arrivals es' \<and> length bs \<le> n"
  by (induction es n t rule: read_script.induct) (auto split: if_splits)

lemma read_script_err:
  "read_script es n t = (Inl e, es', t') \<Longrightarrow> arrivals es' = arrivals es"
  by (induction es n t rule: read_script.induct) (auto split: if_splits)

lemma read_script_eof:
  "read_script es n t = (Inr [], es', t') \<Longrightarrow> 0 < n \<Longrightarrow> es' = [] \<and> arrivals es = []"
  by (induction es n t rule: read_script.induct) (auto split: if_splits)

lemma read_script_progress:
  "read_script es n t = (r, es', t') \<Longrightarrow> 0 < n \<Longrightarrow> r \<noteq> Inr [] \<Longrightarrow>
   script_size es' < script_size es"
  by (induction es n t rule: read_script.induct) (auto split: if_splits)

lemma read_script_steady:
  "read_script es n t = (r, es', t') \<Longrightarrow> script_steady es \<Longrightarrow>
   script_steady es' \<and> (\<forall>e. r = Inl e \<longrightarrow> e = Interrupted)"
  by (induction es n t rule: read_script.induct) (auto simp: script_steady_def split: if_splits)

lemma read_script_idle:
  "read_script es n t = (r, es', t') \<Longrightarrow> script_idle es \<Longrightarrow>
   script_idle es' \<and> (\<forall>e. r = Inl e \<longrightarrow> is_idle_tick e)"
  by (induction es n t rule: read_script.induct) (auto simp: script_idle_def split: if_splits)

lemma read_script_clock: "read_script es n t = (r, es', t') \<Longrightarrow> t \<le> t'"
  by (induction es n t rule: read_script.induct) (auto split: if_splits)

lemma stream_read_cases:
  assumes "stream_read s n = (r, s')"
  obtains es t where "read_script (inbound s) n (clock s) = (r, es, t)"
    and "s' = s\<lparr>inbound := es, clock := t\<rparr>"
  using assms by (auto simp: stream_read_def split: prod.splits)

interpretation tcp: steady_stream stream_read stream_pend stream_steps stream_steady
proof unfold_locales
  fix s n bs s' assume "stream_read s n = (Inr bs, s')" "0 < n"
  then show "stream_pend s = bs @ stream_pend s' \<and> length bs \<le> n"
    by (elim stream_read_cases) (auto simp: stream_pend_def dest: read_script_ok)
next
  fix s n e s' assume "stream_read s n = (Inl e, s')"
  then show "stream_pend s' = stream_pend s"
    by (elim stream_read_cases) (auto simp: stream_pend_def dest: read_script_err)
next
  fix s n s' assume "stream_read s n = (Inr [], s')" "0 < n"
  then show "stream_pend s = []"
    by (elim stream_read_cases) (auto simp: stream_pend_def dest: read_script_eof)
next
  fix s n r s' assume "stream_read s n = (r, s')" "0 < n" "r \<noteq> Inr []"
  then show "stream_steps s' < stream_steps s"
    by (elim stream_read_cases) (auto simp: stream_steps_def dest: read_script_progress)
next
  fix s n r s' assume "stream_steady s" "stream_read s n = (r, s')"
  then show "stream_steady s'"
    by (elim stream_read_cases) (auto simp: stream_steady_def dest: read_script_steady)
next
  fix s n e s' assume "stream_steady s" "stream_read s n = (Inl e, s')"
  then show "e = Interrupted"
    by (elim stream_read_cases) (auto simp: stream_steady_def dest: read_script_steady)
qed

interpretation tcp: idle_stream stream_read stream_pend stream_steps stream_idle
proof unfold_locales
  fix s n r s' assume "stream_idle s" "stream_read s n = (r, s')"
  then show "stream_idle s'"
    by (elim stream_read_cases) (auto simp: stream_idle_def dest: read_script_idle)
next
  fix s n e s' assume "stream_idle s" "stream_read s n = (Inl e, s')"
  then show "is_idle_tick e"
    by (elim stream_read_cases) (auto simp: stream_idle_def dest: read_script_idle)
qed

lemma stream_read_frame:
  "stream_read s n = (r, s') \<Longrightarrow>
   outbound s' = outbound s \<and> wfaults s' = wfaults s \<and> ffaults s' = ffaults s"
  by (auto elim!: stream_read_cases)

lemma read_script_bytes:
  "read_script es n t = (Inr bs, es', t') \<Longrightarrow> script_size es' + length bs \<le> script_size es"
  by (induction es n t rule: read_script.induct) (auto split: if_splits)

lemma stream_read_bytes:
  "stream_read s n = (Inr bs, s') \<Longrightarrow> stream_steps s' + length bs \<le> stream_steps s"
  by (auto elim!: stream_read_cases simp: stream_steps_def dest: read_script_bytes)

lemma stream_read_err:
  "stream_read s n = (Inl e, s') \<Longrightarrow> stream_steps s' < stream_steps s"
proof -
  have "read_script es n t = (Inl e, es', t') \<Longrightarrow> script_size es' < script_size es" for es es' t t'
    by (induction es n t rule: read_script.induct) (auto split: if_splits)
  then show "stream_read s n = (Inl e, s') \<Longrightarrow> stream_steps s' < stream_steps s"
    by (auto elim!: stream_read_cases simp: stream_steps_def)
qed

lemma stream_read_clock: "stream_read s n = (r, s') \<Longrightarrow> clock s \<le> clock s'"
  by (auto elim!: stream_read_cases dest: read_script_clock)

lemma stream_write_all_frame:
  "stream_write_all s bs = (r, s') \<Longrightarrow>
   inbound s' = inbound s \<and> ffaults s' = ffaults s \<and> clock s' = clock s"
  by (auto simp: stream_write_all_def split: list.splits option.splits prod.splits)

lemma stream_write_all_ok:
  "stream_write_all s bs = (Inr u, s') \<Longrightarrow> outbound s' = outbound s @ bs"
  by (auto simp: stream_write_all_def split: list.splits option.splits prod.splits)

lemma stream_flush_frame:
  "stream_flush s = (r, s') \<Longrightarrow>
   inbound s' = inbound s \<and> outbound s' = outbound s \<and> wfaults s' = wfaults s \<and>
   clock s' = clock s"
  by (auto simp: stream_flush_def split: list.splits option.splits)

text \<open>The time that a script of the network may take.\<close>

definition script_delay :: "(nat \<times> net_event) list \<Rightarrow> nat" where
  "script_delay es = sum_list (map fst es)"

lemma read_script_delay:
  "read_script es n t = (r, es', t') \<Longrightarrow> t' + script_delay es' = t + script_delay es"
  by (induction es n t rule: read_script.induct) (auto simp: script_delay_def split: if_splits)

lemma stream_read_delay:
  "stream_read s n = (r, s') \<Longrightarrow>
   clock s' + script_delay (inbound s') = clock s + script_delay (inbound s)"
  by (auto elim!: stream_read_cases dest: read_script_delay)

text \<open>When the script of the socket is over.\<close>

definition stream_horizon :: "stream \<Rightarrow> nat" where
  "stream_horizon s = clock s + script_delay (inbound s)"

interpretation tcp: timed_stream stream_read stream_pend stream_steps stream_idle clock stream_horizon
  by unfold_locales (auto simp: stream_horizon_def dest: stream_read_delay stream_read_clock)

end
