(* ===== verification/Protocol.thy ===== *)
theory Protocol
  imports Io_Model
begin

text \<open>
  The wire protocol of the synchronous crate, \<open>rust-lib-sync/src/protocol.rs\<close>: the typed
  envelopes, the encoders that build complete length-prefixed frames, \<open>decode\<close>, the blocking
  \<open>read_frame\<close> and the incremental \<open>FrameDecoder\<close>.

  The specification side is section 2 of \<open>PROTOCOL.md\<close>: \<open>wire_frame\<close> puts the length before an
  envelope and \<open>split_frames\<close> cuts a byte string into the envelopes of its complete frames and
  the rest.  The lemmas show that the encoders produce such frames, that decoding inverts
  encoding, and that both readers compute \<open>split_frames\<close> of the bytes of the stream, however
  the network cuts the stream into pieces and wherever read timeouts fall.
\<close>

section \<open>Envelopes and encoders\<close>

definition PROTOCOL_VERSION :: u8 where "PROTOCOL_VERSION = 1"
definition IDENTITY_SIZE :: nat where "IDENTITY_SIZE = 16"
definition MSG_ID_SIZE :: nat where "MSG_ID_SIZE = 16"

text \<open>\<open>[u8; 16]\<close>: the predicate \<open>is_id\<close> keeps the width that the Rust type fixes.\<close>

type_synonym identity = bytes
type_synonym msg_id = bytes

definition is_id :: "bytes \<Rightarrow> bool" where
  "is_id bs \<longleftrightarrow> length bs = 16"

definition T_HELLO :: u8 where "T_HELLO = 0x01"
definition T_HEARTBEAT :: u8 where "T_HEARTBEAT = 0x02"
definition T_DATA :: u8 where "T_DATA = 0x03"
definition T_DATA_REQ :: u8 where "T_DATA_REQ = 0x04"
definition T_ACK :: u8 where "T_ACK = 0x05"

lemmas proto_consts =
  PROTOCOL_VERSION_def IDENTITY_SIZE_def MSG_ID_SIZE_def
  T_HELLO_def T_HEARTBEAT_def T_DATA_def T_DATA_REQ_def T_ACK_def

datatype envelope =
    Hello (version: u8) (hello_identity: identity)
  | Heartbeat
  | Data (payload: bytes)
  | DataReq (req_id: msg_id) (req_payload: bytes)
  | Ack (ack_id: msg_id)

definition put_len_prefix :: "bytes \<Rightarrow> nat \<Rightarrow> bytes" where
  "put_len_prefix b body_len = b @ u32_to_be_bytes (word_of_nat body_len)"

definition hello :: "identity \<Rightarrow> bytes" where
  "hello ident =
     (let body_len = 2 + IDENTITY_SIZE
      in put_len_prefix [] body_len @ [T_HELLO] @ [PROTOCOL_VERSION] @ ident)"

definition heartbeat :: bytes where
  "heartbeat = [0, 0, 0, 1, T_HEARTBEAT]"

definition data :: "bytes \<Rightarrow> bytes" where
  "data p =
     (let body_len = 1 + length p
      in put_len_prefix [] body_len @ [T_DATA] @ p)"

definition data_req :: "msg_id \<Rightarrow> bytes \<Rightarrow> bytes" where
  "data_req m p =
     (let body_len = 1 + MSG_ID_SIZE + length p
      in put_len_prefix [] body_len @ [T_DATA_REQ] @ m @ p)"

definition ack :: "msg_id \<Rightarrow> bytes" where
  "ack m =
     (let body_len = 1 + MSG_ID_SIZE
      in put_len_prefix [] body_len @ [T_ACK] @ m)"

definition decode :: "bytes \<Rightarrow> envelope option" where
  "decode frame =
     (case frame of
        [] \<Rightarrow> None
      | t # body \<Rightarrow>
          if t = T_HELLO then
            (if length body < 1 + IDENTITY_SIZE then None
             else Some (Hello (body ! 0) (take IDENTITY_SIZE (drop 1 body))))
          else if t = T_HEARTBEAT then Some Heartbeat
          else if t = T_DATA then Some (Data body)
          else if t = T_DATA_REQ then
            (if length body < MSG_ID_SIZE then None
             else Some (DataReq (take MSG_ID_SIZE body) (drop MSG_ID_SIZE body)))
          else if t = T_ACK then
            (if length body < MSG_ID_SIZE then None
             else Some (Ack (take MSG_ID_SIZE body)))
          else None)"


section \<open>Reading and writing frames\<close>

definition write_frame :: "('s \<Rightarrow> bytes \<Rightarrow> unit io_result \<times> 's) \<Rightarrow> 's \<Rightarrow> bytes \<Rightarrow>
    unit io_result \<times> 's" where
  "write_frame write_all w frame = write_all w frame"

definition read_frame :: "'s reader \<Rightarrow> 's \<Rightarrow> (bytes option io_result \<times> 's) option" where
  "read_frame rd r =
     (case read_exact rd r 4 of
        None \<Rightarrow> None
      | Some (Inl e, r1) \<Rightarrow> Some (if e = UnexpectedEof then Inr None else Inl e, r1)
      | Some (Inr len_buf, r1) \<Rightarrow>
          (let len = unat (u32_from_be_bytes len_buf)
           in case read_exact rd r1 len of
                None \<Rightarrow> None
              | Some (Inr bs, r2) \<Rightarrow> Some (Inr (Some bs), r2)
              | Some (Inl e, r2) \<Rightarrow> Some (if e = UnexpectedEof then Inr None else Inl e, r2)))"

datatype Read1 = Frame bytes | Pending | Closed

record frame_decoder =
  buf :: bytes
  chunk_len :: nat  \<comment> \<open>the length of the scratch buffer \<open>chunk\<close>\<close>

definition decoder_new :: frame_decoder where
  "decoder_new = \<lparr>buf = [], chunk_len = 16 * 1024\<rparr>"

definition take_frame :: "frame_decoder \<Rightarrow> bytes option \<times> frame_decoder" where
  "take_frame d =
     (if length (buf d) < 4 then (None, d)
      else let len = unat (u32_from_be_bytes [buf d ! 0, buf d ! 1, buf d ! 2, buf d ! 3])
           in if length (buf d) < 4 + len then (None, d)
              else let rest = drop 4 (buf d)
                   in (Some (take len rest), d\<lparr>buf := drop len rest\<rparr>))"

definition read1 :: "'s reader \<Rightarrow> frame_decoder \<Rightarrow> 's \<Rightarrow>
    Read1 io_result \<times> frame_decoder \<times> 's" where
  "read1 rd d r =
     (case take_frame d of
        (Some frame, d') \<Rightarrow> (Inr (Frame frame), d', r)
      | (None, d) \<Rightarrow>
          (case rd r (chunk_len d) of
             (Inr bs, r') \<Rightarrow>
               (if bs = [] then (Inr Closed, d, r')
                else case take_frame (d\<lparr>buf := buf d @ bs\<rparr>) of
                       (Some frame, d') \<Rightarrow> (Inr (Frame frame), d', r')
                     | (None, d') \<Rightarrow> (Inr Pending, d', r'))
           | (Inl e, r') \<Rightarrow> if is_idle_tick e then (Inr Pending, d, r') else (Inl e, d, r')))"

definition extend_from :: "frame_decoder \<Rightarrow> bytes \<Rightarrow> frame_decoder" where
  "extend_from d bs = d\<lparr>buf := buf d @ bs\<rparr>"

definition pop :: "frame_decoder \<Rightarrow> bytes option \<times> frame_decoder" where
  "pop d = take_frame d"


section \<open>The specification: section 2 of the protocol document\<close>

definition wire_frame :: "bytes \<Rightarrow> bytes" where
  "wire_frame env = u32_to_be_bytes (word_of_nat (length env)) @ env"

definition next_frame :: "bytes \<Rightarrow> (bytes \<times> bytes) option" where
  "next_frame bs =
     (if length bs < 4 \<or> length bs < 4 + be_val (take 4 bs) then None
      else Some (take (be_val (take 4 bs)) (drop 4 bs), drop (4 + be_val (take 4 bs)) bs))"

function split_frames :: "bytes \<Rightarrow> bytes list \<times> bytes" where
  "split_frames bs =
     (case next_frame bs of
        None \<Rightarrow> ([], bs)
      | Some (f, rest) \<Rightarrow> let (fs, tl) = split_frames rest in (f # fs, tl))"
  by pat_completeness auto
termination
  by (relation "measure length") (auto simp: next_frame_def split: if_splits)

declare split_frames.simps [simp del]

lemma next_frame_wire [simp]:
  assumes "length env < 2 ^ 32"
  shows "next_frame (wire_frame env @ bs) = Some (env, bs)"
proof -
  have "be_val (u32_to_be_bytes (word_of_nat (length env))) = length env"
    using assms by (simp add: u32_to_be_bytes_def be_simps unat_of_nat)
  then show ?thesis
    by (simp add: next_frame_def wire_frame_def)
qed

lemma next_frame_Some:
  assumes "next_frame bs = Some (f, rest)"
  shows "bs = wire_frame f @ rest" and "length f < 2 ^ 32"
proof -
  let ?n = "be_val (take 4 bs)"
  from assms have len: "4 \<le> length bs" "4 + ?n \<le> length bs"
    and f: "f = take ?n (drop 4 bs)" and r: "rest = drop (4 + ?n) bs"
    by (auto simp: next_frame_def split: if_splits)
  have n: "?n < 2 ^ 32" using be_val_bound [of "take 4 bs"] len by simp
  with len f show *: "length f < 2 ^ 32" by simp
  have lf: "length f = ?n" using len f by simp
  have "u32_to_be_bytes (word_of_nat ?n) = be_digits 4 ?n"
    using n by (simp add: u32_to_be_bytes_def unat_of_nat)
  also have "\<dots> = take 4 bs"
    using be_digits_be_val [of "take 4 bs"] len by simp
  finally have "wire_frame f = take 4 bs @ f" by (simp add: wire_frame_def lf)
  moreover have "rest = drop ?n (drop 4 bs)" by (simp add: r add.commute)
  ultimately show "bs = wire_frame f @ rest" by (simp add: f del: drop_drop)
qed

lemma next_frame_append: "next_frame bs = Some (f, rest) \<Longrightarrow> next_frame (bs @ x) = Some (f, rest @ x)"
  using next_frame_Some [of bs f rest] by simp

lemma next_frame_length: "next_frame bs = Some (f, rest) \<Longrightarrow> length rest < length bs"
  by (auto simp: next_frame_def split: if_splits)

lemma split_frames_None: "next_frame bs = None \<Longrightarrow> split_frames bs = ([], bs)"
  by (simp add: split_frames.simps)

lemma split_frames_Some:
  "next_frame bs = Some (f, rest) \<Longrightarrow>
   split_frames bs = (f # fst (split_frames rest), snd (split_frames rest))"
  by (simp add: split_frames.simps [of bs] case_prod_beta)

lemma split_frames_wire:
  "length env < 2 ^ 32 \<Longrightarrow>
   split_frames (wire_frame env @ bs) = (env # fst (split_frames bs), snd (split_frames bs))"
  by (rule split_frames_Some) simp

lemma split_frames_rest: "next_frame (snd (split_frames bs)) = None"
proof (induction bs rule: split_frames.induct)
  case (1 bs)
  then show ?case
    by (cases "next_frame bs") (auto simp: split_frames_None split_frames_Some)
qed

lemma split_frames_concat: "concat (map wire_frame (fst (split_frames bs))) @ snd (split_frames bs) = bs"
proof (induction bs rule: split_frames.induct)
  case (1 bs)
  then show ?case
    by (cases "next_frame bs")
      (auto simp: split_frames_None split_frames_Some dest: next_frame_Some(1))
qed

lemma split_frames_append:
  "split_frames (bs @ x) =
     (fst (split_frames bs) @ fst (split_frames (snd (split_frames bs) @ x)),
      snd (split_frames (snd (split_frames bs) @ x)))"
proof (induction bs rule: split_frames.induct)
  case (1 bs)
  show ?case
  proof (cases "next_frame bs")
    case None
    then show ?thesis by (simp add: split_frames_None)
  next
    case (Some p)
    obtain f rest where p: "p = (f, rest)" by (cases p)
    from 1 [OF Some p [symmetric]] Some p show ?thesis
      by (simp add: split_frames_Some next_frame_append)
  qed
qed

lemma split_frames_wires:
  "list_all (\<lambda>e. length e < 2 ^ 32) envs \<Longrightarrow> next_frame rest = None \<Longrightarrow>
   split_frames (concat (map wire_frame envs) @ rest) = (envs, rest)"
  by (induction envs) (simp_all add: split_frames_None split_frames_wire)


section \<open>Encoding and decoding envelopes\<close>

text \<open>Section 3 of the protocol document: a type byte and a body.\<close>

fun envelope_bytes :: "envelope \<Rightarrow> bytes" where
  "envelope_bytes (Hello v i) = T_HELLO # v # i"
| "envelope_bytes Heartbeat = [T_HEARTBEAT]"
| "envelope_bytes (Data p) = T_DATA # p"
| "envelope_bytes (DataReq m p) = T_DATA_REQ # m @ p"
| "envelope_bytes (Ack m) = T_ACK # m"

fun wf_envelope :: "envelope \<Rightarrow> bool" where
  "wf_envelope (Hello v i) = is_id i"
| "wf_envelope (DataReq m p) = is_id m"
| "wf_envelope (Ack m) = is_id m"
| "wf_envelope _ = True"

text \<open>The encoder for each kind of envelope; the version in a HELLO is always ours.\<close>

fun encode :: "envelope \<Rightarrow> bytes" where
  "encode (Hello v i) = hello i"
| "encode Heartbeat = heartbeat"
| "encode (Data p) = data p"
| "encode (DataReq m p) = data_req m p"
| "encode (Ack m) = ack m"

fun sendable :: "envelope \<Rightarrow> bool" where
  "sendable (Hello v i) \<longleftrightarrow> v = PROTOCOL_VERSION \<and> is_id i"
| "sendable (Data p) \<longleftrightarrow> 1 + length p < 2 ^ 32"
| "sendable (DataReq m p) \<longleftrightarrow> is_id m \<and> 17 + length p < 2 ^ 32"
| "sendable (Ack m) \<longleftrightarrow> is_id m"
| "sendable Heartbeat \<longleftrightarrow> True"

lemma data_wire: "data p = wire_frame (envelope_bytes (Data p))"
  by (simp add: data_def put_len_prefix_def wire_frame_def)

lemma data_req_wire: "is_id m \<Longrightarrow> data_req m p = wire_frame (envelope_bytes (DataReq m p))"
  by (simp add: data_req_def put_len_prefix_def wire_frame_def proto_consts is_id_def)

lemma ack_wire: "is_id m \<Longrightarrow> ack m = wire_frame (envelope_bytes (Ack m))"
  by (simp add: ack_def put_len_prefix_def wire_frame_def proto_consts is_id_def)

lemma hello_wire: "is_id i \<Longrightarrow> hello i = wire_frame (envelope_bytes (Hello PROTOCOL_VERSION i))"
  by (simp add: hello_def put_len_prefix_def wire_frame_def proto_consts is_id_def)

lemma heartbeat_wire: "heartbeat = wire_frame (envelope_bytes Heartbeat)"
  by (simp add: heartbeat_def wire_frame_def u32_to_be_bytes_def be_digits_eval)

lemma encode_wire: "sendable e \<Longrightarrow> encode e = wire_frame (envelope_bytes e)"
  by (cases e) (simp_all add: data_wire data_req_wire ack_wire hello_wire heartbeat_wire)

lemma sendable_length: "sendable e \<Longrightarrow> length (envelope_bytes e) < 2 ^ 32"
  by (cases e) (auto simp: is_id_def)

lemma sendable_wf: "sendable e \<Longrightarrow> wf_envelope e"
  by (cases e) auto

lemma decode_envelope_bytes: "wf_envelope e \<Longrightarrow> decode (envelope_bytes e) = Some e"
  by (cases e) (simp_all add: decode_def proto_consts is_id_def)

lemma decode_wf: "decode bs = Some e \<Longrightarrow> wf_envelope e"
  by (auto simp: decode_def proto_consts is_id_def split: list.splits if_splits)

text \<open>
  Decoding ignores trailing bytes of the three fixed-width kinds; the two data kinds use all of
  the frame.
\<close>

lemma decode_Some:
  assumes "decode bs = Some e"
  shows "\<exists>extra. bs = envelope_bytes e @ extra \<and>
    ((\<exists>p. e = Data p) \<or> (\<exists>m p. e = DataReq m p) \<longrightarrow> extra = [])"
proof (cases bs)
  case Nil
  with assms show ?thesis by (simp add: decode_def)
next
  case (Cons t body)
  consider "t = T_HELLO" "17 \<le> length body" "e = Hello (body ! 0) (take 16 (drop 1 body))"
    | "t = T_HEARTBEAT" "e = Heartbeat" | "t = T_DATA" "e = Data body"
    | "t = T_DATA_REQ" "e = DataReq (take 16 body) (drop 16 body)"
    | "t = T_ACK" "e = Ack (take 16 body)"
    using assms Cons by (auto simp: decode_def proto_consts split: if_splits)
  then show ?thesis
  proof cases
    case 1
    then have "body = body ! 0 # take 16 (drop 1 body) @ drop 17 body"
      by (cases body) simp_all
    with 1 Cons show ?thesis by (auto intro!: exI [of _ "drop 17 body"])
  qed (use Cons in \<open>auto intro: exI [of _ body] exI [of _ "drop 16 body"]\<close>)
qed


section \<open>The decoder computes the specification\<close>

lemma take_frame_spec:
  "take_frame d =
     (case next_frame (buf d) of
        None \<Rightarrow> (None, d)
      | Some (f, rest) \<Rightarrow> (Some f, d\<lparr>buf := rest\<rparr>))"
proof (cases "length (buf d) < 4")
  case True
  then show ?thesis by (simp add: take_frame_def next_frame_def)
next
  case False
  then have "[buf d ! 0, buf d ! 1, buf d ! 2, buf d ! 3] = take 4 (buf d)"
    by (simp add: take_4_nth)
  with False show ?thesis
    by (simp add: take_frame_def next_frame_def unat_u32_from_be Let_def add.commute)
qed

text \<open>Popping until nothing complete is left, and feeding a list of pieces.\<close>

function pop_all :: "frame_decoder \<Rightarrow> bytes list \<times> frame_decoder" where
  "pop_all d =
     (case pop d of
        (None, d') \<Rightarrow> ([], d')
      | (Some f, d') \<Rightarrow> let (fs, d'') = pop_all d' in (f # fs, d''))"
  by pat_completeness auto
termination
  by (relation "measure (\<lambda>d. length (buf d))")
    (auto simp: pop_def take_frame_spec dest: next_frame_length split: option.splits prod.splits)

declare pop_all.simps [simp del]

fun feed :: "frame_decoder \<Rightarrow> bytes list \<Rightarrow> bytes list \<times> frame_decoder" where
  "feed d [] = ([], d)"
| "feed d (c # cs) =
     (let (fs, d1) = pop_all (extend_from d c);
          (gs, d2) = feed d1 cs
      in (fs @ gs, d2))"

lemma pop_all_spec:
  "pop_all d = (fst (split_frames (buf d)), d\<lparr>buf := snd (split_frames (buf d))\<rparr>)"
proof (induction d rule: pop_all.induct)
  case (1 d)
  show ?case
  proof (cases "next_frame (buf d)")
    case None
    then show ?thesis
      by (subst pop_all.simps) (simp add: pop_def take_frame_spec split_frames_None)
  next
    case (Some p)
    then obtain f rest where "next_frame (buf d) = Some (f, rest)" by (cases p) auto
    with 1 show ?thesis
      by (subst pop_all.simps) (auto simp: pop_def take_frame_spec split_frames_Some)
  qed
qed

lemma feed_spec:
  assumes "next_frame (buf d) = None"
  shows "feed d cs = (fst (split_frames (buf d @ concat cs)),
    d\<lparr>buf := snd (split_frames (buf d @ concat cs))\<rparr>)"
  using assms
proof (induction cs arbitrary: d)
  case Nil
  then show ?case by (simp add: split_frames_None)
next
  case (Cons c cs)
  let ?d = "d\<lparr>buf := snd (split_frames (buf d @ c))\<rparr>"
  have "feed ?d cs = (fst (split_frames (buf ?d @ concat cs)),
      ?d\<lparr>buf := snd (split_frames (buf ?d @ concat cs))\<rparr>)"
    by (rule Cons.IH) (simp add: split_frames_rest)
  with split_frames_append [of "buf d @ c" "concat cs"] show ?case
    by (simp add: pop_all_spec extend_from_def)
qed


section \<open>Reading frames from a byte stream\<close>

text \<open>The read loop of a decoder: collect frames until the stream ends or fails.\<close>

partial_function (option) read1_run ::
    "'s reader \<Rightarrow> frame_decoder \<Rightarrow> 's \<Rightarrow> bytes list \<Rightarrow> (unit io_result \<times> bytes list \<times> frame_decoder) option"
  where
  "read1_run rd d s acc =
     (case read1 rd d s of (r, d', s') \<Rightarrow>
        (case r of
           Inl e \<Rightarrow> Some (Inl e, acc, d')
         | Inr out \<Rightarrow>
             (case out of
                Frame f \<Rightarrow> read1_run rd d' s' (acc @ [f])
              | Pending \<Rightarrow> read1_run rd d' s' acc
              | Closed \<Rightarrow> Some (Inr (), acc, d'))))"

lemma read1_buffered:
  "next_frame (buf d) = Some (f, rest) \<Longrightarrow> read1 rd d s = (Inr (Frame f), d\<lparr>buf := rest\<rparr>, s)"
  by (simp add: read1_def take_frame_spec)

lemma read1_reads:
  "next_frame (buf d) = None \<Longrightarrow>
   read1 rd d s =
     (case rd s (chunk_len d) of
        (Inl e, s') \<Rightarrow> if is_idle_tick e then (Inr Pending, d, s') else (Inl e, d, s')
      | (Inr bs, s') \<Rightarrow>
          if bs = [] then (Inr Closed, d, s')
          else case next_frame (buf d @ bs) of
                 None \<Rightarrow> (Inr Pending, d\<lparr>buf := buf d @ bs\<rparr>, s')
               | Some (f, rest) \<Rightarrow> (Inr (Frame f), d\<lparr>buf := rest\<rparr>, s'))"
  by (auto simp: read1_def take_frame_spec split: prod.split sum.split option.split)

lemma read1_run_pops:
  "read1_run rd d s acc =
   read1_run rd (d\<lparr>buf := snd (split_frames (buf d))\<rparr>) s (acc @ fst (split_frames (buf d)))"
proof (induction "buf d" arbitrary: d acc rule: split_frames.induct)
  case 1
  show ?case
  proof (cases "next_frame (buf d)")
    case None
    then show ?thesis by (simp add: split_frames_None)
  next
    case (Some p)
    then obtain f rest where nf: "next_frame (buf d) = Some (f, rest)" by (cases p) auto
    have "read1_run rd d s acc = read1_run rd (d\<lparr>buf := rest\<rparr>) s (acc @ [f])"
      by (subst read1_run.simps) (simp add: read1_buffered [OF nf])
    also have "\<dots> = read1_run rd (d\<lparr>buf := snd (split_frames rest)\<rparr>) s
        ((acc @ [f]) @ fst (split_frames rest))"
      using 1 [OF nf, of f "d\<lparr>buf := rest\<rparr>" "acc @ [f]"] by simp
    finally show ?thesis by (simp add: split_frames_Some [OF nf])
  qed
qed

context byte_stream
begin

text \<open>A read returns the next frame of the stream, or keeps every byte of it.\<close>

lemma read1_Frame:
  assumes "read1 rd d s = (Inr (Frame f), d', s')" and "0 < chunk_len d"
  shows "buf d @ pend s = wire_frame f @ buf d' @ pend s' \<and> length f < 2 ^ 32"
proof (cases "next_frame (buf d)")
  case None
  obtain r t where rd: "rd s (chunk_len d) = (r, t)" by (cases "rd s (chunk_len d)")
  with None assms(1) obtain bs rest where *: "r = Inr bs" "t = s'"
      "next_frame (buf d @ bs) = Some (f, rest)" "d' = d\<lparr>buf := rest\<rparr>"
    by (auto simp: read1_reads split: sum.splits if_splits option.splits)
  have "pend s = bs @ pend s'" using rd_ok rd * assms(2) by blast
  with next_frame_Some [OF *(3)] * show ?thesis
    by (metis append_assoc frame_decoder.select_convs(1) frame_decoder.surjective
        frame_decoder.update_convs(1))
next
  case (Some p)
  then obtain g rest where "next_frame (buf d) = Some (g, rest)" by (cases p) auto
  with assms(1) next_frame_Some [of "buf d" g rest] show ?thesis
    by (auto simp: read1_buffered)
qed

lemma read1_Pending:
  assumes "read1 rd d s = (Inr Pending, d', s')" and "0 < chunk_len d"
  shows "buf d @ pend s = buf d' @ pend s' \<and> next_frame (buf d') = None \<and> steps s' < steps s"
proof (cases "next_frame (buf d)")
  case None
  obtain r t where rd: "rd s (chunk_len d) = (r, t)" by (cases "rd s (chunk_len d)")
  show ?thesis
  proof (cases r)
    case (Inl e)
    with None rd assms rd_err [OF rd [unfolded Inl]] rd_progress [OF rd] show ?thesis
      by (auto simp: read1_reads split: if_splits)
  next
    case (Inr bs)
    with None rd assms rd_ok [OF rd [unfolded Inr]] rd_progress [OF rd] show ?thesis
      by (auto simp: read1_reads split: if_splits option.splits)
  qed
next
  case (Some p)
  with assms(1) show ?thesis by (cases p) (auto simp: read1_buffered)
qed

lemma read1_Closed:
  assumes "read1 rd d s = (Inr Closed, d', s')" and "0 < chunk_len d"
  shows "pend s = [] \<and> d' = d \<and> next_frame (buf d) = None"
proof (cases "next_frame (buf d)")
  case None
  obtain r t where rd: "rd s (chunk_len d) = (r, t)" by (cases "rd s (chunk_len d)")
  with None assms show ?thesis
    by (auto simp: read1_reads split: sum.splits if_splits option.splits intro: rd_eof)
next
  case (Some p)
  with assms(1) show ?thesis by (cases p) (auto simp: read1_buffered)
qed

end

context idle_stream
begin

lemma read1_run_waiting:
  assumes "idle_only s" and "next_frame (buf d) = None" and "0 < chunk_len d"
  shows "read1_run rd d s acc = Some (Inr (), acc @ fst (split_frames (buf d @ pend s)),
    d\<lparr>buf := snd (split_frames (buf d @ pend s))\<rparr>)"
  using assms
proof (induction "steps s" arbitrary: s d acc rule: less_induct)
  case less
  obtain r t where rd: "rd s (chunk_len d) = (r, t)" by (cases "rd s (chunk_len d)")
  have t: "idle_only t" using idle_rd less.prems(1) rd by blast
  have none: "next_frame (buf d) = None" by fact
  show ?case
  proof (cases "r = Inr []")
    case True
    then have "pend s = []" using rd_eof rd less.prems(3) by blast
    with True show ?thesis
      by (subst read1_run.simps) (simp add: read1_reads [OF none] rd split_frames_None [OF none])
  next
    case False
    then have lt: "steps t < steps s" using rd_progress rd less.prems(3) by blast
    show ?thesis
    proof (cases r)
      case (Inl e)
      then have "is_idle_tick e" using idle_err less.prems(1) rd by blast
      then have "read1_run rd d s acc = read1_run rd d t acc"
        by (subst read1_run.simps) (simp add: read1_reads [OF none] rd Inl)
      then show ?thesis
        using less.hyps [OF lt t none less.prems(3), of acc] rd_err [OF rd [unfolded Inl]] by simp
    next
      case (Inr bs)
      let ?d = "d\<lparr>buf := buf d @ bs\<rparr>"
      let ?e = "d\<lparr>buf := snd (split_frames (buf d @ bs))\<rparr>"
      have p: "pend s = bs @ pend t" using rd_ok rd Inr less.prems(3) by blast
      have "read1_run rd d s acc = read1_run rd ?d t acc"
      proof (cases "next_frame (buf d @ bs)")
        case None
        then show ?thesis
          using False Inr
          by (subst read1_run.simps) (simp add: read1_reads [OF none] rd)
      next
        case (Some q)
        then obtain f rest where nf: "next_frame (buf d @ bs) = Some (f, rest)"
          by (cases q) auto
        have "read1_run rd ?d t acc = read1_run rd (d\<lparr>buf := rest\<rparr>) t (acc @ [f])"
          by (subst read1_run.simps) (simp add: read1_buffered nf)
        then show ?thesis
          using False Inr nf
          by (subst read1_run.simps) (simp add: read1_reads [OF none] rd)
      qed
      also have "\<dots> = read1_run rd ?e t (acc @ fst (split_frames (buf d @ bs)))"
        by (subst read1_run_pops) simp
      also have "\<dots> = Some (Inr (),
          (acc @ fst (split_frames (buf d @ bs))) @ fst (split_frames (buf ?e @ pend t)),
          ?e\<lparr>buf := snd (split_frames (buf ?e @ pend t))\<rparr>)"
        using lt t less.prems(3) by (intro less.hyps) (simp_all add: split_frames_rest)
      finally show ?thesis
        using split_frames_append [of "buf d @ bs" "pend t"] p by simp
    qed
  qed
qed

lemma read1_run_frames:
  assumes "idle_only s" and "0 < chunk_len d"
  shows "read1_run rd d s [] = Some (Inr (), fst (split_frames (buf d @ pend s)),
    d\<lparr>buf := snd (split_frames (buf d @ pend s))\<rparr>)"
proof -
  let ?d = "d\<lparr>buf := snd (split_frames (buf d))\<rparr>"
  have "read1_run rd d s [] = read1_run rd ?d s (fst (split_frames (buf d)))"
    by (subst read1_run_pops) simp
  also have "\<dots> = Some (Inr (),
      fst (split_frames (buf d)) @ fst (split_frames (buf ?d @ pend s)),
      ?d\<lparr>buf := snd (split_frames (buf ?d @ pend s))\<rparr>)"
    using assms by (intro read1_run_waiting) (simp_all add: split_frames_rest)
  finally show ?thesis using split_frames_append [of "buf d" "pend s"] by simp
qed

end

context byte_stream
begin

text \<open>The blocking reader on any stream: it returns, and a frame that it returns is the next one.\<close>

lemma read_frame_returns: "\<exists>r s'. read_frame rd s = Some (r, s')"
proof -
  obtain r1 s1 where r1: "read_exact rd s 4 = Some (r1, s1)" using read_exact_returns by blast
  obtain r2 s2 where r2: "read_exact rd s1 (unat (u32_from_be_bytes (projr r1))) = Some (r2, s2)"
    using read_exact_returns by blast
  show ?thesis using r1 r2 by (cases r1; cases r2) (auto simp: read_frame_def)
qed

lemma read_frame_Some:
  assumes "read_frame rd s = Some (Inr (Some f), s')"
  shows "next_frame (pend s) = Some (f, pend s') \<and> steps s' < steps s"
proof -
  obtain len s1 where 1: "read_exact rd s 4 = Some (Inr len, s1)"
    and 2: "read_exact rd s1 (unat (u32_from_be_bytes len)) = Some (Inr f, s')"
    using assms by (auto simp: read_frame_def Let_def split: option.splits sum.splits if_splits)
  have l: "length len = 4" and p: "pend s = len @ pend s1" using read_exact_ok [OF 1] by auto
  have u: "unat (u32_from_be_bytes len) = be_val len" using l by (rule unat_u32_from_be)
  have "length f = be_val len" "pend s1 = f @ pend s'" using read_exact_ok [OF 2] u by auto
  with p l have "next_frame (pend s) = Some (f, pend s')" by (simp add: next_frame_def)
  moreover have "steps s' < steps s" using read_exact_steps [OF 1] read_exact_steps [OF 2] by simp
  ultimately show ?thesis by simp
qed

end

context steady_stream
begin

text \<open>The blocking reader takes the next complete frame, and reports an end inside a frame as a close.\<close>

lemma read_frame_next:
  assumes "steady s" and "next_frame (pend s) = Some (f, rest)"
  shows "\<exists>s'. read_frame rd s = Some (Inr (Some f), s') \<and> pend s' = rest \<and> steady s'"
proof -
  let ?n = "be_val (take 4 (pend s))"
  have len: "4 \<le> length (pend s)" "4 + ?n \<le> length (pend s)"
    and f: "f = take ?n (drop 4 (pend s))" and r: "rest = drop ?n (drop 4 (pend s))"
    using assms(2) by (auto simp: next_frame_def add.commute split: if_splits)
  obtain t where t: "read_exact rd s 4 = Some (Inr (take 4 (pend s)), t)"
      "pend t = drop 4 (pend s)" "steady t"
    using read_exact_steady [OF assms(1) len(1)] by blast
  have n: "?n \<le> length (pend t)" using len t(2) by simp
  obtain u where u: "read_exact rd t ?n = Some (Inr (take ?n (pend t)), u)"
      "pend u = drop ?n (pend t)" "steady u"
    using read_exact_steady [OF t(3) n] by blast
  have "unat (u32_from_be_bytes (take 4 (pend s))) = ?n"
    using len by (intro unat_u32_from_be) simp
  then show ?thesis
    using t u f r by (auto simp: read_frame_def)
qed

lemma read_frame_end:
  assumes "steady s" and "next_frame (pend s) = None"
  shows "\<exists>s'. read_frame rd s = Some (Inr None, s') \<and> pend s' = [] \<and> steady s'"
proof (cases "length (pend s) < 4")
  case True
  then obtain t where "read_exact rd s 4 = Some (Inl UnexpectedEof, t)" "pend t = []" "steady t"
    using read_exact_steady_eof [OF assms(1)] by blast
  then show ?thesis by (simp add: read_frame_def)
next
  case False
  let ?n = "be_val (take 4 (pend s))"
  have short: "length (drop 4 (pend s)) < ?n"
    using assms(2) False by (auto simp: next_frame_def split: if_splits)
  obtain t where t: "read_exact rd s 4 = Some (Inr (take 4 (pend s)), t)"
      "pend t = drop 4 (pend s)" "steady t"
    using read_exact_steady [OF assms(1), of 4] False by auto
  obtain u where u: "read_exact rd t ?n = Some (Inl UnexpectedEof, u)" "pend u = []" "steady u"
    using read_exact_steady_eof [OF t(3)] short t(2) by metis
  have "unat (u32_from_be_bytes (take 4 (pend s))) = ?n"
    using False by (intro unat_u32_from_be) simp
  then show ?thesis using t u by (simp add: read_frame_def)
qed

end


section \<open>Properties of the wire protocol\<close>

text \<open>Frames of sendable envelopes are cut out again, whatever incomplete bytes follow.\<close>

lemma split_encoded:
  assumes "list_all sendable es" and "next_frame rest = None"
  shows "split_frames (concat (map encode es) @ rest) = (map envelope_bytes es, rest)"
proof -
  have "map encode es = map wire_frame (map envelope_bytes es)"
    using assms(1) by (auto simp: list_all_iff encode_wire)
  moreover have "list_all (\<lambda>e. length e < 2 ^ 32) (map envelope_bytes es)"
    using assms(1) sendable_length by (auto simp: list_all_iff)
  ultimately show ?thesis using split_frames_wires [OF _ assms(2)] by metis
qed

lemma map_decode_sendable:
  "list_all sendable es \<Longrightarrow> map decode (map envelope_bytes es) = map Some es"
  by (auto simp: list_all_iff decode_envelope_bytes sendable_wf)

text \<open>C1. The sans-I/O half of the frame decoder (\<open>extend_from\<close> and \<open>pop\<close>) inverts the encoders: if
  the bytes of any sequence of sendable envelopes, followed by an incomplete frame, are fed to a
  fresh decoder in pieces cut anywhere, the frames popped decode to exactly these envelopes in
  order, and the decoder holds exactly the incomplete rest.\<close>

theorem decoder_roundtrip:
  assumes "list_all sendable es" and "next_frame rest = None"
    and "concat pieces = concat (map encode es) @ rest"
    and "feed decoder_new pieces = (frames, d)"
  shows "map decode frames = map Some es \<and> buf d = rest"
proof -
  have "next_frame (buf decoder_new) = None" by (simp add: decoder_new_def next_frame_def)
  from feed_spec [OF this, of pieces] assms(3,4) split_encoded [OF assms(1,2)]
  have "frames = map envelope_bytes es" "buf d = rest"
    by (auto simp: decoder_new_def)
  with map_decode_sendable [OF assms(1)] show ?thesis by simp
qed

theorem decoder_roundtrip_witness:
  "map decode (fst (feed decoder_new [[0, 0], [0, 3, 3, 7, 8, 0, 0], [0, 1, 2, 0]])) =
     [Some (Data [7, 8]), Some Heartbeat] \<and>
   buf (snd (feed decoder_new [[0, 0], [0, 3, 3, 7, 8, 0, 0], [0, 1, 2, 0]])) = [0]"
proof -
  let ?es = "[Data [7, 8], Heartbeat]"
  have "list_all sendable ?es" by simp
  moreover have "next_frame [0] = None" by (simp add: next_frame_def)
  moreover have "concat [[0, 0], [0, 3, 3, 7, 8, 0, 0], [0, 1, 2, 0]] =
      concat (map encode ?es) @ [0]"
    by (simp add: data_def heartbeat_def put_len_prefix_def u32_to_be_bytes_def be_digits_eval
        proto_consts)
  ultimately show ?thesis
    using decoder_roundtrip [of ?es "[0]" "[[0, 0], [0, 3, 3, 7, 8, 0, 0], [0, 1, 2, 0]]"]
    by (metis (no_types, lifting) list.simps(8,9) surjective_pairing)
qed

text \<open>C2. The reading half of the frame decoder: on a socket whose reads deliver the bytes of a
  sequence of sendable envelopes and an incomplete frame in arbitrary pieces, with expired read
  timeouts and interruptions anywhere between them, the loop over \<open>read1\<close> ends at the close of the
  stream, has returned exactly the frames that decode to these envelopes, in order, and never
  fails: a timeout in the middle of a frame loses no byte.\<close>

theorem read1_roundtrip:
  assumes "list_all sendable es" and "next_frame rest = None"
    and "stream_idle s" and "stream_pend s = concat (map encode es) @ rest"
  shows "\<exists>frames d. read1_run stream_read decoder_new s [] = Some (Inr (), frames, d) \<and>
    map decode frames = map Some es \<and> buf d = rest"
proof -
  have "0 < chunk_len decoder_new" and b: "buf decoder_new = []"
    by (simp_all add: decoder_new_def)
  from tcp.read1_run_frames [OF assms(3) this(1)] b assms(4) split_encoded [OF assms(1,2)]
    map_decode_sendable [OF assms(1)]
  show ?thesis by simp
qed

theorem read1_roundtrip_witness:
  "\<exists>frames d.
     read1_run stream_read decoder_new
       \<lparr>inbound = [(0, Arrive [0, 0]), (200, Stall TimedOut), (5, Arrive [0, 2, 3]),
          (0, Stall Interrupted), (9, Arrive [7, 0, 0])],
        outbound = [], wfaults = [], ffaults = [], clock = 0\<rparr> [] = Some (Inr (), frames, d) \<and>
     map decode frames = map Some [Data [7]] \<and> buf d = [0, 0]"
  by (rule read1_roundtrip)
    (simp_all add: next_frame_def stream_idle_def script_idle_def is_idle_tick_def stream_pend_def
      data_def put_len_prefix_def u32_to_be_bytes_def be_digits_eval proto_consts)

text \<open>The blocking \<open>read_frame\<close> on a socket that only reports interruptions: it always returns;
  with a complete frame ahead it returns that frame and leaves the stream right behind it, and
  otherwise it returns \<open>None\<close>, both at a frame boundary and when the stream ends inside a frame.\<close>

theorem read_frame_correct:
  assumes "stream_steady s"
  shows "\<exists>r s'. read_frame stream_read s = Some (Inr r, s') \<and>
    (case next_frame (stream_pend s) of
       Some (f, rest) \<Rightarrow> r = Some f \<and> stream_pend s' = rest
     | None \<Rightarrow> r = None \<and> stream_pend s' = [])"
proof (cases "next_frame (stream_pend s)")
  case None
  then show ?thesis using tcp.read_frame_end [OF assms None] by auto
next
  case (Some p)
  then obtain f rest where nf: "next_frame (stream_pend s) = Some (f, rest)" by (cases p) auto
  then show ?thesis using tcp.read_frame_next [OF assms nf] by auto
qed

theorem read_frame_correct_witness:
  "\<exists>r s'. read_frame stream_read
      \<lparr>inbound = [(0, Arrive [0, 0, 0, 2]), (1, Stall Interrupted), (2, Arrive [3, 7])],
        outbound = [], wfaults = [], ffaults = [], clock = 0\<rparr> = Some (Inr r, s') \<and>
      r = Some [3, 7] \<and> stream_pend s' = []"
  using read_frame_correct [of "\<lparr>inbound = [(0, Arrive [0, 0, 0, 2]), (1, Stall Interrupted),
      (2, Arrive [3, 7])], outbound = [], wfaults = [], ffaults = [], clock = 0\<rparr>"]
  by (simp add: stream_steady_def script_steady_def stream_pend_def next_frame_def be_val_def)

text \<open>\<open>decode\<close> accepts exactly the byte strings that start with the bytes of a well-formed
  envelope, where only the fixed-width kinds (HELLO, HEARTBEAT, ACK) may carry further bytes; it
  then returns this envelope.  Everything else, an empty frame, an unknown type byte or a
  truncated body, is rejected and never read out of bounds.\<close>

theorem decode_exact:
  "decode bs = Some e \<longleftrightarrow>
     wf_envelope e \<and>
     (\<exists>extra. bs = envelope_bytes e @ extra \<and>
       (extra = [] \<or> e = Heartbeat \<or> (\<exists>v i. e = Hello v i) \<or> (\<exists>m. e = Ack m)))"
proof
  assume "decode bs = Some e"
  with decode_wf decode_Some show "wf_envelope e \<and> (\<exists>extra. bs = envelope_bytes e @ extra \<and>
      (extra = [] \<or> e = Heartbeat \<or> (\<exists>v i. e = Hello v i) \<or> (\<exists>m. e = Ack m)))"
    by (metis envelope.exhaust)
next
  assume "wf_envelope e \<and> (\<exists>extra. bs = envelope_bytes e @ extra \<and>
      (extra = [] \<or> e = Heartbeat \<or> (\<exists>v i. e = Hello v i) \<or> (\<exists>m. e = Ack m)))"
  then show "decode bs = Some e"
    by (auto simp: decode_envelope_bytes) (auto simp: decode_def proto_consts is_id_def)
qed

text \<open>C28. The length prefix is 32 bits wide and \<open>put_len_prefix\<close> narrows the length silently: for a
  payload of \<open>2 ^ 32 - 1\<close> bytes or more, \<open>data\<close> builds a frame that announces the length modulo
  \<open>2 ^ 32\<close>, so the peer pops a truncated envelope and finds the remaining bytes of the payload where
  it expects the next length prefix.\<close>

theorem data_truncates:
  assumes "2 ^ 32 \<le> Suc (length p)"
  shows "\<exists>f d. pop (extend_from decoder_new (data p)) = (Some f, d) \<and>
    f = take (Suc (length p) mod 2 ^ 32) (T_DATA # p) \<and> f \<noteq> T_DATA # p \<and> buf d \<noteq> []"
proof -
  let ?n = "Suc (length p) mod 2 ^ 32" and ?d = "extend_from decoder_new (data p)"
  have lt: "?n < 2 ^ 32" by simp
  have be: "be_val (u32_to_be_bytes (word_of_nat (Suc (length p)))) = ?n"
    by (simp add: u32_to_be_bytes_def be_simps unat_of_nat del: of_nat_Suc)
  have buf: "buf ?d = u32_to_be_bytes (word_of_nat (Suc (length p))) @ T_DATA # p"
    by (simp add: extend_from_def decoder_new_def data_wire wire_frame_def)
  have "next_frame (buf ?d) = Some (take ?n (T_DATA # p), drop ?n (T_DATA # p))"
    using lt assms be unfolding buf by (simp add: next_frame_def del: of_nat_Suc)
  moreover have "?n < length (T_DATA # p)" using lt assms by (simp del: mod_less_divisor)
  ultimately show ?thesis
    by (auto simp: pop_def take_frame_spec simp del: take_Suc_Cons drop_Suc_Cons
        dest: arg_cong [where f = length])
qed

theorem data_truncates_witness:
  "\<exists>f d. pop (extend_from decoder_new (data (replicate (2 ^ 32 - 1) 7))) = (Some f, d) \<and>
    f = [] \<and> buf d \<noteq> []"
  using data_truncates [of "replicate (2 ^ 32 - 1) 7"] by auto

end
