(* ===== verification/Resend_Timers.thy ===== *)
theory Resend_Timers
  imports Protocol
begin

text \<open>
  The resend timers of the synchronous broker (\<open>rust-lib-sync/src/broker.rs\<close>, \<open>ResendTimers\<close> and
  \<open>timer_loop\<close>): one background thread that keeps a queue of deadlines and the set of ids that
  still wait for an acknowledgement, and sends the broker a \<open>ResendTimeout\<close> for each id whose
  deadline passes before it is cancelled.

  An iteration of the loop is the function \<open>timer_iter\<close>; the inductive relation \<open>timer_run\<close> is a
  run of the thread against an arbitrary environment (which messages arrive, and when it wakes).
  The abstract specification is a map from armed ids to deadlines.  The lemmas show that the
  queue stays sorted, and that an iteration fires exactly the armed ids whose deadline has
  passed, in the order of their deadlines, and no cancelled one.
\<close>

definition RESEND_TIMEOUT :: nat where "RESEND_TIMEOUT = 5000"  \<comment> \<open>milliseconds\<close>
definition MAX_RETRIES :: u32 where "MAX_RETRIES = 5"

datatype timer_msg = Arm msg_id | Cancel msg_id | Shutdown

text \<open>The broker's handle: the messages sent to the timer thread, in order.\<close>

type_synonym resend_timers = "timer_msg list"

definition timers_spawn :: resend_timers where
  "timers_spawn = []"

definition timers_arm :: "resend_timers \<Rightarrow> msg_id \<Rightarrow> resend_timers" where
  "timers_arm tx m = tx @ [Arm m]"

definition timers_cancel :: "resend_timers \<Rightarrow> msg_id \<Rightarrow> resend_timers" where
  "timers_cancel tx m = tx @ [Cancel m]"

definition timers_drop :: "resend_timers \<Rightarrow> resend_timers" where
  "timers_drop tx = tx @ [Shutdown]"

text \<open>The thread's own state.\<close>

record timer =
  deadlines :: "(nat \<times> msg_id) list"
  armed :: "msg_id set"

definition timer_init :: timer where
  "timer_init = \<lparr>deadlines = [], armed = {}\<rparr>"

text \<open>
  How a wait ends: a message, the soonest deadline, or a disconnected channel; and how long it
  may last, \<^term>\<open>None\<close> for the \<open>recv\<close> without a timeout when there is no deadline.
\<close>

datatype wake = Woken timer_msg | Expired | Hangup

definition wait_for :: "timer \<Rightarrow> nat \<Rightarrow> nat option" where
  "wait_for t now = (case deadlines t of [] \<Rightarrow> None | (dl, _) # _ \<Rightarrow> Some (dl - now))"

text \<open>
  The loop that fires due deadlines.  The flag says whether the command channel still has its
  receiver; without it the first send fails and the thread returns (second component).
\<close>

fun fire_due :: "bool \<Rightarrow> nat \<Rightarrow> (nat \<times> msg_id) list \<Rightarrow> msg_id set \<Rightarrow>
    msg_id list \<times> bool \<times> (nat \<times> msg_id) list \<times> msg_id set" where
  "fire_due alive now [] A = ([], True, [], A)"
| "fire_due alive now ((dl, m) # q) A =
     (if now < dl then ([], True, (dl, m) # q, A)
      else if m \<in> A then
        (if alive then
           let (fs, ok, q', A') = fire_due alive now q (A - {m}) in (m # fs, ok, q', A')
         else ([], False, q, A - {m}))
      else fire_due alive now q A)"

text \<open>
  One iteration: the message is handled at time \<open>t1\<close> and the due deadlines are fired at \<open>t2\<close>.
  The result is the ids fired, whether the loop goes on, and the new state.
\<close>

definition timer_iter :: "wake \<Rightarrow> nat \<Rightarrow> nat \<Rightarrow> bool \<Rightarrow> timer \<Rightarrow> msg_id list \<times> bool \<times> timer" where
  "timer_iter w t1 t2 alive t =
     (let fire = (\<lambda>t. let (fs, ok, q, A) = fire_due alive t2 (deadlines t) (armed t)
                      in (fs, ok, \<lparr>deadlines = q, armed = A\<rparr>))
      in case w of
           Hangup \<Rightarrow> ([], False, t)
         | Woken (Arm m) \<Rightarrow>
             fire (t\<lparr>deadlines := deadlines t @ [(t1 + RESEND_TIMEOUT, m)],
                     armed := insert m (armed t)\<rparr>)
         | Woken (Cancel m) \<Rightarrow> fire (t\<lparr>armed := armed t - {m}\<rparr>)
         | Woken Shutdown \<Rightarrow> ([], False, t)
         | Expired \<Rightarrow> fire t)"

fun timer_loop :: "(wake \<times> nat \<times> nat \<times> bool) list \<Rightarrow> timer \<Rightarrow> msg_id list \<times> timer" where
  "timer_loop [] t = ([], t)"
| "timer_loop ((w, t1, t2, alive) # es) t =
     (case timer_iter w t1 t2 alive t of
        (fs, True, t') \<Rightarrow> let (gs, t'') = timer_loop es t' in (fs @ gs, t'')
      | (fs, False, t') \<Rightarrow> (fs, t'))"

text \<open>
  A run of the thread: the state, the clock and the ids fired so far.  Time does not go back,
  and a wait only expires once the soonest deadline is reached.
\<close>

inductive timer_run :: "timer \<Rightarrow> nat \<Rightarrow> msg_id list \<Rightarrow> bool" where
  start: "timer_run timer_init now []"
| iterate: "timer_run t now fired \<Longrightarrow> now \<le> t1 \<Longrightarrow> t1 \<le> t2 \<Longrightarrow>
    w = Expired \<longrightarrow> (\<exists>dl m q. deadlines t = (dl, m) # q \<and> dl \<le> t1) \<Longrightarrow>
    timer_iter w t1 t2 alive t = (fs, True, t') \<Longrightarrow>
    timer_run t' t2 (fired @ fs)"


section \<open>Firing due deadlines\<close>

definition due :: "nat \<Rightarrow> (nat \<times> msg_id) list \<Rightarrow> (nat \<times> msg_id) list" where
  "due now q = takeWhile (\<lambda>(dl, _). dl \<le> now) q"

lemma fire_due_alive:
  assumes "fire_due True now q A = (fs, ok, q', A')"
  shows "ok \<and> q' = dropWhile (\<lambda>(dl, _). dl \<le> now) q \<and> A' = A - set fs \<and>
    set fs = A \<inter> snd ` set (due now q)"
  using assms
proof (induction q arbitrary: A fs ok q' A')
  case Nil
  then show ?case by (simp add: due_def)
next
  case (Cons p q)
  obtain dl m where p: "p = (dl, m)" by (cases p)
  consider "now < dl" | "\<not> now < dl" "m \<notin> A" | "\<not> now < dl" "m \<in> A" by blast
  then show ?case
  proof cases
    case 1
    with Cons.prems p show ?thesis by (auto simp: due_def)
  next
    case 2
    with Cons.prems p Cons.IH [of A fs ok q' A'] show ?thesis
      by (auto simp: due_def)
  next
    case 3
    then obtain gs where "fs = m # gs" "fire_due True now q (A - {m}) = (gs, ok, q', A')"
      using Cons.prems p by (auto split: prod.splits)
    with Cons.IH [OF this(2)] 3 p show ?thesis
      by (auto simp: due_def)
  qed
qed

lemma fire_due_order:
  assumes "fire_due True now q A = (fs, ok, q', A')" and "distinct (map snd q)"
  shows "fs = map snd (filter (\<lambda>(dl, m). m \<in> A) (due now q))"
  using assms
proof (induction q arbitrary: A fs ok q' A')
  case Nil
  then show ?case by (simp add: due_def)
next
  case (Cons p q)
  obtain dl m where p: "p = (dl, m)" by (cases p)
  have other: "filter (\<lambda>(dl, m'). m' \<in> A - {m}) (due now q) = filter (\<lambda>(dl, m'). m' \<in> A) (due now q)"
  proof (rule filter_cong [OF refl])
    fix x assume "x \<in> set (due now q)"
    then have "x \<in> set q" by (auto simp: due_def dest: set_takeWhileD)
    with Cons.prems(2) p have "snd x \<noteq> m" by auto
    then show "(case x of (dl, m') \<Rightarrow> m' \<in> A - {m}) = (case x of (dl, m') \<Rightarrow> m' \<in> A)"
      by (cases x) auto
  qed
  show ?case
  proof (cases "now < dl \<or> m \<notin> A")
    case True
    with Cons p show ?thesis by (auto simp: due_def not_le)
  next
    case False
    then obtain gs where "fs = m # gs" "fire_due True now q (A - {m}) = (gs, ok, q', A')"
      using Cons.prems(1) p by (auto split: prod.splits)
    with Cons.IH [OF this(2)] Cons.prems(2) p False other show ?thesis
      by (simp add: due_def not_less)
  qed
qed


section \<open>The abstract timer: armed ids with their deadlines\<close>

definition timer_abs :: "timer \<Rightarrow> msg_id \<rightharpoonup> nat" where
  "timer_abs t m =
     (if m \<in> armed t then map_of (map (\<lambda>(dl, m). (m, dl)) (deadlines t)) m else None)"

text \<open>The invariant of the thread at time \<open>now\<close>.\<close>

definition timer_inv :: "nat \<Rightarrow> timer \<Rightarrow> bool" where
  "timer_inv now t \<longleftrightarrow>
     sorted (map fst (deadlines t)) \<and>
     (\<forall>dl \<in> fst ` set (deadlines t). dl \<le> now + RESEND_TIMEOUT) \<and>
     armed t \<subseteq> snd ` set (deadlines t)"

lemma timer_inv_deadline:
  "timer_inv now t \<Longrightarrow> m \<in> armed t \<Longrightarrow> \<exists>dl. (dl, m) \<in> set (deadlines t) \<and> dl \<le> now + RESEND_TIMEOUT"
  by (fastforce simp: timer_inv_def)

lemma timer_inv_mono: "timer_inv now t \<Longrightarrow> now \<le> now' \<Longrightarrow> timer_inv now' t"
  by (fastforce simp: timer_inv_def)

lemma due_sorted:
  "sorted (map fst q) \<Longrightarrow> due now q = filter (\<lambda>(dl, _). dl \<le> now) q"
  by (induction q) (auto simp: due_def intro!: filter_False [symmetric])

lemma dropWhile_sorted:
  "sorted (map fst q) \<Longrightarrow> dropWhile (\<lambda>(dl, _). dl \<le> (now :: nat)) q = filter (\<lambda>(dl, _). now < dl) q"
  by (induction q) (auto intro!: filter_True [symmetric])

lemma timer_inv_fire:
  assumes "timer_inv now t" and "fire_due True now (deadlines t) (armed t) = (fs, ok, q, A)"
  shows "timer_inv now \<lparr>deadlines = q, armed = A\<rparr>"
proof -
  let ?q = "deadlines t"
  have s: "sorted (map fst ?q)" using assms(1) by (simp add: timer_inv_def)
  have q: "q = filter (\<lambda>(dl, _). now < dl) ?q" and A: "A = armed t - snd ` set (due now ?q)"
    using fire_due_alive [OF assms(2)] dropWhile_sorted [OF s] by auto
  have "A \<subseteq> snd ` set q"
  proof
    fix m assume m: "m \<in> A"
    then obtain dl where "(dl, m) \<in> set ?q"
      using A assms(1) by (auto simp: timer_inv_def)
    moreover have "\<not> dl \<le> now"
      using m A calculation by (force simp: due_sorted [OF s])
    ultimately show "m \<in> snd ` set q" by (force simp: q)
  qed
  then show ?thesis
    using assms(1) s by (auto simp: timer_inv_def q sorted_filter)
qed

lemma timer_inv_arm:
  "timer_inv now t \<Longrightarrow>
   timer_inv now (t\<lparr>deadlines := deadlines t @ [(now + RESEND_TIMEOUT, m)],
                   armed := insert m (armed t)\<rparr>)"
  by (auto simp: timer_inv_def sorted_append)

lemma timer_inv_cancel: "timer_inv now t \<Longrightarrow> timer_inv now (t\<lparr>armed := armed t - {m}\<rparr>)"
  by (auto simp: timer_inv_def)

text \<open>An iteration that goes on has handled its message and then fired what is due.\<close>

definition timer_handle :: "wake \<Rightarrow> nat \<Rightarrow> timer \<Rightarrow> timer" where
  "timer_handle w t1 t =
     (case w of
        Woken (Arm m) \<Rightarrow>
          t\<lparr>deadlines := deadlines t @ [(t1 + RESEND_TIMEOUT, m)], armed := insert m (armed t)\<rparr>
      | Woken (Cancel m) \<Rightarrow> t\<lparr>armed := armed t - {m}\<rparr>
      | _ \<Rightarrow> t)"

lemma fire_due_dead: "fire_due False now q A = (fs, True, q', A') \<Longrightarrow>
   fire_due True now q A = (fs, True, q', A') \<and> fs = []"
  by (induction q arbitrary: A) (auto split: if_splits prod.splits)

lemma timer_iter_on:
  assumes "timer_iter w t1 t2 alive t = (fs, True, t')"
  shows "fire_due True t2 (deadlines (timer_handle w t1 t)) (armed (timer_handle w t1 t)) =
    (fs, True, deadlines t', armed t')"
proof -
  have "fire_due alive t2 (deadlines (timer_handle w t1 t)) (armed (timer_handle w t1 t)) =
      (fs, True, deadlines t', armed t')"
    using assms
    by (auto simp: timer_iter_def timer_handle_def Let_def
        split: wake.splits timer_msg.splits prod.splits)
  then show ?thesis by (cases alive) (auto dest: fire_due_dead)
qed

lemma timer_handle_inv: "timer_inv t1 t \<Longrightarrow> timer_inv t1 (timer_handle w t1 t)"
  by (auto simp: timer_handle_def timer_inv_arm timer_inv_cancel split: wake.split timer_msg.split)

lemma timer_iter_inv:
  assumes "timer_inv now t" and "now \<le> t1" and "t1 \<le> t2"
    and "timer_iter w t1 t2 alive t = (fs, True, t')"
  shows "timer_inv t2 t'"
proof -
  have "timer_inv t2 (timer_handle w t1 t)"
    using assms(1-3) by (meson timer_handle_inv timer_inv_mono)
  from timer_inv_fire [OF this timer_iter_on [OF assms(4)]] show ?thesis
    by (simp add: timer_inv_def)
qed

lemma timer_run_inv: "timer_run t now fired \<Longrightarrow> timer_inv now t"
proof (induction rule: timer_run.induct)
  case (start now)
  then show ?case by (simp add: timer_inv_def timer_init_def)
next
  case (iterate t now fired t1 t2 w alive fs t')
  then show ?case by (blast intro: timer_iter_inv)
qed

lemma timer_abs_filter:
  assumes "distinct (map snd q)"
  shows "timer_abs \<lparr>deadlines = filter P q, armed = A\<rparr> m =
    (case timer_abs \<lparr>deadlines = q, armed = A\<rparr> m of
       None \<Rightarrow> None | Some dl \<Rightarrow> if P (dl, m) then Some dl else None)"
  using assms
  by (induction q) (auto simp: timer_abs_def map_of_eq_None_iff image_iff split: option.splits)


section \<open>Properties of the timer thread\<close>

text \<open>The specification of a message: what it does to the map from armed ids to deadlines.\<close>

definition abs_handle :: "wake \<Rightarrow> nat \<Rightarrow> (msg_id \<rightharpoonup> nat) \<Rightarrow> (msg_id \<rightharpoonup> nat)" where
  "abs_handle w t1 M =
     (case w of
        Woken (Arm m) \<Rightarrow> M(m \<mapsto> t1 + RESEND_TIMEOUT)
      | Woken (Cancel m) \<Rightarrow> M(m := None)
      | _ \<Rightarrow> M)"

lemma map_of_swap_None: "m \<notin> snd ` set q \<Longrightarrow> map_of (map (\<lambda>(dl, m). (m, dl)) q) m = None"
  by (auto simp: map_of_eq_None_iff image_iff)

lemma timer_abs_handle:
  assumes "\<forall>m. w = Woken (Arm m) \<longrightarrow> m \<notin> snd ` set (deadlines t)"
  shows "timer_abs (timer_handle w t1 t) = abs_handle w t1 (timer_abs t)"
  using assms
  by (auto simp: timer_abs_def timer_handle_def abs_handle_def fun_eq_iff map_add_def
      map_of_swap_None split: wake.split timer_msg.split option.split)

lemma timer_handle_distinct:
  assumes "\<forall>m. w = Woken (Arm m) \<longrightarrow> m \<notin> snd ` set (deadlines t)"
    and "distinct (map snd (deadlines t))"
  shows "distinct (map snd (deadlines (timer_handle w t1 t)))"
  using assms by (auto simp: timer_handle_def split: wake.split timer_msg.split)

lemma timer_abs_Some:
  "distinct (map snd (deadlines t)) \<Longrightarrow>
   timer_abs t m = Some dl \<longleftrightarrow> m \<in> armed t \<and> (dl, m) \<in> set (deadlines t)"
proof -
  assume "distinct (map snd (deadlines t))"
  then have "distinct (map fst (map (\<lambda>(dl, m). (m, dl)) (deadlines t)))"
    by (simp add: comp_def case_prod_beta)
  from map_of_eq_Some_iff [OF this] show ?thesis by (auto simp: timer_abs_def)
qed

text \<open>C9. An iteration of the timer thread refines the map from armed ids to deadlines: the message
  sets or clears one entry, then exactly the ids whose deadline has passed are fired, each once and
  in the order of their deadlines, and exactly the entries not yet due remain.  Cancelled ids,
  whose deadlines stay behind in the queue, never fire.\<close>

theorem timer_iter_refines:
  assumes "timer_inv now t" and "now \<le> t1" and "t1 \<le> t2" and "distinct (map snd (deadlines t))"
    and "\<forall>m. w = Woken (Arm m) \<longrightarrow> m \<notin> snd ` set (deadlines t)"
    and "timer_iter w t1 t2 True t = (fs, True, t')"
  shows "timer_abs t' = (\<lambda>m. case abs_handle w t1 (timer_abs t) m of
           None \<Rightarrow> None | Some dl \<Rightarrow> if t2 < dl then Some dl else None) \<and>
    set fs = {m. \<exists>dl \<le> t2. abs_handle w t1 (timer_abs t) m = Some dl} \<and>
    distinct fs \<and> sorted (map (\<lambda>m. the (abs_handle w t1 (timer_abs t) m)) fs)"
proof -
  let ?h = "timer_handle w t1 t"
  let ?M = "abs_handle w t1 (timer_abs t)"
  have M: "timer_abs ?h = ?M" by (rule timer_abs_handle [OF assms(5)])
  have d: "distinct (map snd (deadlines ?h))" by (rule timer_handle_distinct [OF assms(5,4)])
  have Some: "?M m = Some dl \<longleftrightarrow> m \<in> armed ?h \<and> (dl, m) \<in> set (deadlines ?h)" for m dl
    using timer_abs_Some [OF d, of m dl] by (simp add: M)
  have "timer_inv t1 ?h" using assms(1,2) by (meson timer_handle_inv timer_inv_mono)
  then have s: "sorted (map fst (deadlines ?h))" by (simp add: timer_inv_def)
  note fire = timer_iter_on [OF assms(6)]
  have q: "deadlines t' = filter (\<lambda>(dl, _). t2 < dl) (deadlines ?h)"
    and A: "armed t' = armed ?h - set fs"
    and f: "set fs = armed ?h \<inter> snd ` set (due t2 (deadlines ?h))"
    using fire_due_alive [OF fire] dropWhile_sorted [OF s] by auto
  let ?due = "filter (\<lambda>(dl, m). m \<in> armed ?h) (due t2 (deadlines ?h))"
  have fs: "fs = map snd ?due" by (rule fire_due_order [OF fire d])
  have due: "?due = filter (\<lambda>(dl, m). dl \<le> t2 \<and> m \<in> armed ?h) (deadlines ?h)"
    by (auto simp: due_sorted [OF s] intro!: filter_cong)
  have set_fs: "set fs = {m. \<exists>dl \<le> t2. ?M m = Some dl}"
    unfolding fs due by (force simp: Some)
  have "timer_abs t' m = (case ?M m of None \<Rightarrow> None | Some dl \<Rightarrow> if t2 < dl then Some dl else None)"
    for m
  proof -
    have "timer_abs t' m = Some dl \<longleftrightarrow> ?M m = Some dl \<and> t2 < dl" for dl
    proof -
      have d': "distinct (map snd (deadlines t'))" using d q by (simp add: distinct_map_filter)
      have "m \<notin> set fs" if "?M m = Some dl" "t2 < dl" using that set_fs by auto
      moreover have "timer_abs t' m = Some dl \<longleftrightarrow>
          m \<in> armed ?h \<and> m \<notin> set fs \<and> (dl, m) \<in> set (deadlines ?h) \<and> t2 < dl"
        by (simp add: timer_abs_Some [OF d'] q A)
      ultimately show ?thesis unfolding Some by blast
    qed
    then show ?thesis by (rule option_restrictI)
  qed
  moreover have "map (\<lambda>m. the (?M m)) fs = map fst ?due"
    unfolding fs due map_map by (rule map_cong [OF refl]) (auto simp: iffD2 [OF Some])
  then have "sorted (map (\<lambda>m. the (?M m)) fs)"
    by (simp add: due sorted_filter [OF s])
  moreover have "distinct fs" unfolding fs due by (simp add: distinct_map_filter d)
  ultimately show ?thesis using set_fs by blast
qed

theorem timer_iter_refines_witness:
  "timer_abs \<lparr>deadlines = [(5900, [2])], armed = {[2]}\<rparr> =
     (\<lambda>m. case abs_handle Expired 5100 [[1] \<mapsto> 5000, [2] \<mapsto> 5900] m of
        None \<Rightarrow> None | Some dl \<Rightarrow> if 5100 < dl then Some dl else None)"
proof -
  let ?t = "\<lparr>deadlines = [(5000, [1]), (5050, [3]), (5900, [2])], armed = {[1], [2]}\<rparr> :: timer"
  have inv: "timer_inv 1000 ?t" by (simp add: timer_inv_def RESEND_TIMEOUT_def)
  have run: "timer_iter Expired 5100 5100 True ?t =
      ([[1]], True, \<lparr>deadlines = [(5900, [2])], armed = {[2]}\<rparr>)"
    by (simp add: timer_iter_def)
  have abs: "timer_abs ?t = [[1] \<mapsto> 5000, [2] \<mapsto> 5900]"
    by (auto simp: timer_abs_def)
  from timer_iter_refines [OF inv _ _ _ _ run] abs show ?thesis by simp
qed

text \<open>C27. In every run of the timer thread the deadlines are sorted (the premise of popping only from
  the front), every armed id has a deadline in the queue at most \<open>RESEND_TIMEOUT\<close> away, so the thread
  never sleeps without a timeout while an id is armed, and the first iteration that ends at least
  \<open>RESEND_TIMEOUT\<close> later has fired every id that it was not asked to cancel.\<close>

theorem timer_run_live:
  assumes "timer_run t now fired"
  shows "sorted (map fst (deadlines t)) \<and>
    (\<forall>m \<in> armed t. \<exists>dl. (dl, m) \<in> set (deadlines t) \<and> dl \<le> now + RESEND_TIMEOUT) \<and>
    (armed t \<noteq> {} \<longrightarrow> (\<exists>d \<le> RESEND_TIMEOUT. wait_for t now = Some d)) \<and>
    (\<forall>w t1 t2 fs t'. now \<le> t1 \<and> now + RESEND_TIMEOUT \<le> t2 \<and> t1 \<le> t2 \<and>
       timer_iter w t1 t2 True t = (fs, True, t') \<longrightarrow>
       (\<forall>m \<in> armed t. w \<noteq> Woken (Cancel m) \<longrightarrow> m \<in> set fs))"
proof -
  have inv: "timer_inv now t" by (rule timer_run_inv [OF assms])
  then have sorted: "sorted (map fst (deadlines t))"
    and dl: "\<forall>m \<in> armed t. \<exists>dl. (dl, m) \<in> set (deadlines t) \<and> dl \<le> now + RESEND_TIMEOUT"
    by (simp_all add: timer_inv_def) (use timer_inv_deadline [OF inv] in blast)
  have "\<exists>d \<le> RESEND_TIMEOUT. wait_for t now = Some d" if "armed t \<noteq> {}"
    using that inv by (auto simp: timer_inv_def wait_for_def split: list.split)
  moreover have "m \<in> set fs"
    if le: "now \<le> t1" "now + RESEND_TIMEOUT \<le> t2" "t1 \<le> t2"
      and it: "timer_iter w t1 t2 True t = (fs, True, t')"
      and m: "m \<in> armed t" "w \<noteq> Woken (Cancel m)" for w t1 t2 fs t' m
  proof -
    let ?h = "timer_handle w t1 t"
    have "timer_inv t1 ?h" using inv le by (meson timer_handle_inv timer_inv_mono)
    then have s: "sorted (map fst (deadlines ?h))" by (simp add: timer_inv_def)
    obtain dl where "(dl, m) \<in> set (deadlines t)" "dl \<le> t2"
      using dl m(1) le(2) by (meson le_trans)
    moreover have "set (deadlines t) \<subseteq> set (deadlines ?h)"
      by (auto simp: timer_handle_def split: wake.split timer_msg.split)
    ultimately have "(dl, m) \<in> set (due t2 (deadlines ?h))"
      by (auto simp: due_sorted [OF s])
    moreover have "m \<in> armed ?h"
      using m by (auto simp: timer_handle_def split: wake.split timer_msg.split)
    ultimately show ?thesis using fire_due_alive [OF timer_iter_on [OF it]] by force
  qed
  ultimately show ?thesis using sorted dl by blast
qed

theorem timer_run_live_witness:
  "timer_run \<lparr>deadlines = [(5007, [1])], armed = {[1]}\<rparr> 7 [] \<and>
   (\<exists>d \<le> RESEND_TIMEOUT. wait_for \<lparr>deadlines = [(5007, [1])], armed = {[1]}\<rparr> 7 = Some d)"
proof -
  let ?t = "\<lparr>deadlines = [(5007, [1])], armed = {[1]}\<rparr> :: timer"
  have "timer_iter (Woken (Arm [1])) 7 7 True timer_init = ([], True, ?t)"
    by (simp add: timer_iter_def timer_init_def RESEND_TIMEOUT_def)
  from timer_run.iterate [OF timer_run.start _ _ _ this, of 3] have run: "timer_run ?t 7 []" by simp
  from timer_run_live [OF this] have "armed ?t \<noteq> {} \<longrightarrow> (\<exists>d \<le> RESEND_TIMEOUT. wait_for ?t 7 = Some d)"
    by blast
  with run show ?thesis by simp
qed

end
