(* ===== verification/Broker.thy ===== *)
theory Broker
  imports Resend_Timers
begin

text \<open>
  The broker of the synchronous crate, \<open>rust-lib-sync/src/broker.rs\<close>: the single thread that owns
  the connection map, the round-robin cursor, the send buffer and the table of unacknowledged
  messages, and the routing modes of \<open>rust-lib-sync/src/lib.rs\<close>.

  The record \<open>broker\<close> has the fields of the Rust struct.  A \<open>Sender\<close> is the number of its channel;
  what has been sent on the writer channels, to the application (\<open>recv_tx\<close>), to the timer thread
  and on the one-shot \<open>accept\<close> channels is kept in the state as the list of messages in order, so a
  command's effects are visible in the next state.  A send to a channel whose receiver is gone is
  ignored by the source (\<open>let _ = ...\<close>); it is in the list too, and nobody reads it.
\<close>

datatype SendMode = RoundRobin | Publish
datatype DeliveryGuarantee = AtMostOnce | AtLeastOnce

type_synonym chan = nat

datatype command =
    Send "identity option" bytes
  | ConnectionUp identity chan chan  \<comment> \<open>identity, writer, accept\<close>
  | ConnectionDown identity
  | Received identity envelope
  | ResendTimeout msg_id
  | Close

record pending_msg =
  p_identity :: "identity option"
  p_data :: bytes
  p_retries :: u32

record broker =
  send_mode :: SendMode
  delivery :: DeliveryGuarantee
  recv_tx :: "(identity \<times> bytes) list"
  conns :: "(identity, chan) hmap"
  order :: "identity list"
  rr_cursor :: usize
  buffer :: "(identity option \<times> bytes) list"
  pending :: "(msg_id, pending_msg) hmap"
  salt :: bytes
  next_id :: u64
  timer_tx :: resend_timers
  writers :: "chan \<Rightarrow> bytes list"      \<comment> \<open>the frames sent on each writer channel\<close>
  accepts :: "(chan \<times> bool) list"     \<comment> \<open>the answers sent on the accept channels\<close>

text \<open>\<open>Broker::new\<close>; the salt is the first half of a random UUID.\<close>

definition broker_new :: "SendMode \<Rightarrow> DeliveryGuarantee \<Rightarrow> bytes \<Rightarrow> broker" where
  "broker_new mode guarantee uuid =
     \<lparr>send_mode = mode, delivery = guarantee, recv_tx = [], conns = [], order = [],
      rr_cursor = 0, buffer = [], pending = [], salt = take 8 uuid, next_id = 0,
      timer_tx = timers_spawn, writers = (\<lambda>_. []), accepts = []\<rparr>"

definition tx_send :: "chan \<Rightarrow> bytes \<Rightarrow> broker \<Rightarrow> broker" where
  "tx_send tx frame b = b\<lparr>writers := (writers b)(tx := writers b tx @ [frame])\<rparr>"

definition next_msg_id :: "broker \<Rightarrow> msg_id \<times> broker" where
  "next_msg_id b = (salt b @ u64_to_be_bytes (next_id b), b\<lparr>next_id := next_id b + 1\<rparr>)"

definition next_round_robin :: "broker \<Rightarrow> identity option \<times> broker" where
  "next_round_robin b =
     (if order b = [] then (None, b)
      else (Some (order b ! (unat (rr_cursor b) mod length (order b))),
            b\<lparr>rr_cursor := rr_cursor b + 1\<rparr>))"

definition route :: "identity option \<Rightarrow> bytes \<Rightarrow> broker \<Rightarrow> broker" where
  "route target frame b =
     (case target of
        Some i \<Rightarrow> (case hm_get (conns b) i of Some tx \<Rightarrow> tx_send tx frame b | None \<Rightarrow> b)
      | None \<Rightarrow>
          (case send_mode b of
             Publish \<Rightarrow> fold (\<lambda>(_, tx). tx_send tx frame) (conns b) b
           | RoundRobin \<Rightarrow>
               (case next_round_robin b of
                  (None, b') \<Rightarrow> b'
                | (Some i, b') \<Rightarrow>
                    (case hm_get (conns b') i of Some tx \<Rightarrow> tx_send tx frame b' | None \<Rightarrow> b'))))"

definition transmit :: "identity option \<Rightarrow> bytes \<Rightarrow> u32 \<Rightarrow> broker \<Rightarrow> broker" where
  "transmit target p retries b =
     (let at_least_once =
            delivery b = AtLeastOnce \<and> (target \<noteq> None \<or> send_mode b = RoundRobin)
      in if at_least_once then
           let (m, b1) = next_msg_id b;
               frame = data_req m p;
               b2 = b1\<lparr>timer_tx := timers_arm (timer_tx b1) m\<rparr>;
               b3 = b2\<lparr>pending := hm_insert m
                        \<lparr>p_identity = target, p_data = p, p_retries = retries\<rparr> (pending b2)\<rparr>
           in route target frame b3
         else route target (data p) b)"

definition handle_send :: "identity option \<Rightarrow> bytes \<Rightarrow> broker \<Rightarrow> broker" where
  "handle_send target p b =
     (if conns b = [] then b\<lparr>buffer := buffer b @ [(target, p)]\<rparr>
      else transmit target p MAX_RETRIES b)"

definition handle_up :: "identity \<Rightarrow> chan \<Rightarrow> chan \<Rightarrow> broker \<Rightarrow> broker" where
  "handle_up i writer accept b =
     (if hm_get (conns b) i \<noteq> None then b\<lparr>accepts := accepts b @ [(accept, False)]\<rparr>
      else
        let b1 = b\<lparr>conns := hm_insert i writer (conns b), order := order b @ [i],
                   accepts := accepts b @ [(accept, True)]\<rparr>
        in if buffer b1 = [] then b1
           else fold (\<lambda>(target, p). handle_send target p) (buffer b1) (b1\<lparr>buffer := []\<rparr>))"

definition handle_down :: "identity \<Rightarrow> broker \<Rightarrow> broker" where
  "handle_down i b = b\<lparr>conns := hm_remove i (conns b), order := remove1 i (order b)\<rparr>"

definition handle_received :: "identity \<Rightarrow> envelope \<Rightarrow> broker \<Rightarrow> broker" where
  "handle_received i e b =
     (case e of
        Data p \<Rightarrow> b\<lparr>recv_tx := recv_tx b @ [(i, p)]\<rparr>
      | DataReq m p \<Rightarrow> route (Some i) (ack m) (b\<lparr>recv_tx := recv_tx b @ [(i, p)]\<rparr>)
      | Ack m \<Rightarrow>
          (if hm_get (pending b) m \<noteq> None
           then b\<lparr>pending := hm_remove m (pending b), timer_tx := timers_cancel (timer_tx b) m\<rparr>
           else b)
      | Hello _ _ \<Rightarrow> b
      | Heartbeat \<Rightarrow> b)"

definition handle_resend :: "msg_id \<Rightarrow> broker \<Rightarrow> broker" where
  "handle_resend m b =
     (case hm_get (pending b) m of
        None \<Rightarrow> b
      | Some pm \<Rightarrow>
          let b1 = b\<lparr>pending := hm_remove m (pending b)\<rparr>
          in if p_retries pm = 0 then b1
             else if conns b1 = [] then b1\<lparr>buffer := buffer b1 @ [(p_identity pm, p_data pm)]\<rparr>
             else transmit (p_identity pm) (p_data pm) (p_retries pm - 1) b1)"

text \<open>One round of \<open>Broker::run\<close>, and the loop: it stops at \<open>Close\<close>, and dropping the broker stops
  the timer thread.\<close>

definition handle_command :: "command \<Rightarrow> broker \<Rightarrow> broker" where
  "handle_command cmd b =
     (case cmd of
        Send target p \<Rightarrow> handle_send target p b
      | ConnectionUp i writer accept \<Rightarrow> handle_up i writer accept b
      | ConnectionDown i \<Rightarrow> handle_down i b
      | Received i e \<Rightarrow> handle_received i e b
      | ResendTimeout m \<Rightarrow> handle_resend m b
      | Close \<Rightarrow> b)"

fun run :: "command list \<Rightarrow> broker \<Rightarrow> broker" where
  "run [] b = b\<lparr>timer_tx := timers_drop (timer_tx b)\<rparr>"
| "run (cmd # cmds) b =
     (if cmd = Close then b\<lparr>timer_tx := timers_drop (timer_tx b)\<rparr>
      else run cmds (handle_command cmd b))"

text \<open>
  The states of a broker between two commands.  Identities and the random bytes of the salt have
  the width of their Rust types, and the writer in a \<open>ConnectionUp\<close> is the sender of a channel
  made for this connection, so no other entry of the map holds it and nothing was sent on it.
\<close>

definition command_ok :: "command \<Rightarrow> broker \<Rightarrow> bool" where
  "command_ok cmd b \<longleftrightarrow>
     (case cmd of
        Send (Some i) p \<Rightarrow> is_id i
      | ConnectionUp i writer accept \<Rightarrow>
          is_id i \<and> writer \<notin> snd ` set (conns b) \<and> writers b writer = []
      | ConnectionDown i \<Rightarrow> is_id i
      | Received i e \<Rightarrow> is_id i \<and> wf_envelope e
      | Close \<Rightarrow> False
      | _ \<Rightarrow> True)"

inductive broker_reach :: "broker \<Rightarrow> bool" where
  init: "length uuid = 16 \<Longrightarrow> broker_reach (broker_new mode guarantee uuid)"
| step: "broker_reach b \<Longrightarrow> command_ok cmd b \<Longrightarrow> broker_reach (handle_command cmd b)"


section \<open>What the helpers change\<close>

lemma tx_send_fields [simp]:
  "send_mode (tx_send tx f b) = send_mode b" "delivery (tx_send tx f b) = delivery b"
  "recv_tx (tx_send tx f b) = recv_tx b" "conns (tx_send tx f b) = conns b"
  "order (tx_send tx f b) = order b" "rr_cursor (tx_send tx f b) = rr_cursor b"
  "buffer (tx_send tx f b) = buffer b" "pending (tx_send tx f b) = pending b"
  "salt (tx_send tx f b) = salt b" "next_id (tx_send tx f b) = next_id b"
  "timer_tx (tx_send tx f b) = timer_tx b" "accepts (tx_send tx f b) = accepts b"
  "writers (tx_send tx f b) c = (if c = tx then writers b c @ [f] else writers b c)"
  by (simp_all add: tx_send_def)

text \<open>A publish appends one copy per entry of the map, in whatever order the map is visited.\<close>

lemma fold_tx_send:
  "fold (\<lambda>(_, tx). tx_send tx f) cs b =
   b\<lparr>writers := \<lambda>c. writers b c @ replicate (count_list (map snd cs) c) f\<rparr>"
proof (induction cs arbitrary: b)
  case Nil
  then show ?case by simp
next
  case (Cons p cs)
  obtain i tx where p: "p = (i, tx)" by (cases p)
  have upd: "(tx_send tx f b)\<lparr>writers := w\<rparr> = b\<lparr>writers := w\<rparr>" for w
    by (simp add: tx_send_def)
  show ?case
    by (simp add: p Cons.IH upd) (intro arg_cong [where f = "\<lambda>w. b\<lparr>writers := w\<rparr>"] ext, simp)
qed

lemma count_list_distinct: "distinct xs \<Longrightarrow> count_list xs x = (if x \<in> set xs then 1 else 0)"
  by (induction xs) auto

lemma next_round_robin_fields [simp]:
  "conns (snd (next_round_robin b)) = conns b" "order (snd (next_round_robin b)) = order b"
  "send_mode (snd (next_round_robin b)) = send_mode b"
  "delivery (snd (next_round_robin b)) = delivery b"
  "recv_tx (snd (next_round_robin b)) = recv_tx b" "buffer (snd (next_round_robin b)) = buffer b"
  "pending (snd (next_round_robin b)) = pending b" "salt (snd (next_round_robin b)) = salt b"
  "next_id (snd (next_round_robin b)) = next_id b"
  "timer_tx (snd (next_round_robin b)) = timer_tx b"
  "accepts (snd (next_round_robin b)) = accepts b"
  "writers (snd (next_round_robin b)) = writers b"
  by (simp_all add: next_round_robin_def)

text \<open>Routing only writes to channels and moves the cursor.\<close>

lemma route_fields [simp]:
  "send_mode (route t f b) = send_mode b" "delivery (route t f b) = delivery b"
  "recv_tx (route t f b) = recv_tx b" "conns (route t f b) = conns b"
  "order (route t f b) = order b" "buffer (route t f b) = buffer b"
  "pending (route t f b) = pending b" "salt (route t f b) = salt b"
  "next_id (route t f b) = next_id b" "timer_tx (route t f b) = timer_tx b"
  "accepts (route t f b) = accepts b"
  by (simp_all add: route_def fold_tx_send next_round_robin_def
      split: option.split SendMode.split)

definition tracked :: "identity option \<Rightarrow> broker \<Rightarrow> bool" where
  "tracked t b \<longleftrightarrow> delivery b = AtLeastOnce \<and> (t \<noteq> None \<or> send_mode b = RoundRobin)"

lemma transmit_fields [simp]:
  "send_mode (transmit t p r b) = send_mode b" "delivery (transmit t p r b) = delivery b"
  "recv_tx (transmit t p r b) = recv_tx b" "conns (transmit t p r b) = conns b"
  "order (transmit t p r b) = order b" "buffer (transmit t p r b) = buffer b"
  "salt (transmit t p r b) = salt b" "accepts (transmit t p r b) = accepts b"
  "next_id (transmit t p r b) = (if tracked t b then next_id b + 1 else next_id b)"
  "timer_tx (transmit t p r b) =
     (if tracked t b then timer_tx b @ [Arm (salt b @ u64_to_be_bytes (next_id b))]
      else timer_tx b)"
  "pending (transmit t p r b) =
     (if tracked t b
      then hm_insert (salt b @ u64_to_be_bytes (next_id b))
             \<lparr>p_identity = t, p_data = p, p_retries = r\<rparr> (pending b)
      else pending b)"
  by (auto simp: transmit_def next_msg_id_def tracked_def timers_arm_def)


lemma handle_send_connected: "conns b \<noteq> [] \<Longrightarrow> handle_send t p b = transmit t p MAX_RETRIES b"
  by (simp add: handle_send_def)

text \<open>Flushing the buffer: once a connection is there, every buffered message is transmitted.\<close>

definition flush :: "(identity option \<times> bytes) list \<Rightarrow> broker \<Rightarrow> broker" where
  "flush xs b = fold (\<lambda>(t, p). handle_send t p) xs b"

lemma flush_Nil [simp]: "flush [] b = b"
  by (simp add: flush_def)

lemma flush_Cons: "conns b \<noteq> [] \<Longrightarrow> flush ((t, p) # xs) b = flush xs (transmit t p MAX_RETRIES b)"
  by (simp add: flush_def handle_send_connected)

lemma handle_up_new:
  assumes "hm_get (conns b) i = None"
  shows "handle_up i w a b = flush (buffer b)
    (b\<lparr>conns := hm_insert i w (conns b), order := order b @ [i],
       accepts := accepts b @ [(a, True)], buffer := []\<rparr>)"
proof (cases "buffer b = []")
  case True
  then have "b\<lparr>buffer := []\<rparr> = b" by simp
  with True assms show ?thesis by (simp add: handle_up_def)
next
  case False
  with assms show ?thesis by (simp add: handle_up_def flush_def)
qed

lemma hm_insert_nonempty [simp]: "hm_insert k v m \<noteq> []"
  by (metis hm_keys_empty_iff hm.keys_insert insert_not_empty)

lemma flush_fields:
  assumes "conns b \<noteq> []"
  shows "send_mode (flush xs b) = send_mode b" "delivery (flush xs b) = delivery b"
    "recv_tx (flush xs b) = recv_tx b" "conns (flush xs b) = conns b"
    "order (flush xs b) = order b" "buffer (flush xs b) = buffer b"
    "salt (flush xs b) = salt b" "accepts (flush xs b) = accepts b"
  using assms by (induction xs arbitrary: b) (auto simp: flush_Cons)


section \<open>Invariants of the broker\<close>

text \<open>
  An invariant that the primitive state changes of the handlers keep holds in every reachable
  state.  The handlers are composed of these changes in one place, here.
\<close>

locale broker_invariant =
  fixes I :: "broker \<Rightarrow> bool"
  assumes inv_init: "length uuid = 16 \<Longrightarrow> I (broker_new mode guarantee uuid)"
    and inv_transmit: "I b \<Longrightarrow> conns b \<noteq> [] \<Longrightarrow> I (transmit t p MAX_RETRIES b)"
    and inv_enqueue: "I b \<Longrightarrow> conns b = [] \<Longrightarrow> I (b\<lparr>buffer := buffer b @ [x]\<rparr>)"
    and inv_connect: "I b \<Longrightarrow> hm_get (conns b) i = None \<Longrightarrow> is_id i \<Longrightarrow>
      w \<notin> snd ` set (conns b) \<Longrightarrow>
      I (b\<lparr>conns := hm_insert i w (conns b), order := order b @ [i], accepts := as, buffer := []\<rparr>)"
    and inv_answer: "I b \<Longrightarrow> I (b\<lparr>accepts := as\<rparr>)"
    and inv_down: "I b \<Longrightarrow> I (handle_down i b)"
    and inv_deliver: "I b \<Longrightarrow> I (b\<lparr>recv_tx := xs\<rparr>)"
    and inv_route: "I b \<Longrightarrow> I (route t f b)"
    and inv_acked: "I b \<Longrightarrow> hm_get (pending b) m \<noteq> None \<Longrightarrow>
      I (b\<lparr>pending := hm_remove m (pending b), timer_tx := timers_cancel (timer_tx b) m\<rparr>)"
    and inv_forget: "I b \<Longrightarrow> I (b\<lparr>pending := hm_remove m (pending b)\<rparr>)"
    and inv_resend: "I b \<Longrightarrow> hm_get (pending b) m = Some pm \<Longrightarrow> p_retries pm \<noteq> 0 \<Longrightarrow> conns b \<noteq> [] \<Longrightarrow>
      I (transmit (p_identity pm) (p_data pm) (p_retries pm - 1)
          (b\<lparr>pending := hm_remove m (pending b)\<rparr>))"
begin

lemma inv_flush: "I b \<Longrightarrow> conns b \<noteq> [] \<Longrightarrow> I (flush xs b)"
  by (induction xs arbitrary: b) (auto simp: flush_Cons inv_transmit)

lemma inv_command:
  assumes "I b" and "command_ok cmd b"
  shows "I (handle_command cmd b)"
proof (cases cmd)
  case (Send t p)
  with assms(1) show ?thesis
    by (simp add: handle_command_def handle_send_def inv_transmit inv_enqueue)
next
  case (ConnectionUp i w a)
  show ?thesis
  proof (cases "hm_get (conns b) i")
    case None
    with assms ConnectionUp show ?thesis
      by (simp add: handle_command_def handle_up_new inv_flush inv_connect command_ok_def)
  next
    case (Some c)
    with assms(1) ConnectionUp show ?thesis
      by (simp add: handle_command_def handle_up_def inv_answer)
  qed
next
  case (ConnectionDown i)
  with assms(1) show ?thesis by (simp add: handle_command_def inv_down)
next
  case (Received i e)
  with assms(1) show ?thesis
    by (cases e) (simp_all add: handle_command_def handle_received_def inv_deliver inv_route inv_acked)
next
  case (ResendTimeout m)
  show ?thesis
  proof (cases "hm_get (pending b) m")
    case None
    with assms(1) ResendTimeout show ?thesis
      by (simp add: handle_command_def handle_resend_def)
  next
    case (Some pm)
    with assms(1) ResendTimeout inv_forget [OF assms(1), of m]
      inv_enqueue [OF inv_forget [OF assms(1), of m]] inv_resend [OF assms(1) Some]
    show ?thesis by (simp add: handle_command_def handle_resend_def Let_def)
  qed
next
  case Close
  with assms(2) show ?thesis by (simp add: command_ok_def)
qed

lemma inv_reach: "broker_reach b \<Longrightarrow> I b"
  by (induction rule: broker_reach.induct) (auto intro: inv_init inv_command)

end

text \<open>The connection table: map, visiting order and buffer agree.\<close>

definition conn_inv :: "broker \<Rightarrow> bool" where
  "conn_inv b \<longleftrightarrow>
     hm_wf (conns b) \<and> distinct (map snd (conns b)) \<and>
     distinct (order b) \<and> set (order b) = hm_keys (conns b) \<and>
     (\<forall>i \<in> hm_keys (conns b). is_id i) \<and>
     (conns b \<noteq> [] \<longrightarrow> buffer b = [])"

interpretation ci: broker_invariant conn_inv
proof unfold_locales
  fix b i w as
  assume "conn_inv b" "hm_get (conns b) i = None" "is_id i" "w \<notin> snd ` set (conns b)"
  then show "conn_inv (b\<lparr>conns := hm_insert i w (conns b), order := order b @ [i],
      accepts := as, buffer := []\<rparr>)"
    by (auto simp: conn_inv_def hm_simps distinct_snd_insert hm.keys_get)
next
  fix b i assume "conn_inv b"
  then show "conn_inv (handle_down i b)"
    by (auto simp: conn_inv_def handle_down_def hm_simps distinct_snd_remove set_remove1_eq
        hm_remove_absent)
qed (auto simp: conn_inv_def broker_new_def hm_simps)


text \<open>
  The table of unacknowledged messages.  \<open>arms\<close> counts the ids issued so far (each is armed once);
  \<open>armed_after\<close> is what the messages to the timer thread leave armed.
\<close>

fun is_Arm :: "timer_msg \<Rightarrow> bool" where
  "is_Arm (Arm m) = True"
| "is_Arm _ = False"

definition arms :: "broker \<Rightarrow> nat" where
  "arms b = length (filter is_Arm (timer_tx b))"

fun arm_step :: "timer_msg \<Rightarrow> msg_id set \<Rightarrow> msg_id set" where
  "arm_step (Arm m) A = insert m A"
| "arm_step (Cancel m) A = A - {m}"
| "arm_step Shutdown A = A"

definition armed_after :: "timer_msg list \<Rightarrow> msg_id set" where
  "armed_after ms = fold arm_step ms {}"

definition nth_id :: "broker \<Rightarrow> nat \<Rightarrow> msg_id" where
  "nth_id b k = salt b @ u64_to_be_bytes (word_of_nat k)"

definition pend_inv :: "broker \<Rightarrow> bool" where
  "pend_inv b \<longleftrightarrow>
     hm_wf (pending b) \<and> length (salt b) = 8 \<and> next_id b = word_of_nat (arms b) \<and>
     (\<forall>m \<in> hm_keys (pending b). \<exists>k < arms b. m = nth_id b k) \<and>
     (\<forall>(m, pm) \<in> set (pending b). p_retries pm \<le> MAX_RETRIES \<and> tracked (p_identity pm) b) \<and>
     hm_keys (pending b) \<subseteq> armed_after (timer_tx b)"

lemma pend_inv_cong:
  assumes "pend_inv b" and "pending b' = pending b" and "salt b' = salt b"
    and "next_id b' = next_id b" and "timer_tx b' = timer_tx b"
    and "send_mode b' = send_mode b" and "delivery b' = delivery b"
  shows "pend_inv b'"
  using assms by (simp add: pend_inv_def arms_def nth_id_def tracked_def)

lemma pend_inv_transmit:
  assumes "pend_inv b" and "r \<le> MAX_RETRIES"
  shows "pend_inv (transmit t p r b)"
proof (cases "tracked t b")
  case True
  let ?b = "transmit t p r b"
  have arms: "arms ?b = Suc (arms b)" using True by (simp add: arms_def)
  have nid: "salt b @ u64_to_be_bytes (next_id b) = nth_id b (arms b)"
    using assms(1) by (simp add: pend_inv_def nth_id_def)
  have "\<forall>m \<in> hm_keys (pending ?b). \<exists>k < arms ?b. m = nth_id ?b k"
    using assms(1) True nid
    by (auto simp: pend_inv_def hm_simps arms nth_id_def less_Suc_eq)
  moreover have "\<forall>(m, pm) \<in> set (pending ?b). p_retries pm \<le> MAX_RETRIES \<and> tracked (p_identity pm) ?b"
    using assms True by (auto simp: pend_inv_def tracked_def dest!: hm_insert_set)
  ultimately show ?thesis
    using assms(1) True arms
    by (auto simp: pend_inv_def hm_simps armed_after_def)
next
  case False
  with assms(1) show ?thesis by (elim pend_inv_cong) simp_all
qed

lemma pend_inv_forget: "pend_inv b \<Longrightarrow> pend_inv (b\<lparr>pending := hm_remove m (pending b)\<rparr>)"
  by (auto simp: pend_inv_def hm_simps arms_def nth_id_def tracked_def dest!: hm_remove_set)

lemma pend_inv_acked:
  "pend_inv b \<Longrightarrow>
   pend_inv (b\<lparr>pending := hm_remove m (pending b), timer_tx := timers_cancel (timer_tx b) m\<rparr>)"
  by (auto simp: pend_inv_def hm_simps arms_def nth_id_def tracked_def timers_cancel_def
      armed_after_def dest!: hm_remove_set)

interpretation pi: broker_invariant pend_inv
proof unfold_locales
  fix b m pm
  assume b: "pend_inv b" and pm: "hm_get (pending b) m = Some pm" "p_retries pm \<noteq> 0"
  have "p_retries pm \<le> MAX_RETRIES"
    using b hm_get_in_set [OF pm(1)] by (auto simp: pend_inv_def)
  then have "p_retries pm - 1 \<le> MAX_RETRIES"
    using pm(2) by (simp add: word_le_nat_alt unat_minus_one)
  then show "pend_inv (transmit (p_identity pm) (p_data pm) (p_retries pm - 1)
      (b\<lparr>pending := hm_remove m (pending b)\<rparr>))"
    using b by (simp add: pend_inv_transmit pend_inv_forget)
next
  fix uuid mode guarantee assume "length (uuid :: bytes) = 16"
  then show "pend_inv (broker_new mode guarantee uuid)"
    by (simp add: pend_inv_def broker_new_def hm_simps arms_def timers_spawn_def)
next
  fix b t p assume "pend_inv b"
  then show "pend_inv (transmit t p MAX_RETRIES b)" by (simp add: pend_inv_transmit)
next
  fix b m assume "pend_inv b"
  then show "pend_inv (b\<lparr>pending := hm_remove m (pending b)\<rparr>)" by (rule pend_inv_forget)
next
  fix b m assume "pend_inv b"
  then show "pend_inv (b\<lparr>pending := hm_remove m (pending b),
      timer_tx := timers_cancel (timer_tx b) m\<rparr>)" by (rule pend_inv_acked)
qed (erule pend_inv_cong; simp add: handle_down_def)+

text \<open>Two ids of a broker are equal only if their numbers agree modulo \<open>2 ^ 64\<close>.\<close>

lemma nth_id_inj:
  assumes "nth_id b j = nth_id b k" and "j < 2 ^ 64" and "k < 2 ^ 64"
  shows "j = k"
proof -
  have "(word_of_nat j :: u64) = word_of_nat k"
    using assms(1) by (simp add: nth_id_def u64_to_be_inj)
  then have "unat (word_of_nat j :: u64) = unat (word_of_nat k :: u64)" by simp
  with assms(2,3) show ?thesis by (simp add: unat_of_nat)
qed

lemma pend_inv_fresh:
  assumes "pend_inv b" and "arms b < 2 ^ 64"
  shows "hm_get (pending b) (salt b @ u64_to_be_bytes (next_id b)) = None"
proof (rule ccontr)
  have nid: "salt b @ u64_to_be_bytes (next_id b) = nth_id b (arms b)"
    using assms(1) by (simp add: pend_inv_def nth_id_def)
  assume "\<not> ?thesis"
  then have "nth_id b (arms b) \<in> hm_keys (pending b)" by (simp add: nid hm.keys_get)
  then obtain k where "k < arms b" "nth_id b (arms b) = nth_id b k"
    using assms(1) by (auto simp: pend_inv_def)
  with nth_id_inj [of b "arms b" k] assms(2) show False by simp
qed

end
