(* ===== verification/Conn_Channel.thy ===== *)
theory Conn_Channel
  imports Broker
begin

text \<open>
  What a connection of the synchronous crate shares with the other threads
  (\<open>rust-lib-sync/src/conn.rs\<close>): the command channel to the broker, the channel on which the
  broker queues outbound frames, and the registry of live sockets; and the two functions every
  kind of session uses on them, \<open>register\<close> and \<open>forward_frames\<close>.

  The other ends of the channels are the environment.  The record \<open>broker_link\<close> is the sender of
  the command channel: the commands that were accepted, how many more will be before the broker
  is gone, what the broker will answer to a registration, and what it will queue for the
  connection.  The record \<open>writer_rx\<close> is the receiver of outbound frames: the frames with the
  times at which they are queued, and the time at which the broker drops its sender.
\<close>

definition HEARTBEAT_INTERVAL :: nat where "HEARTBEAT_INTERVAL = 5000"
definition HEARTBEAT_TIMEOUT :: nat where "HEARTBEAT_TIMEOUT = 15000"
definition CONNECT_TIMEOUT :: nat where "CONNECT_TIMEOUT = 1000"
definition ACCEPT_POLL :: nat where "ACCEPT_POLL = 50"
definition POLL_INTERVAL :: nat where "POLL_INTERVAL = 50"


section \<open>Channels\<close>

record writer_rx =
  queue :: "(nat \<times> bytes) list"
  hangup :: nat

datatype rx_result = RxFrame bytes | RxNothing | RxDisconnected

text \<open>\<open>Receiver::recv_timeout\<close> and \<open>Receiver::try_recv\<close>; \<open>RxNothing\<close> is \<open>Timeout\<close> of the former and
  \<open>Empty\<close> of the latter.\<close>

definition recv_timeout :: "nat \<Rightarrow> nat \<Rightarrow> writer_rx \<Rightarrow> rx_result \<times> writer_rx \<times> nat" where
  "recv_timeout now limit q =
     (case queue q of
        (t, frame) # rest \<Rightarrow>
          if t \<le> now + limit then (RxFrame frame, q\<lparr>queue := rest\<rparr>, max now t)
          else (RxNothing, q, now + limit)
      | [] \<Rightarrow>
          if hangup q \<le> now + limit then (RxDisconnected, q, max now (hangup q))
          else (RxNothing, q, now + limit))"

definition try_recv :: "nat \<Rightarrow> writer_rx \<Rightarrow> rx_result \<times> writer_rx" where
  "try_recv now q =
     (case queue q of
        (t, frame) # rest \<Rightarrow>
          if t \<le> now then (RxFrame frame, q\<lparr>queue := rest\<rparr>) else (RxNothing, q)
      | [] \<Rightarrow> if hangup q \<le> now then (RxDisconnected, q) else (RxNothing, q))"

record broker_link =
  sent :: "command list"
  room :: "nat option"       \<comment> \<open>sends that still succeed; \<^term>\<open>None\<close>: the broker stays\<close>
  answer :: "bool option"    \<comment> \<open>the reply to a registration; \<^term>\<open>None\<close>: the broker is gone\<close>
  feed_rx :: writer_rx       \<comment> \<open>what the broker queues for the connection\<close>
  fresh :: chan

text \<open>\<open>Sender::send\<close>: it succeeds as long as the receiver exists.\<close>

definition cmd_send :: "command \<Rightarrow> broker_link \<Rightarrow> bool \<times> broker_link" where
  "cmd_send c k =
     (case room k of
        None \<Rightarrow> (True, k\<lparr>sent := sent k @ [c]\<rparr>)
      | Some 0 \<Rightarrow> (False, k)
      | Some (Suc n) \<Rightarrow> (True, k\<lparr>sent := sent k @ [c], room := Some n\<rparr>))"

definition register :: "broker_link \<Rightarrow> identity \<Rightarrow> writer_rx option \<times> broker_link" where
  "register k peer =
     (let writer_tx = fresh k;
          accept_tx = Suc (fresh k);
          k1 = k\<lparr>fresh := fresh k + 2\<rparr>
      in case cmd_send (ConnectionUp peer writer_tx accept_tx) k1 of
           (False, k2) \<Rightarrow> (None, k2)
         | (True, k2) \<Rightarrow>
             (case answer k2 of Some True \<Rightarrow> (Some (feed_rx k2), k2) | _ \<Rightarrow> (None, k2)))"

text \<open>The match on a received frame: only data and acknowledgements are for the broker.\<close>

definition traffic :: "bytes \<Rightarrow> envelope option" where
  "traffic frame =
     (case decode frame of
        Some Heartbeat \<Rightarrow> None
      | Some (Hello _ _) \<Rightarrow> None
      | None \<Rightarrow> None
      | Some e \<Rightarrow> Some e)"

lemma pop_cases:
  "pop d = (case next_frame (buf d) of
      None \<Rightarrow> (None, d) | Some (f, rest) \<Rightarrow> (Some f, d\<lparr>buf := rest\<rparr>))"
  by (simp add: pop_def take_frame_spec)

function forward_frames :: "frame_decoder \<Rightarrow> broker_link \<Rightarrow> identity \<Rightarrow>
    bool \<times> frame_decoder \<times> broker_link" where
  "forward_frames d k peer =
     (case pop d of
        (None, d') \<Rightarrow> (True, d', k)
      | (Some frame, d') \<Rightarrow>
          (case traffic frame of
             None \<Rightarrow> forward_frames d' k peer
           | Some e \<Rightarrow>
               (case cmd_send (Received peer e) k of
                  (False, k') \<Rightarrow> (False, d', k')
                | (True, k') \<Rightarrow> forward_frames d' k' peer)))"
  by pat_completeness auto
termination
  by (relation "measure (\<lambda>(d, k, peer). length (buf d))")
    (auto simp: pop_cases dest: next_frame_length split: option.splits prod.splits)

declare forward_frames.simps [simp del]


section \<open>The registry of live sockets\<close>

record registry =
  reg_inner :: "(u64, chan) hmap"
  reg_next :: u64

definition registry_new :: registry where
  "registry_new = \<lparr>reg_inner = [], reg_next = 0\<rparr>"

definition reg_register :: "chan \<Rightarrow> registry \<Rightarrow> u64 \<times> registry" where
  "reg_register sock r =
     (reg_next r, r\<lparr>reg_inner := hm_insert (reg_next r) sock (reg_inner r), reg_next := reg_next r + 1\<rparr>)"

definition reg_deregister :: "u64 \<Rightarrow> registry \<Rightarrow> registry" where
  "reg_deregister i r = r\<lparr>reg_inner := hm_remove i (reg_inner r)\<rparr>"

text \<open>The sockets that \<open>shutdown_all\<close> shuts down.\<close>

definition reg_shutdown_all :: "registry \<Rightarrow> chan list" where
  "reg_shutdown_all r = map snd (reg_inner r)"


section \<open>What forwarding sends\<close>

definition received :: "identity \<Rightarrow> bytes list \<Rightarrow> command list" where
  "received peer frames = map (Received peer) (List.map_filter traffic frames)"

lemma received_simps [simp]:
  "received peer [] = []"
  "received peer (f # fs) =
     (case traffic f of None \<Rightarrow> received peer fs | Some e \<Rightarrow> Received peer e # received peer fs)"
  "received peer (fs @ gs) = received peer fs @ received peer gs"
  by (simp_all add: received_def List.map_filter_def split: option.split)

text \<open>The contract of the command channel: sends go through in order until the broker is gone.\<close>

definition offer :: "command list \<Rightarrow> broker_link \<Rightarrow> bool \<times> broker_link" where
  "offer cs k =
     (case room k of
        None \<Rightarrow> (True, k\<lparr>sent := sent k @ cs\<rparr>)
      | Some n \<Rightarrow> (length cs \<le> n,
          k\<lparr>sent := sent k @ take n cs, room := Some (n - length cs)\<rparr>))"

lemma offer_Nil [simp]: "offer [] k = (True, k)"
  by (simp add: offer_def split: option.split)

lemma offer_Cons:
  "offer (c # cs) k = (case cmd_send c k of (False, k') \<Rightarrow> (False, k') | (True, k') \<Rightarrow> offer cs k')"
  by (auto simp: offer_def cmd_send_def split: option.split nat.split)

lemma offer_append:
  "offer (cs @ ds) k = (case offer cs k of (False, k') \<Rightarrow> (False, k') | (True, k') \<Rightarrow> offer ds k')"
proof (induction cs arbitrary: k)
  case Nil
  then show ?case by simp
next
  case (Cons c cs)
  obtain b k' where "cmd_send c k = (b, k')" by fastforce
  with Cons show ?case by (cases b) (simp_all add: offer_Cons)
qed

lemma offer_alive [simp]: "room k = None \<Longrightarrow> offer cs k = (True, k\<lparr>sent := sent k @ cs\<rparr>)"
  by (simp add: offer_def)

lemma cmd_send_alive [simp]: "room k = None \<Longrightarrow> cmd_send c k = (True, k\<lparr>sent := sent k @ [c]\<rparr>)"
  by (simp add: cmd_send_def)

text \<open>Forwarding offers the traffic of the complete frames to the broker, in order.\<close>

lemma forward_frames_offer:
  assumes "forward_frames d k peer = (ok, d', k')"
  shows "(ok, k') = offer (received peer (fst (split_frames (buf d)))) k \<and>
    (ok \<longrightarrow> d' = d\<lparr>buf := snd (split_frames (buf d))\<rparr>)"
  using assms
proof (induction d k peer rule: forward_frames.induct)
  case (1 d k peer)
  show ?case
  proof (cases "next_frame (buf d)")
    case None
    with 1(3) show ?thesis
      by (subst (asm) forward_frames.simps) (auto simp: pop_cases split_frames_None)
  next
    case (Some q)
    then obtain f rest where nf: "next_frame (buf d) = Some (f, rest)" by (cases q) auto
    let ?d = "d\<lparr>buf := rest\<rparr>"
    have pop: "pop d = (Some f, ?d)" by (simp add: pop_cases nf)
    show ?thesis
    proof (cases "traffic f")
      case None
      with 1(3) pop have "forward_frames ?d k peer = (ok, d', k')"
        by (subst (asm) forward_frames.simps) simp
      with 1(1) [OF pop [symmetric] refl None] nf None show ?thesis
        by (auto simp: split_frames_Some)
    next
      case (Some e)
      obtain b k1 where k1: "cmd_send (Received peer e) k = (b, k1)" by fastforce
      show ?thesis
      proof (cases b)
        case False
        with 1(3) pop Some k1 have "(ok, k') = (False, k1)"
          by (subst (asm) forward_frames.simps) simp
        with nf Some k1 False show ?thesis by (simp add: split_frames_Some offer_Cons)
      next
        case True
        with 1(3) pop Some k1 have "forward_frames ?d k1 peer = (ok, d', k')"
          by (subst (asm) forward_frames.simps) simp
        moreover have "cmd_send (Received peer e) k = (True, k1)" using k1 True by simp
        ultimately show ?thesis
          using 1(2) [OF pop [symmetric] refl Some _ refl] nf Some
          by (auto simp: split_frames_Some offer_Cons)
      qed
    qed
  qed
qed

lemma forward_frames_alive:
  assumes "room k = None"
  shows "forward_frames d k peer = (True, d\<lparr>buf := snd (split_frames (buf d))\<rparr>,
    k\<lparr>sent := sent k @ received peer (fst (split_frames (buf d)))\<rparr>)"
proof -
  obtain ok d' k' where "forward_frames d k peer = (ok, d', k')"
    by (cases "forward_frames d k peer")
  with forward_frames_offer [OF this] assms show ?thesis by simp
qed

end
