(* ===== verification/Conn_Session.thy ===== *)
theory Conn_Session
  imports Conn_Channel
begin

text \<open>
  The plain TCP session of the synchronous crate (\<open>rust-lib-sync/src/conn.rs\<close>): the HELLO
  handshake (\<open>read_hello\<close>), the reader that runs inline in \<open>plain_session\<close>, and the writer thread
  (\<open>plain_writer\<close>).

  The two threads work on clones of one socket, of which the reader uses the inbound half and the
  writer the outbound half; in the model each has its own copy of the \<open>stream\<close> record after the
  handshake.  A session returns the commands it sent (in the \<open>broker_link\<close>), the reader's stream
  and, if the writer was started, the writer's stream.
\<close>

section \<open>The handshake\<close>

definition hello_peer :: "bytes \<Rightarrow> identity option" where
  "hello_peer frame =
     (case decode frame of
        Some (Hello v i) \<Rightarrow> if v = PROTOCOL_VERSION then Some i else None
      | _ \<Rightarrow> None)"

partial_function (option) read_hello_loop :: "'s reader \<Rightarrow> ('s \<Rightarrow> nat) \<Rightarrow> nat \<Rightarrow> 's \<Rightarrow>
    frame_decoder \<Rightarrow> (identity option \<times> frame_decoder \<times> 's) option" where
  "read_hello_loop rd now deadline s d =
     (case read1 rd d s of (r, d', s') \<Rightarrow>
        (case r of
           Inl e \<Rightarrow> Some (None, d', s')
         | Inr out \<Rightarrow>
             (case out of
                Frame frame \<Rightarrow> Some (hello_peer frame, d', s')
              | Pending \<Rightarrow>
                  if deadline \<le> now s' then Some (None, d', s')
                  else read_hello_loop rd now deadline s' d'
              | Closed \<Rightarrow> Some (None, d', s'))))"

definition read_hello :: "'s reader \<Rightarrow> ('s \<Rightarrow> nat) \<Rightarrow> 's \<Rightarrow> frame_decoder \<Rightarrow>
    (identity option \<times> frame_decoder \<times> 's) option" where
  "read_hello rd now s d = read_hello_loop rd now (now s + HEARTBEAT_TIMEOUT) s d"

lemma read1_chunk: "read1 rd d s = (r, d', s') \<Longrightarrow> chunk_len d' = chunk_len d"
  by (auto simp: read1_def take_frame_spec split: prod.splits option.splits sum.splits if_splits)

lemma read1_stream:
  "read1 rd d s = (r, d', s') \<Longrightarrow> s' = s \<or> (\<exists>q. rd s (chunk_len d) = (q, s'))"
  by (auto simp: read1_def take_frame_spec split: prod.splits option.splits sum.splits if_splits)

context byte_stream
begin

lemma read_hello_loop_returns:
  "0 < chunk_len d \<Longrightarrow> \<exists>r d' s'. read_hello_loop rd now deadline s d = Some (r, d', s')"
proof (induction "steps s" arbitrary: s d rule: less_induct)
  case less
  obtain r d1 s1 where r: "read1 rd d s = (r, d1, s1)" by (cases "read1 rd d s")
  show ?case
  proof (cases "r = Inr Pending")
    case True
    then have "steps s1 < steps s" using read1_Pending r less.prems by blast
    from less.hyps [OF this, of d1] read1_chunk [OF r] less.prems
    show ?thesis by (subst read_hello_loop.simps) (auto simp: r True)
  next
    case False
    then show ?thesis
      by (subst read_hello_loop.simps) (auto simp: r split: sum.split Read1.split)
  qed
qed

text \<open>What every read keeps, the handshake keeps.\<close>

lemma read_hello_loop_keeps:
  assumes "read_hello_loop rd now deadline s d = Some (r, d', s')" and "0 < chunk_len d"
    and "\<And>s n r s'. rd s n = (r, s') \<Longrightarrow> P s \<Longrightarrow> P s'" and "P s"
  shows "P s' \<and> chunk_len d' = chunk_len d"
  using assms(1,2,4)
proof (induction "steps s" arbitrary: s d rule: less_induct)
  case less
  obtain q d1 s1 where q: "read1 rd d s = (q, d1, s1)" by (cases "read1 rd d s")
  have one: "P s1" "chunk_len d1 = chunk_len d"
    using read1_stream [OF q] read1_chunk [OF q] assms(3) less.prems(3) by auto
  show ?case
  proof (cases "q = Inr Pending \<and> now s1 < deadline")
    case True
    then have lt: "steps s1 < steps s" using read1_Pending q less.prems by blast
    have "read_hello_loop rd now deadline s1 d1 = Some (r, d', s')"
      using less.prems True by (subst (asm) read_hello_loop.simps) (simp add: q)
    from less.hyps [OF lt this] one less.prems(2) show ?thesis by simp
  next
    case False
    with less.prems one show ?thesis
      by (subst (asm) read_hello_loop.simps)
        (auto simp: q split: sum.splits Read1.splits if_splits)
  qed
qed

text \<open>A peer is only known after a HELLO of our version, which is the first frame; the bytes behind
  it are partly in the decoder and partly still to be read.\<close>

lemma read_hello_loop_sound:
  assumes "read_hello_loop rd now deadline s d = Some (Some peer, d', s')" and "0 < chunk_len d"
  shows "\<exists>f. next_frame (buf d @ pend s) = Some (f, buf d' @ pend s') \<and> hello_peer f = Some peer"
  using assms
proof (induction "steps s" arbitrary: s d rule: less_induct)
  case less
  obtain q d1 s1 where q: "read1 rd d s = (q, d1, s1)" by (cases "read1 rd d s")
  show ?case
  proof (cases "q = Inr Pending")
    case True
    then have p: "buf d @ pend s = buf d1 @ pend s1" "steps s1 < steps s"
      using read1_Pending q less.prems by blast+
    have "read_hello_loop rd now deadline s1 d1 = Some (Some peer, d', s')"
      using less.prems True by (subst (asm) read_hello_loop.simps) (simp add: q split: if_splits)
    from less.hyps [OF p(2) this] p(1) read1_chunk [OF q] less.prems(2) show ?thesis by simp
  next
    case False
    with less.prems(1) obtain f where f: "q = Inr (Frame f)" "hello_peer f = Some peer"
      "d' = d1" "s' = s1"
      by (subst (asm) read_hello_loop.simps) (auto simp: q split: sum.splits Read1.splits)
    from read1_Frame [OF q [unfolded f(1)] less.prems(2)] f show ?thesis by auto
  qed
qed

end

context timed_stream
begin

lemma idle_read1:
  assumes "idle_only s" and "read1 rd d s = (r, d', s')"
  shows "idle_only s' \<and> horizon s' \<le> horizon s \<and> (\<exists>out. r = Inr out)"
proof -
  have "idle_only s' \<and> horizon s' \<le> horizon s"
    using read1_stream [OF assms(2)] assms(1) idle_rd horizon_rd by blast
  moreover have "\<nexists>e. r = Inl e"
    using assms idle_err
    by (fastforce simp: read1_def take_frame_spec split: prod.splits option.splits sum.splits if_splits)
  ultimately show ?thesis by (cases r) auto
qed

text \<open>With all bytes in time, the handshake returns the verdict on the first frame.\<close>

lemma read_hello_loop_frame:
  assumes "idle_only s" and "horizon s < deadline" and "0 < chunk_len d"
    and "next_frame (buf d @ pend s) = Some (f, rest)"
  shows "\<exists>d' s'. read_hello_loop rd now deadline s d = Some (hello_peer f, d', s') \<and>
    buf d' @ pend s' = rest \<and> idle_only s' \<and> chunk_len d' = chunk_len d \<and> horizon s' \<le> horizon s"
  using assms
proof (induction "steps s" arbitrary: s d rule: less_induct)
  case less
  obtain q d1 s1 where q: "read1 rd d s = (q, d1, s1)" by (cases "read1 rd d s")
  obtain out where out: "q = Inr out" and ok: "idle_only s1" "horizon s1 \<le> horizon s"
    using idle_read1 [OF less.prems(1) q] by blast
  have c: "chunk_len d1 = chunk_len d" using read1_chunk [OF q] .
  show ?case
  proof (cases out)
    case (Frame g)
    have "buf d @ pend s = wire_frame g @ buf d1 @ pend s1" "length g < 2 ^ 32"
      using read1_Frame [OF q [unfolded out Frame] less.prems(3)] by auto
    then have "g = f" "rest = buf d1 @ pend s1" using less.prems(4) by simp_all
    with Frame out q ok c show ?thesis by (subst read_hello_loop.simps) simp
  next
    case Pending
    have p: "buf d @ pend s = buf d1 @ pend s1" "steps s1 < steps s"
      using read1_Pending q [unfolded out Pending] less.prems(3) by blast+
    have "now s1 < deadline" using now_horizon [of s1] ok(2) less.prems(2) by linarith
    moreover have "\<exists>d' s'. read_hello_loop rd now deadline s1 d1 = Some (hello_peer f, d', s') \<and>
        buf d' @ pend s' = rest \<and> idle_only s' \<and> chunk_len d' = chunk_len d1 \<and> horizon s' \<le> horizon s1"
      using ok p c less.prems by (intro less.hyps) auto
    ultimately show ?thesis
      using q out Pending c ok(2) by (subst read_hello_loop.simps) fastforce
  next
    case Closed
    have "pend s = []" "next_frame (buf d) = None"
      using read1_Closed [OF q [unfolded out Closed] less.prems(3)] by auto
    with less.prems(4) show ?thesis by simp
  qed
qed

end


section \<open>The reader\<close>

partial_function (option) plain_reader :: "stream \<Rightarrow> broker_link \<Rightarrow> identity \<Rightarrow>
    (broker_link \<times> stream) option" where
  "plain_reader s k peer =
     (case read_frame stream_read s of
        None \<Rightarrow> None
      | Some (r, s') \<Rightarrow>
          (case r of
             Inr (Some frame) \<Rightarrow>
               (case traffic frame of
                  None \<Rightarrow> plain_reader s' k peer
                | Some e \<Rightarrow>
                    (case cmd_send (Received peer e) k of (ok, k') \<Rightarrow>
                       if ok then plain_reader s' k' peer else Some (k', s')))
           | Inr None \<Rightarrow> Some (k, s')
           | Inl e \<Rightarrow> Some (k, s')))"


section \<open>The writer thread\<close>

function plain_writer :: "stream \<Rightarrow> writer_rx \<Rightarrow> stream" where
  "plain_writer w q =
     (case recv_timeout (clock w) HEARTBEAT_INTERVAL q of (r, q', now) \<Rightarrow>
        let w1 = w\<lparr>clock := now\<rparr>
        in case r of
             RxFrame frame \<Rightarrow>
               (case write_frame stream_write_all w1 frame of
                  (Inl e, w2) \<Rightarrow> w2
                | (Inr _, w2) \<Rightarrow> plain_writer w2 q')
           | RxNothing \<Rightarrow>
               (case write_frame stream_write_all w1 heartbeat of
                  (Inl e, w2) \<Rightarrow> w2
                | (Inr _, w2) \<Rightarrow> plain_writer w2 q')
           | RxDisconnected \<Rightarrow> w1)"
  by pat_completeness auto
termination
proof (relation "measures [\<lambda>(w, q). length (queue q),
    \<lambda>(w, q). (case queue q of [] \<Rightarrow> hangup q | (t, f) # _ \<Rightarrow> t) - clock w]", goal_cases)
  case 1
  then show ?case by simp
next
  case 2
  then show ?case
    by (auto simp: recv_timeout_def split: list.splits if_splits)
next
  case 3
  then show ?case
    by (auto simp: recv_timeout_def write_frame_def HEARTBEAT_INTERVAL_def
        dest!: stream_write_all_frame [OF sym] split: list.splits if_splits)
qed

declare plain_writer.simps [simp del]


section \<open>The session\<close>

definition plain_session :: "bool \<Rightarrow> stream \<Rightarrow> broker_link \<Rightarrow> identity \<Rightarrow>
    (broker_link \<times> stream \<times> stream option) option" where
  "plain_session can_clone s k my_identity =
     (if \<not> can_clone then Some (k, s, None)
      else case write_frame stream_write_all s (hello my_identity) of
        (Inl e, s1) \<Rightarrow> Some (k, s1, None)
      | (Inr _, s1) \<Rightarrow>
          (case read_hello stream_read clock s1 decoder_new of
             None \<Rightarrow> None
           | Some (None, d, s2) \<Rightarrow> Some (k, s2, None)
           | Some (Some peer, d, s2) \<Rightarrow>
               (case register k peer of
                  (None, k1) \<Rightarrow> Some (k1, s2, None)
                | (Some writer_rx, k1) \<Rightarrow>
                    (let writer = plain_writer s2 writer_rx;
                         (_, _, k2) = forward_frames d k1 peer
                     in case plain_reader s2 k2 peer of
                          None \<Rightarrow> None
                        | Some (k3, s3) \<Rightarrow>
                            Some (snd (cmd_send (ConnectionDown peer) k3), s3, Some writer)))))"


section \<open>The reader forwards a prefix of the frames\<close>

lemma plain_reader_returns: "\<exists>k' s'. plain_reader s k peer = Some (k', s')"
proof (induction "stream_steps s" arbitrary: s k rule: less_induct)
  case less
  obtain r s1 where r: "read_frame stream_read s = Some (r, s1)"
    using tcp.read_frame_returns by blast
  show ?case
  proof (cases "\<exists>f. r = Inr (Some f)")
    case True
    with r have "stream_steps s1 < stream_steps s" using tcp.read_frame_Some by blast
    then have "\<exists>k' s'. plain_reader s1 k1 peer = Some (k', s')" for k1 by (rule less)
    then show ?thesis
      using True r by (subst plain_reader.simps) (auto split: option.split prod.split)
  next
    case False
    then show ?thesis
      by (subst plain_reader.simps) (auto simp: r split: sum.split option.split)
  qed
qed

lemma plain_reader_prefix:
  assumes "plain_reader s k peer = Some (k', s')"
  shows "\<exists>fs gs. fst (split_frames (stream_pend s)) = fs @ gs \<and>
    k' = snd (offer (received peer fs) k)"
  using assms
proof (induction "stream_steps s" arbitrary: s k rule: less_induct)
  case less
  obtain r s1 where r: "read_frame stream_read s = Some (r, s1)"
    using tcp.read_frame_returns by blast
  show ?case
  proof (cases "\<exists>f. r = Inr (Some f)")
    case True
    then obtain f where f: "r = Inr (Some f)" by blast
    with r have nf: "next_frame (stream_pend s) = Some (f, stream_pend s1)"
      and lt: "stream_steps s1 < stream_steps s" using tcp.read_frame_Some by blast+
    have IH: "\<exists>fs gs. fst (split_frames (stream_pend s1)) = fs @ gs \<and> k' = snd (offer (received peer fs) k1)"
      if "plain_reader s1 k1 peer = Some (k', s')" for k1
      using less.hyps [OF lt that] .
    show ?thesis
    proof (cases "traffic f")
      case None
      then have "plain_reader s1 k peer = Some (k', s')"
        using less.prems r f by (subst (asm) plain_reader.simps) simp
      from IH [OF this] obtain fs gs where
        "fst (split_frames (stream_pend s1)) = fs @ gs" "k' = snd (offer (received peer fs) k)" by blast
      with None nf show ?thesis
        by (intro exI [of _ "f # fs"] exI [of _ gs]) (simp add: split_frames_Some)
    next
      case (Some e)
      obtain ok k1 where k1: "cmd_send (Received peer e) k = (ok, k1)" by fastforce
      show ?thesis
      proof (cases ok)
        case True
        then have "plain_reader s1 k1 peer = Some (k', s')"
          using less.prems r f Some k1 by (subst (asm) plain_reader.simps) simp
        from IH [OF this] obtain fs gs where
          "fst (split_frames (stream_pend s1)) = fs @ gs" "k' = snd (offer (received peer fs) k1)" by blast
        with Some nf k1 True show ?thesis
          by (intro exI [of _ "f # fs"] exI [of _ gs]) (simp add: split_frames_Some offer_Cons)
      next
        case False
        then have "k' = k1"
          using less.prems r f Some k1 by (subst (asm) plain_reader.simps) simp
        with Some nf k1 False show ?thesis
          by (intro exI [of _ "[f]"] exI [of _ "fst (split_frames (stream_pend s1))"])
            (simp add: split_frames_Some offer_Cons)
      qed
    qed
  next
    case False
    then have "k' = k"
      using less.prems by (subst (asm) plain_reader.simps) (auto simp: r split: sum.splits option.splits)
    then show ?thesis
      by (intro exI [of _ "[]"] exI [of _ "fst (split_frames (stream_pend s))"]) simp
  qed
qed

text \<open>On a socket whose bytes arrive in time, it forwards them all.\<close>

lemma plain_reader_steady:
  assumes "stream_steady s" and "room k = None"
  shows "\<exists>s'. plain_reader s k peer =
    Some (k\<lparr>sent := sent k @ received peer (fst (split_frames (stream_pend s)))\<rparr>, s')"
  using assms
proof (induction "stream_steps s" arbitrary: s k rule: less_induct)
  case less
  show ?case
  proof (cases "next_frame (stream_pend s)")
    case None
    from tcp.read_frame_end [OF less.prems(1) None] show ?thesis
      by (subst plain_reader.simps) (auto simp: split_frames_None [OF None])
  next
    case (Some q)
    then obtain f rest where nf: "next_frame (stream_pend s) = Some (f, rest)" by (cases q) auto
    obtain s1 where s1: "read_frame stream_read s = Some (Inr (Some f), s1)"
        "stream_pend s1 = rest" "stream_steady s1"
      using tcp.read_frame_next [OF less.prems(1) nf] by blast
    have lt: "stream_steps s1 < stream_steps s" using tcp.read_frame_Some [OF s1(1)] by blast
    note IH = less.hyps [OF lt s1(3)]
    show ?thesis
    proof (cases "traffic f")
      case None
      from IH [OF less.prems(2)] None s1 nf show ?thesis
        by (subst plain_reader.simps) (simp add: split_frames_Some)
    next
      case (Some e)
      let ?k = "k\<lparr>sent := sent k @ [Received peer e]\<rparr>"
      from IH [of ?k] Some s1 nf less.prems(2) show ?thesis
        by (subst plain_reader.simps) (simp add: split_frames_Some)
    qed
  qed
qed


section \<open>The schedule of the writer\<close>

text \<open>
  A schedule lists the writes with their times, \<^term>\<open>None\<close> for a heartbeat.  It is paced when no
  write comes later than the heartbeat interval after the one before, and heartbeats come exactly
  then.
\<close>

fun paced :: "nat \<Rightarrow> (nat \<times> bytes option) list \<Rightarrow> nat \<Rightarrow> bool" where
  "paced t [] e \<longleftrightarrow> t \<le> e \<and> e \<le> t + HEARTBEAT_INTERVAL"
| "paced t ((u, f) # ws) e \<longleftrightarrow>
     t \<le> u \<and> u \<le> t + HEARTBEAT_INTERVAL \<and> (f = None \<longrightarrow> u = t + HEARTBEAT_INTERVAL) \<and> paced u ws e"

definition written :: "(nat \<times> bytes option) list \<Rightarrow> bytes" where
  "written ws = concat (map (\<lambda>(t, f). case f of None \<Rightarrow> heartbeat | Some frame \<Rightarrow> frame) ws)"

definition queued :: "(nat \<times> bytes option) list \<Rightarrow> (nat \<times> bytes) list" where
  "queued ws = List.map_filter (\<lambda>(t, f). map_option (Pair t) f) ws"

lemma written_simps [simp]:
  "written [] = []" "written ((t, None) # ws) = heartbeat @ written ws"
  "written ((t, Some f) # ws) = f @ written ws"
  by (simp_all add: written_def)

lemma queued_simps [simp]:
  "queued [] = []" "queued ((t, None) # ws) = queued ws"
  "queued ((t, Some f) # ws) = (t, f) # queued ws"
  by (simp_all add: queued_def List.map_filter_def)

lemma stream_write_all_clean [simp]:
  "wfaults s = [] \<Longrightarrow> stream_write_all s bs = (Inr (), s\<lparr>outbound := outbound s @ bs\<rparr>)"
  by (simp add: stream_write_all_def)

lemma plain_writer_schedule:
  assumes "wfaults w = []" and "sorted (clock w # map fst (queue q) @ [hangup q])"
  shows "\<exists>ws. outbound (plain_writer w q) = outbound w @ written ws \<and> queued ws = queue q \<and>
    paced (clock w) ws (hangup q)"
  using assms
proof (induction w q rule: plain_writer.induct)
  case (1 w q)
  show ?case
  proof (cases "recv_timeout (clock w) HEARTBEAT_INTERVAL q")
    case (fields r q' t)
    show ?thesis
    proof (cases r)
      case (RxFrame f)
      then have q: "queue q = (t, f) # queue q'" "hangup q' = hangup q"
          "clock w \<le> t" "t \<le> clock w + HEARTBEAT_INTERVAL"
        using fields 1(4) by (auto simp: recv_timeout_def max_def split: list.splits if_splits)
      let ?w = "w\<lparr>clock := t, outbound := outbound w @ f\<rparr>"
      have "\<exists>ws. outbound (plain_writer ?w q') = outbound ?w @ written ws \<and> queued ws = queue q' \<and>
          paced (clock ?w) ws (hangup q')"
        using q 1(3,4) by (intro 1(1) [OF fields [symmetric] refl refl RxFrame _ refl])
          (auto simp: write_frame_def)
      then obtain ws where ws: "outbound (plain_writer ?w q') = outbound ?w @ written ws"
          "queued ws = queue q'" "paced t ws (hangup q')" by auto
      have "plain_writer w q = plain_writer ?w q'"
        using fields RxFrame 1(3) by (subst plain_writer.simps) (simp add: write_frame_def)
      with ws q show ?thesis by (intro exI [of _ "(t, Some f) # ws"]) simp
    next
      case RxNothing
      then have q: "q' = q" "t = clock w + HEARTBEAT_INTERVAL" "t \<le> hangup q"
          "list_all (\<lambda>(u, f). t \<le> u) (queue q)"
        using fields 1(4)
        by (auto simp: recv_timeout_def list_all_iff split: list.splits if_splits)
      let ?w = "w\<lparr>clock := t, outbound := outbound w @ heartbeat\<rparr>"
      have "\<exists>ws. outbound (plain_writer ?w q') = outbound ?w @ written ws \<and> queued ws = queue q' \<and>
          paced (clock ?w) ws (hangup q')"
        using q 1(3,4) by (intro 1(2) [OF fields [symmetric] refl refl RxNothing _ refl])
          (auto simp: write_frame_def list_all_iff)
      then obtain ws where ws: "outbound (plain_writer ?w q') = outbound ?w @ written ws"
          "queued ws = queue q'" "paced t ws (hangup q')" by auto
      have "plain_writer w q = plain_writer ?w q'"
        using fields RxNothing 1(3) by (subst plain_writer.simps) (simp add: write_frame_def)
      with ws q show ?thesis by (intro exI [of _ "(t, None) # ws"]) simp
    next
      case RxDisconnected
      then have "queue q = []" "hangup q \<le> clock w + HEARTBEAT_INTERVAL"
        using fields by (auto simp: recv_timeout_def split: list.splits if_splits)
      moreover have "plain_writer w q = w\<lparr>clock := t\<rparr>"
        using fields RxDisconnected by (subst plain_writer.simps) simp
      ultimately show ?thesis using 1(4) by (intro exI [of _ "[]"]) simp
    qed
  qed
qed


section \<open>Handshakes and the pieces of the network\<close>

lemma next_frame_proper:
  assumes "wire_frame f = x @ y" and "y \<noteq> []" and "length f < 2 ^ 32"
  shows "next_frame x = None"
proof (rule ccontr)
  assume "next_frame x \<noteq> None"
  then obtain g r where "next_frame x = Some (g, r)" by (cases "next_frame x") auto
  from next_frame_append [OF this, of y] next_frame_wire [OF assms(3), of "[]"] assms(1,2)
  show False by simp
qed

lemma steady_idle: "stream_steady s \<Longrightarrow> stream_idle s"
  by (auto simp: stream_steady_def script_steady_def stream_idle_def script_idle_def is_idle_tick_def
      list_all_iff split: net_event.splits)

text \<open>A read never reaches over the end of one arrival.\<close>

lemma read_script_within:
  "read_script (pre @ post) n t = (r, es', t') \<Longrightarrow> arrivals pre \<noteq> [] \<Longrightarrow> 0 < n \<Longrightarrow>
   \<exists>pre'. es' = pre' @ post \<and> t' + script_delay pre' = t + script_delay pre \<and>
     (case r of Inl e \<Rightarrow> arrivals pre' = arrivals pre
      | Inr bs \<Rightarrow> bs \<noteq> [] \<and> arrivals pre = bs @ arrivals pre')"
proof (induction pre n t rule: read_script.induct)
  case (3 d bs es n t)
  consider "bs = []" | "bs \<noteq> []" "length bs \<le> n" | "bs \<noteq> []" "n < length bs" by fastforce
  then show ?case
  proof cases
    case 3
    with "3.prems" show ?thesis
      by (intro exI [of _ "(0, Arrive (drop n bs)) # es"]) (auto simp: script_delay_def)
  qed (use 3 in \<open>auto simp: script_delay_def cong: sum.case_cong\<close>)
qed (auto simp: script_delay_def)

text \<open>When the HELLO arrives on its own, the decoder is empty after the handshake.\<close>

lemma read_hello_aligned:
  assumes "stream_idle s" and "clock s + script_delay pre < deadline" and "0 < chunk_len d"
    and "inbound s = pre @ post" and "buf d @ arrivals pre = wire_frame f" and "length f < 2 ^ 32"
    and "arrivals pre \<noteq> []"
  shows "\<exists>d' s'. read_hello_loop stream_read clock deadline s d = Some (hello_peer f, d', s') \<and>
    buf d' = [] \<and> stream_pend s' = arrivals post \<and> clock s' \<le> clock s + script_delay pre"
  using assms(1-5,7)
proof (induction "stream_steps s" arbitrary: s d pre rule: less_induct)
  case less
  obtain r s1 where rd: "stream_read s (chunk_len d) = (r, s1)" by fastforce
  have none: "next_frame (buf d) = None"
    using next_frame_proper [OF less.prems(5) [symmetric] less.prems(6) assms(6)] .
  obtain pre' where pre': "inbound s1 = pre' @ post"
      "clock s1 + script_delay pre' = clock s + script_delay pre" "case r of Inl e \<Rightarrow> arrivals pre' = arrivals pre
      | Inr bs \<Rightarrow> bs \<noteq> [] \<and> arrivals pre = bs @ arrivals pre'"
    using rd less.prems(3,4,6)
    by (elim stream_read_cases) (auto dest!: read_script_within)
  have idle: "stream_idle s1" "clock s1 + script_delay pre' < deadline"
    using tcp.idle_rd [OF less.prems(1) rd] pre'(2) less.prems(2) by auto
  then have now: "clock s1 < deadline" by linarith
  have lt: "stream_steps s1 < stream_steps s"
    using tcp.rd_progress [OF rd less.prems(3)] pre'(3) by (cases r) auto
  show ?case
  proof (cases r)
    case (Inl e)
    have tick: "is_idle_tick e" using tcp.idle_err [OF less.prems(1)] rd Inl by simp
    from less.hyps [OF lt idle less.prems(3) pre'(1)] less.prems pre'(3) Inl
    obtain d' s' where "read_hello_loop stream_read clock deadline s1 d = Some (hello_peer f, d', s')"
      "buf d' = []" "stream_pend s' = arrivals post"
        "clock s' \<le> clock s1 + script_delay pre'" by auto
    then show ?thesis
      using rd Inl tick now pre'(2) by (subst read_hello_loop.simps) (simp add: read1_reads [OF none])
  next
    case (Inr bs)
    have bs: "bs \<noteq> []" "arrivals pre = bs @ arrivals pre'" using pre'(3) Inr by auto
    show ?thesis
    proof (cases "arrivals pre' = []")
      case True
      then have "next_frame (buf d @ bs) = Some (f, [])"
        using next_frame_wire [OF assms(6), of "[]"] less.prems(5) bs(2) by simp
      moreover have "stream_pend s1 = arrivals post"
        using pre'(1) True by (simp add: stream_pend_def arrivals_append)
      ultimately show ?thesis
        using rd Inr bs(1) pre'(2) by (subst read_hello_loop.simps) (simp add: read1_reads [OF none])
    next
      case False
      have "(buf d @ bs) @ arrivals pre' = wire_frame f" using less.prems(5) bs(2) by simp
      from next_frame_proper [OF this [symmetric] False assms(6)]
        less.hyps [OF lt idle, of "d\<lparr>buf := buf d @ bs\<rparr>"] pre'(1) this False less.prems(3)
      obtain d' s' where n: "next_frame (buf d @ bs) = None" and
        "read_hello_loop stream_read clock deadline s1 (d\<lparr>buf := buf d @ bs\<rparr>) =
           Some (hello_peer f, d', s')" "buf d' = []" "stream_pend s' = arrivals post"
        "clock s' \<le> clock s1 + script_delay pre'" by auto
      then show ?thesis
        using rd Inr bs(1) now pre'(2) by (subst read_hello_loop.simps) (simp add: read1_reads [OF none])
    qed
  qed
qed


lemma read_hello_stream:
  assumes "read_hello_loop stream_read clock deadline s d = Some (r, d', s')" and "0 < chunk_len d"
  shows "outbound s' = outbound s \<and> wfaults s' = wfaults s \<and> ffaults s' = ffaults s \<and>
    clock s \<le> clock s' \<and> stream_horizon s' = stream_horizon s \<and>
    (stream_steady s \<longrightarrow> stream_steady s')"
proof -
  let ?P = "\<lambda>t. outbound t = outbound s \<and> wfaults t = wfaults s \<and> ffaults t = ffaults s \<and>
    clock s \<le> clock t \<and> stream_horizon t = stream_horizon s \<and> (stream_steady s \<longrightarrow> stream_steady t)"
  have "?P u'" if "stream_read u n = (q, u')" "?P u" for u n q u'
    using that stream_read_frame [OF that(1)] stream_read_delay [OF that(1)]
      stream_read_clock [OF that(1)] tcp.steady_rd [OF _ that(1)]
    by (auto simp: stream_horizon_def)
  from tcp.read_hello_loop_keeps [where P = ?P, OF assms this] show ?thesis by simp
qed


section \<open>Sessions\<close>

lemma hello_peer_hello: "hello_peer (envelope_bytes (Hello PROTOCOL_VERSION i)) = Some i \<longleftrightarrow> is_id i"
  by (auto simp: hello_peer_def decode_def proto_consts is_id_def)

lemma register_accepted:
  "room k = None \<Longrightarrow> answer k = Some True \<Longrightarrow>
   register k peer = (Some (feed_rx k),
     k\<lparr>fresh := fresh k + 2, sent := sent k @ [ConnectionUp peer (fresh k) (Suc (fresh k))]\<rparr>)"
  by (simp add: register_def)

lemma register_refused:
  "room k = None \<Longrightarrow> answer k \<noteq> Some True \<Longrightarrow>
   register k peer = (None,
     k\<lparr>fresh := fresh k + 2, sent := sent k @ [ConnectionUp peer (fresh k) (Suc (fresh k))]\<rparr>)"
  by (auto simp: register_def Let_def split: option.split bool.split)

text \<open>A session after a successful handshake on a socket whose bytes arrive in time.\<close>

lemma plain_session_registered:
  assumes "wfaults s = []"
    and "read_hello stream_read clock (s\<lparr>outbound := outbound s @ hello me\<rparr>) decoder_new =
      Some (Some peer, d, s2)"
    and "room k = None" and "answer k = Some True" and "stream_steady s2"
  shows "\<exists>s3. plain_session True s k me = Some (k\<lparr>fresh := fresh k + 2,
      sent := sent k @ ConnectionUp peer (fresh k) (Suc (fresh k)) #
        received peer (fst (split_frames (buf d))) @
        received peer (fst (split_frames (stream_pend s2))) @ [ConnectionDown peer]\<rparr>,
      s3, Some (plain_writer s2 (feed_rx k)))"
proof -
  let ?k1 = "k\<lparr>fresh := fresh k + 2, sent := sent k @ [ConnectionUp peer (fresh k) (Suc (fresh k))]\<rparr>"
  let ?k2 = "?k1\<lparr>sent := sent ?k1 @ received peer (fst (split_frames (buf d)))\<rparr>"
  have "room ?k2 = None" using assms(3) by simp
  from plain_reader_steady [OF assms(5) this, of peer] obtain s3 where
    "plain_reader s2 ?k2 peer =
      Some (?k2\<lparr>sent := sent ?k2 @ received peer (fst (split_frames (stream_pend s2)))\<rparr>, s3)" by blast
  moreover have "forward_frames d ?k1 peer = (True, d\<lparr>buf := snd (split_frames (buf d))\<rparr>, ?k2)"
    using assms(3) by (subst forward_frames_alive) simp_all
  ultimately show ?thesis
    using assms(1,2) register_accepted [OF assms(3,4), of peer] assms(3)
    by (simp add: plain_session_def write_frame_def)
qed

definition is_traffic :: "envelope \<Rightarrow> bool" where
  "is_traffic e \<longleftrightarrow> (case e of Heartbeat \<Rightarrow> False | Hello _ _ \<Rightarrow> False | _ \<Rightarrow> True)"

lemma received_envelopes:
  "list_all sendable es \<Longrightarrow>
   received peer (map envelope_bytes es) = map (Received peer) (filter is_traffic es)"
  by (induction es)
    (auto simp: traffic_def decode_envelope_bytes sendable_wf is_traffic_def split: envelope.split)

lemma hello_length: "is_id i \<Longrightarrow> length (hello i) = 22"
  by (simp add: hello_def put_len_prefix_def is_id_def)

lemma hello_fits: "is_id i \<Longrightarrow> length (envelope_bytes (Hello PROTOCOL_VERSION i)) < 2 ^ 32"
  by (simp add: is_id_def)

text \<open>The whole session, when the HELLO arrives on its own and everything in time.\<close>

lemma plain_session_exact:
  assumes "is_id me" and "is_id peer" and "stream_steady s" and "wfaults s = []"
    and "inbound s = pre @ post" and "script_delay pre < HEARTBEAT_TIMEOUT"
    and "arrivals pre = hello peer" and "arrivals post = concat (map encode es) @ rest"
    and "list_all sendable es" and "next_frame rest = None"
    and "room k = None" and "answer k = Some True"
    and "sorted ((clock s + script_delay pre) # map fst (queue (feed_rx k)) @ [hangup (feed_rx k)])"
  shows "\<exists>k' s' w ws. plain_session True s k me = Some (k', s', Some w) \<and>
    sent k' = sent k @ ConnectionUp peer (fresh k) (Suc (fresh k)) #
      map (Received peer) (filter is_traffic es) @ [ConnectionDown peer] \<and>
    outbound w = outbound s @ hello me @ written ws \<and> queued ws = queue (feed_rx k) \<and>
    (\<exists>t. clock s \<le> t \<and> t < clock s + HEARTBEAT_TIMEOUT \<and> paced t ws (hangup (feed_rx k)))"
proof -
  let ?f = "envelope_bytes (Hello PROTOCOL_VERSION peer)"
  let ?s1 = "s\<lparr>outbound := outbound s @ hello me\<rparr>"
  let ?deadline = "clock ?s1 + HEARTBEAT_TIMEOUT"
  have time: "clock ?s1 + script_delay pre < ?deadline" using assms(6) by simp
  have idle: "stream_idle ?s1" using steady_idle [OF assms(3)] by (simp add: stream_idle_def)
  have chunk: "0 < chunk_len decoder_new" by (simp add: decoder_new_def)
  have pre: "buf decoder_new @ arrivals pre = wire_frame ?f" "arrivals pre \<noteq> []"
    using assms(2,7) hello_length [OF assms(2)] by (auto simp: decoder_new_def hello_wire)
  obtain d s2 where hs: "read_hello_loop stream_read clock ?deadline ?s1 decoder_new =
      Some (hello_peer ?f, d, s2)" and d: "buf d = []" "stream_pend s2 = arrivals post"
      "clock s2 \<le> clock s + script_delay pre"
    using read_hello_aligned [OF idle time chunk _ pre(1) hello_fits pre(2)] assms(2,5) by auto
  have s2: "outbound s2 = outbound s @ hello me" "wfaults s2 = []" "clock s \<le> clock s2"
      "stream_steady s2"
    using read_hello_stream [OF hs chunk] assms(3,4) by (auto simp: stream_steady_def)
  have hello: "hello_peer ?f = Some peer" using hello_peer_hello assms(2) by simp
  from plain_session_registered [OF assms(4) _ assms(11,12) s2(4), of me peer d] hs hello d
  obtain s3 where run: "plain_session True s k me = Some (k\<lparr>fresh := fresh k + 2,
      sent := sent k @ ConnectionUp peer (fresh k) (Suc (fresh k)) #
        received peer (fst (split_frames (arrivals post))) @ [ConnectionDown peer]\<rparr>,
      s3, Some (plain_writer s2 (feed_rx k)))"
    by (auto simp: read_hello_def split_frames_None next_frame_def)
  have "sorted (clock s2 # map fst (queue (feed_rx k)) @ [hangup (feed_rx k)])"
    using assms(13) d(3) by auto
  from plain_writer_schedule [OF s2(2) this]
  obtain ws where ws: "outbound (plain_writer s2 (feed_rx k)) = outbound s2 @ written ws"
      "queued ws = queue (feed_rx k)" "paced (clock s2) ws (hangup (feed_rx k))" by blast
  have "received peer (fst (split_frames (arrivals post))) =
      map (Received peer) (filter is_traffic es)"
    using split_encoded [OF assms(9,10)] assms(8) received_envelopes [OF assms(9)] by simp
  with run ws s2 d(3) assms(6) show ?thesis by (auto intro!: exI [of _ ws] exI [of _ "clock s2"])
qed



text \<open>The frames of a byte string are shorter than it.\<close>

lemma split_frames_length: "f \<in> set (fst (split_frames bs)) \<Longrightarrow> length f + 4 \<le> length bs"
proof (induction bs rule: split_frames.induct)
  case (1 bs)
  show ?case
  proof (cases "next_frame bs")
    case None
    with 1(2) show ?thesis by (simp add: split_frames_None)
  next
    case (Some q)
    then obtain g rest where nf: "next_frame bs = Some (g, rest)" by (cases q) auto
    have "length bs = 4 + length g + length rest"
      using next_frame_Some(1) [OF nf] by (simp add: wire_frame_def)
    with 1(1) [OF nf refl] 1(2) split_frames_Some [OF nf] show ?thesis by auto
  qed
qed

lemma received_from_frame:
  assumes "Received peer e \<in> set (received peer fs)"
  obtains f extra where "f \<in> set fs" and "f = envelope_bytes e @ extra"
proof -
  from assms obtain f where "f \<in> set fs" "traffic f = Some e"
    by (induction fs) (auto split: option.splits)
  moreover from this(2) have "decode f = Some e"
    by (auto simp: traffic_def split: option.splits envelope.splits)
  ultimately show ?thesis using decode_Some that by blast
qed

text \<open>C16. A message can be lost at the end of the handshake.  When the HELLO of the peer and a message
  of \<open>16358\<close> bytes or more arrive together, the read that completes the HELLO fills the decoder's
  buffer of 16 KiB with the first \<open>16362\<close> bytes of the message's frame.  The session then goes on
  with \<open>read_frame\<close> on the socket and drops the decoder with these bytes in it: it registers the
  peer, takes the middle of the message for the start of a frame and hands whatever it finds
  there to the broker, but never the message.\<close>

theorem plain_session_loses_pipelined:
  assumes "is_id me" and "is_id peer" and "wfaults s = []" and "room k = None"
    and "answer k = Some True" and "inbound s = [(t, Arrive (hello peer @ data p))]"
    and "16358 \<le> length p" and "1 + length p < 2 ^ 32"
  shows "\<exists>k' s' w. plain_session True s k me = Some (k', s', Some w) \<and>
    sent k' = sent k @ ConnectionUp peer (fresh k) (Suc (fresh k)) #
      received peer (fst (split_frames (drop 16362 (data p)))) @ [ConnectionDown peer] \<and>
    Received peer (Data p) \<notin> set (received peer (fst (split_frames (drop 16362 (data p)))))"
proof -
  let ?f = "envelope_bytes (Hello PROTOCOL_VERSION peer)"
  let ?s1 = "s\<lparr>outbound := outbound s @ hello me\<rparr>"
  let ?s2 = "?s1\<lparr>inbound := [(0, Arrive (drop 16362 (data p)))], clock := clock s + t\<rparr>"
  let ?d = "decoder_new\<lparr>buf := take 16362 (data p)\<rparr>"
  have len: "length (hello peer) = 22" "length (data p) = 5 + length p"
    using hello_length [OF assms(2)] by (simp_all add: data_wire wire_frame_def)
  have "stream_read ?s1 16384 = (Inr (hello peer @ take 16362 (data p)), ?s2)"
    using assms(6,7) len by (auto simp: stream_read_def)
  moreover have "next_frame (hello peer @ x) = Some (?f, x)" for x
    using assms(2) next_frame_wire [OF hello_fits] by (simp add: hello_wire)
  moreover have "hello peer \<noteq> []" using len by auto
  ultimately have "read1 stream_read decoder_new ?s1 = (Inr (Frame ?f), ?d, ?s2)"
    by (simp add: decoder_new_def read1_reads next_frame_def [of "[]"])
  then have hs: "read_hello stream_read clock ?s1 decoder_new = Some (Some peer, ?d, ?s2)"
    using hello_peer_hello [of peer] assms(2)
    by (simp add: read_hello_def read_hello_loop.simps)
  have "next_frame (take 16362 (data p)) = None"
  proof (rule next_frame_proper)
    show "wire_frame (envelope_bytes (Data p)) = take 16362 (data p) @ drop 16362 (data p)"
      by (simp add: data_wire)
  qed (use assms(7,8) len in auto)
  then have "fst (split_frames (buf ?d)) = []" by (simp add: split_frames_None)
  moreover have "stream_steady ?s2" "stream_pend ?s2 = drop 16362 (data p)"
    by (simp_all add: stream_steady_def script_steady_def stream_pend_def)
  ultimately have "\<exists>k' s' w. plain_session True s k me = Some (k', s', Some w) \<and>
    sent k' = sent k @ ConnectionUp peer (fresh k) (Suc (fresh k)) #
      received peer (fst (split_frames (drop 16362 (data p)))) @ [ConnectionDown peer]"
    using plain_session_registered [OF assms(3) hs assms(4,5)] by fastforce
  moreover have "Received peer (Data p) \<notin> set (received peer (fst (split_frames (drop 16362 (data p)))))"
  proof
    assume "Received peer (Data p) \<in> set (received peer (fst (split_frames (drop 16362 (data p)))))"
    then obtain f extra where "f \<in> set (fst (split_frames (drop 16362 (data p))))"
      "f = envelope_bytes (Data p) @ extra" by (rule received_from_frame)
    with split_frames_length [of f] len show False by fastforce
  qed
  ultimately show ?thesis by blast
qed

theorem plain_session_loses_pipelined_witness:
  "\<exists>k' s' w. plain_session True
      \<lparr>inbound = [(3, Arrive (hello (replicate 16 7) @ data (replicate 20000 1)))],
       outbound = [], wfaults = [], ffaults = [], clock = 0\<rparr>
      \<lparr>sent = [], room = None, answer = Some True, feed_rx = \<lparr>queue = [], hangup = 30000\<rparr>, fresh = 0\<rparr>
      (replicate 16 5) = Some (k', s', Some w) \<and>
    sent k' = [ConnectionUp (replicate 16 7) 0 (Suc 0), ConnectionDown (replicate 16 7)]"
proof -
  let ?p = "replicate 20000 1 :: bytes"
  let ?s = "\<lparr>inbound = [(3, Arrive (hello (replicate 16 7) @ data ?p))],
    outbound = [], wfaults = [], ffaults = [], clock = 0\<rparr>"
  have "data p = (u32_to_be_bytes (word_of_nat (Suc (length p))) @ [T_DATA]) @ p" for p
    by (simp add: data_def put_len_prefix_def)
  then have d: "drop 16362 (data ?p) = replicate 3643 1"
    by (simp only: drop_append) (simp add: drop_replicate)
  have "replicate 4 (1 :: u8) = [1, 1, 1, 1]" by (simp add: numeral_eq_Suc)
  then have "be_val (replicate 4 1) = 16843009" by (simp add: be_val_def)
  then have "next_frame (replicate 3643 1) = None" by (simp add: next_frame_def take_replicate)
  then have "split_frames (drop 16362 (data ?p)) = ([], replicate 3643 1)"
    by (simp add: d split_frames_None)
  then show ?thesis
    using plain_session_loses_pipelined [of "replicate 16 5" "replicate 16 7" ?s
        "\<lparr>sent = [], room = None, answer = Some True, feed_rx = \<lparr>queue = [], hangup = 30000\<rparr>,
          fresh = 0\<rparr>" 3 ?p]
    by (simp add: is_id_def)
qed


lemma read_hello_returns: "\<exists>r d s'. read_hello stream_read clock s decoder_new = Some (r, d, s')"
  unfolding read_hello_def by (rule tcp.read_hello_loop_returns) (simp add: decoder_new_def)

lemma hello_peer_id: "hello_peer f = Some peer \<Longrightarrow> is_id peer"
  by (auto simp: hello_peer_def decode_def is_id_def proto_consts split: option.splits list.splits if_splits)

text \<open>A plain TCP session always ends, whatever the peer sends and whatever reads, writes and the
  broker's answer do; and the broker sees of it either nothing, or a registration that it refuses,
  or a registration, envelopes of the same peer, and the notice that this peer is gone, in this
  order.  A peer is only registered under the identity of the HELLO of protocol version 1 that is
  the first frame it sent.\<close>

theorem plain_session_brackets:
  assumes "room k = None"
  shows "\<exists>k' s' w. plain_session can_clone s k me = Some (k', s', w) \<and>
    (sent k' = sent k \<and> w = None \<or>
     (\<exists>peer f rest. next_frame (stream_pend s) = Some (f, rest) \<and> hello_peer f = Some peer \<and>
       is_id peer \<and>
       (answer k \<noteq> Some True \<and> w = None \<and>
          sent k' = sent k @ [ConnectionUp peer (fresh k) (Suc (fresh k))] \<or>
        answer k = Some True \<and> w \<noteq> None \<and>
          (\<exists>es. sent k' = sent k @ ConnectionUp peer (fresh k) (Suc (fresh k)) #
             map (Received peer) es @ [ConnectionDown peer]))))"
proof -
  obtain r s1 where w: "write_frame stream_write_all s (hello me) = (r, s1)" by fastforce
  then have pend: "stream_pend s1 = stream_pend s"
    using stream_write_all_frame [of s "hello me"] by (auto simp: write_frame_def stream_pend_def)
  obtain h d s2 where h: "read_hello stream_read clock s1 decoder_new = Some (h, d, s2)"
    using read_hello_returns by blast
  show ?thesis
  proof (cases "can_clone \<and> r = Inr () \<and> h \<noteq> None")
    case False
    with w h show ?thesis
      by (cases r; cases h) (auto simp: plain_session_def)
  next
    case True
    then obtain peer where peer: "h = Some peer" by blast
    have chunk: "0 < chunk_len decoder_new" by (simp add: decoder_new_def)
    obtain f where f: "next_frame (stream_pend s) = Some (f, buf d @ stream_pend s2)"
        "hello_peer f = Some peer"
      using tcp.read_hello_loop_sound [OF h [unfolded read_hello_def peer] chunk] pend
      by (auto simp: decoder_new_def)
    let ?k1 = "k\<lparr>fresh := fresh k + 2, sent := sent k @ [ConnectionUp peer (fresh k) (Suc (fresh k))]\<rparr>"
    show ?thesis
    proof (cases "answer k = Some True")
      case ans: False
      then have "register k peer = (None, ?k1)"
        using assms by (rule register_refused [rotated])
      with True w h peer f ans hello_peer_id [OF f(2)] show ?thesis
        by (auto simp: plain_session_def)
    next
      case ans: True
      let ?k2 = "?k1\<lparr>sent := sent ?k1 @ received peer (fst (split_frames (buf d)))\<rparr>"
      have fw: "forward_frames d ?k1 peer = (True, d\<lparr>buf := snd (split_frames (buf d))\<rparr>, ?k2)"
        using assms by (subst forward_frames_alive) simp_all
      obtain k3 s3 where rd: "plain_reader s2 ?k2 peer = Some (k3, s3)"
        using plain_reader_returns by blast
      obtain fs where fs: "k3 = ?k2\<lparr>sent := sent ?k2 @ received peer fs\<rparr>"
        using plain_reader_prefix [OF rd] assms by auto
      have run: "plain_session can_clone s k me =
          Some (snd (cmd_send (ConnectionDown peer) k3), s3, Some (plain_writer s2 (feed_rx k)))"
        using True w h peer register_accepted [OF assms ans, of peer] fw rd
        by (simp add: plain_session_def)
      have "sent (snd (cmd_send (ConnectionDown peer) k3)) =
          sent k @ ConnectionUp peer (fresh k) (Suc (fresh k)) # map (Received peer)
            (List.map_filter traffic (fst (split_frames (buf d)) @ fs)) @ [ConnectionDown peer]"
        using assms by (simp add: fs received_def List.map_filter_def)
      with run f ans hello_peer_id [OF f(2)] show ?thesis by blast
    qed
  qed
qed

theorem plain_session_brackets_witness:
  "\<exists>k' s' w. plain_session True
      \<lparr>inbound = [(3, Arrive (hello (replicate 16 7))), (15000, Stall TimedOut)],
       outbound = [], wfaults = [None, Some (2, OtherKind)], ffaults = [], clock = 0\<rparr>
      \<lparr>sent = [], room = None, answer = Some False, feed_rx = \<lparr>queue = [], hangup = 0\<rparr>, fresh = 0\<rparr>
      (replicate 16 5) = Some (k', s', w) \<and>
    (sent k' = [] \<or> (\<exists>peer. sent k' = [ConnectionUp peer 0 (Suc 0)]))"
  using plain_session_brackets [of "\<lparr>sent = [], room = None, answer = Some False,
      feed_rx = \<lparr>queue = [], hangup = 0\<rparr>, fresh = 0\<rparr>" True "\<lparr>inbound = [(3, Arrive (hello (replicate 16 7))),
      (15000, Stall TimedOut)], outbound = [], wfaults = [None, Some (2, OtherKind)], ffaults = [],
      clock = 0\<rparr>" "replicate 16 5"]
  by auto

end
