(* ===== verification/Ws_Frame.thy ===== *)
theory Ws_Frame
  imports Aiomsg_Prelude
begin

unbundle bit_operations_syntax

text \<open>
  The frame layer of \<open>rust-lib-sync/src/ws.rs\<close>: \<open>server_frame\<close> encodes an unmasked frame and
  \<open>parse_client_frame\<close> parses one masked client frame from the front of a buffer.

  The specification side is the frame format of RFC 6455: \<open>client_frame\<close> is a masked frame with
  the shortest length field, \<open>server_unframe\<close> is a client's parser.  The lemmas show that parsing
  inverts framing, that a frame still incomplete is never decided early, that a decision never
  changes when more bytes arrive, and how many bytes a frame consumes.
\<close>

definition OP_CONT :: u8 where "OP_CONT = 0x0"
definition OP_TEXT :: u8 where "OP_TEXT = 0x1"
definition OP_BIN :: u8 where "OP_BIN = 0x2"
definition OP_CLOSE :: u8 where "OP_CLOSE = 0x8"
definition OP_PING :: u8 where "OP_PING = 0x9"
definition OP_PONG :: u8 where "OP_PONG = 0xA"

lemmas op_defs = OP_CONT_def OP_TEXT_def OP_BIN_def OP_CLOSE_def OP_PING_def OP_PONG_def

definition server_frame :: "u8 \<Rightarrow> bytes \<Rightarrow> bytes" where
  "server_frame opcode p =
     (let n = length p
      in [0x80 OR opcode] @
         (if n < 126 then [word_of_nat n]
          else if n < 65536 then [126] @ u16_to_be_bytes (word_of_nat n)
          else [127] @ u64_to_be_bytes (word_of_nat n)) @ p)"

datatype parsed =
    PData bytes
  | PPing bytes
  | PPong
  | PClose u16
  | NeedMore
  | PProtocol u16

text \<open>
  The length field: the payload length and the offset of the mask, or an early return.  The
  64-bit length has its top bit clear, so the sums of offsets and lengths stay below \<open>2 ^ 64\<close>.
\<close>

definition frame_len :: "bytes \<Rightarrow> u8 \<Rightarrow> parsed + (nat \<times> nat)" where
  "frame_len buf b1 =
     (let len = unat (b1 AND 0x7F)
      in if len = 126 then
           (if length buf < 4 then Inl NeedMore
            else Inr (unat (u16_from_be_bytes [buf ! 2, buf ! 3]), 4))
         else if len = 127 then
           (if length buf < 10 then Inl NeedMore
            else if buf ! 2 AND 0x80 \<noteq> 0 then Inl (PProtocol 1002)
            else Inr (unat (u64_from_be_bytes
                   [buf ! 2, buf ! 3, buf ! 4, buf ! 5, buf ! 6, buf ! 7, buf ! 8, buf ! 9]), 10))
         else Inr (len, 2))"

definition unmask :: "bytes \<Rightarrow> bytes \<Rightarrow> bytes" where
  "unmask key masked = map (\<lambda>i. masked ! i XOR key ! (i mod 4)) [0..<length masked]"

definition classify :: "u8 \<Rightarrow> bytes \<Rightarrow> parsed" where
  "classify opcode p =
     (if opcode = OP_BIN \<or> opcode = OP_CONT then PData p
      else if opcode = OP_PING then PPing p
      else if opcode = OP_PONG then PPong
      else if opcode = OP_TEXT then PProtocol 1003
      else if opcode = OP_CLOSE then
        PClose (if 2 \<le> length p then u16_from_be_bytes [p ! 0, p ! 1] else 1000)
      else PProtocol 1002)"

definition parse_client_frame :: "bytes \<Rightarrow> parsed \<times> nat" where
  "parse_client_frame buf =
     (if length buf < 2 then (NeedMore, 0)
      else
        let b0 = buf ! 0; b1 = buf ! 1
        in if b0 AND 0x70 \<noteq> 0 then (PProtocol 1002, 0)
           else
             let opcode = b0 AND 0x0F; fin = (b0 AND 0x80 \<noteq> 0)
             in if b1 AND 0x80 = 0 then (PProtocol 1002, 0)
                else case frame_len buf b1 of
                       Inl p \<Rightarrow> (p, 0)
                     | Inr (len, offset) \<Rightarrow>
                         if 0x8 \<le> opcode \<and> (\<not> fin \<or> 125 < len) then (PProtocol 1002, 0)
                         else if length buf < offset + 4 + len then (NeedMore, 0)
                         else
                           let key = [buf ! offset, buf ! (offset + 1), buf ! (offset + 2), buf ! (offset + 3)];
                               masked = take len (drop (offset + 4) buf);
                               payload = unmask key masked;
                               consumed = offset + 4 + len
                           in (classify opcode payload, consumed))"


section \<open>Consumption and stability\<close>

lemma frame_len_offset: "frame_len buf b1 = Inr (len, offset) \<Longrightarrow> 2 \<le> offset \<and> offset \<le> 10"
  by (auto simp: frame_len_def Let_def split: if_splits)

lemma frame_len_append:
  "frame_len buf b1 \<noteq> Inl NeedMore \<Longrightarrow> frame_len (buf @ x) b1 = frame_len buf b1"
  by (auto simp: frame_len_def Let_def nth_append split: if_splits)

lemma length_unmask [simp]: "length (unmask key masked) = length masked"
  by (simp add: unmask_def)

lemma classify_not_NeedMore [simp]: "classify opcode p \<noteq> NeedMore" "NeedMore \<noteq> classify opcode p"
  by (simp_all add: classify_def)

lemma classify_PData: "PData q = classify opcode p \<Longrightarrow> q = p"
  by (auto simp: classify_def split: if_splits)

text \<open>A parse that decides nothing or stops the connection early consumes nothing.\<close>

lemma parse_cases:
  assumes "parse_client_frame buf = (r, n)"
  obtains (undecided) "r = NeedMore" "n = 0"
    | (violation) c where "r = PProtocol c" "n = 0"
    | (frame) len offset p where "r = classify (buf ! 0 AND 0x0F) p" "length p = len"
        "n = offset + 4 + len" "2 \<le> offset" "n \<le> length buf"
proof -
  consider "length buf < 2" | "2 \<le> length buf" "frame_len buf (buf ! 1) = Inl NeedMore"
    | c where "2 \<le> length buf" "frame_len buf (buf ! 1) = Inl c" "c \<noteq> NeedMore"
    | len offset where "2 \<le> length buf" "frame_len buf (buf ! 1) = Inr (len, offset)"
    by (cases "frame_len buf (buf ! 1)") fastforce+
  then show ?thesis
  proof cases
    case 3
    then have "c = PProtocol 1002" by (auto simp: frame_len_def Let_def split: if_splits)
    with 3 assms violation show ?thesis
      by (auto simp: parse_client_frame_def Let_def split: if_splits)
  next
    case 4
    with assms frame_len_offset [OF 4(2)] show ?thesis
      by (auto simp: parse_client_frame_def Let_def not_less split: if_splits
          intro: undecided violation frame)
  qed (use assms in \<open>auto simp: parse_client_frame_def Let_def split: if_splits
         intro: undecided violation\<close>)
qed

lemma parse_consumed:
  assumes "parse_client_frame buf = (r, n)"
  shows "n \<le> length buf" and "r = NeedMore \<Longrightarrow> n = 0"
    and "r = PData p \<Longrightarrow> length p + 6 \<le> n"
    and "r = PPing p \<or> r = PPong \<or> r = PClose c \<Longrightarrow> 6 \<le> n"
  using assms by (auto elim!: parse_cases dest: classify_PData)

lemma parse_shrinks:
  "(PData p, n) = parse_client_frame buf \<Longrightarrow> length buf - n < length buf"
  "(PPing p, n) = parse_client_frame buf \<Longrightarrow> length buf - n < length buf"
  "(PPong, n) = parse_client_frame buf \<Longrightarrow> length buf - n < length buf"
  by (drule sym, frule parse_consumed(1), drule parse_consumed(3,4), simp, simp)+

text \<open>Further bytes never change a decision.\<close>

lemma parse_append:
  assumes "parse_client_frame buf = (r, n)" and "r \<noteq> NeedMore"
  shows "parse_client_frame (buf @ x) = (r, n)"
proof -
  have len: "2 \<le> length buf"
    using assms by (auto simp: parse_client_frame_def split: if_splits)
  then have nth: "(buf @ x) ! 0 = buf ! 0" "(buf @ x) ! 1 = buf ! 1"
    by (auto simp: nth_append)
  have fl: "\<not> (buf ! 0 AND 0x70 \<noteq> 0 \<or> buf ! 1 AND 0x80 = 0) \<Longrightarrow>
      frame_len (buf @ x) (buf ! 1) = frame_len buf (buf ! 1)"
    using assms len by (intro frame_len_append) (auto simp: parse_client_frame_def Let_def)
  have off: "frame_len buf (buf ! 1) = Inr (l, off) \<Longrightarrow> off + 4 + l \<le> length buf \<Longrightarrow>
      [(buf @ x) ! off, (buf @ x) ! (off + 1), (buf @ x) ! (off + 2), (buf @ x) ! (off + 3)] =
      [buf ! off, buf ! (off + 1), buf ! (off + 2), buf ! (off + 3)] \<and>
      take l (drop (off + 4) (buf @ x)) = take l (drop (off + 4) buf)" for l off
    by (simp add: nth_append)
  show ?thesis
  proof (cases "buf ! 0 AND 0x70 \<noteq> 0 \<or> buf ! 1 AND 0x80 = 0")
    case True
    with assms len nth show ?thesis
      by (auto simp: parse_client_frame_def Let_def)
  next
    case False
    with assms len nth fl off show ?thesis
      by (cases "frame_len buf (buf ! 1)")
        (auto simp: parse_client_frame_def Let_def not_less split: if_splits)
  qed
qed


section \<open>The frame format of RFC 6455\<close>

definition client_len :: "nat \<Rightarrow> bytes" where
  "client_len n =
     (if n < 126 then [0x80 OR word_of_nat n]
      else if n < 65536 then [0xFE] @ u16_to_be_bytes (word_of_nat n)
      else [0xFF] @ u64_to_be_bytes (word_of_nat n))"

definition client_frame :: "bool \<Rightarrow> u8 \<Rightarrow> bytes \<Rightarrow> bytes \<Rightarrow> bytes" where
  "client_frame fin opcode key p =
     [(if fin then 0x80 else 0) OR opcode] @ client_len (length p) @ key @ unmask key p"

definition valid_frame :: "bool \<Rightarrow> u8 \<Rightarrow> bytes \<Rightarrow> bytes \<Rightarrow> bool" where
  "valid_frame fin opcode key p \<longleftrightarrow>
     opcode < 16 \<and> length key = 4 \<and> length p < 2 ^ 63 \<and> (8 \<le> opcode \<longrightarrow> fin \<and> length p \<le> 125)"

lemma opcode_bits:
  assumes "opcode < (16 :: u8)"
  shows "((if fin then 0x80 else 0) OR opcode) AND 0x70 = 0"
    and "((if fin then 0x80 else 0) OR opcode) AND 0x0F = opcode"
    and "((if fin then 0x80 else 0) OR opcode) AND 0x80 = 0 \<longleftrightarrow> \<not> fin"
proof -
  have "\<forall>n < 16. \<forall>f \<in> {True, False}. let b = (if f then 0x80 else 0) OR (word_of_nat n :: u8)
      in b AND 0x70 = 0 \<and> b AND 0x0F = word_of_nat n \<and> (b AND 0x80 = 0 \<longleftrightarrow> \<not> f)"
    by code_simp
  moreover have "unat opcode < 16" using assms by (simp add: word_less_nat_alt)
  ultimately have "let b = (if fin then 0x80 else 0) OR (word_of_nat (unat opcode) :: u8)
      in b AND 0x70 = 0 \<and> b AND 0x0F = word_of_nat (unat opcode) \<and> (b AND 0x80 = 0 \<longleftrightarrow> \<not> fin)"
    by blast
  then show "((if fin then 0x80 else 0) OR opcode) AND 0x70 = 0"
    and "((if fin then 0x80 else 0) OR opcode) AND 0x0F = opcode"
    and "((if fin then 0x80 else 0) OR opcode) AND 0x80 = 0 \<longleftrightarrow> \<not> fin"
    by (simp_all add: Let_def)
qed

lemma len_bits:
  assumes "n < 128"
  shows "unat ((0x80 OR word_of_nat n :: u8) AND 0x7F) = n"
    and "(0x80 OR word_of_nat n :: u8) AND 0x80 \<noteq> 0"
    and "(word_of_nat n :: u8) AND 0x80 = 0"
proof -
  have "\<forall>n < 128. unat ((0x80 OR word_of_nat n :: u8) AND 0x7F) = n \<and>
      (0x80 OR word_of_nat n :: u8) AND 0x80 \<noteq> 0 \<and> (word_of_nat n :: u8) AND 0x80 = 0"
    by code_simp
  with assms show "unat ((0x80 OR word_of_nat n :: u8) AND 0x7F) = n"
    and "(0x80 OR word_of_nat n :: u8) AND 0x80 \<noteq> 0" and "(word_of_nat n :: u8) AND 0x80 = 0"
    by blast+
qed

lemma nth_2: "4 \<le> length xs \<Longrightarrow> [xs ! 2, xs ! 3] = take 2 (drop 2 xs)"
  by (auto simp: numeral_eq_Suc Suc_le_length_iff)

lemma nth_8: "10 \<le> length xs \<Longrightarrow>
  [xs ! 2, xs ! 3, xs ! 4, xs ! 5, xs ! 6, xs ! 7, xs ! 8, xs ! 9] = take 8 (drop 2 xs)"
  by (auto simp: numeral_eq_Suc Suc_le_length_iff)

lemma frame_len_client:
  assumes "n < 2 ^ 63"
  shows "frame_len (b0 # client_len n @ rest) ((client_len n) ! 0) = Inr (n, 1 + length (client_len n))"
    and "(client_len n) ! 0 AND 0x80 \<noteq> 0"
proof -
  let ?buf = "b0 # client_len n @ rest"
  have "frame_len ?buf ((client_len n) ! 0) = Inr (n, 1 + length (client_len n)) \<and>
    (client_len n) ! 0 AND 0x80 \<noteq> 0"
  proof -
    consider "n < 126" | "126 \<le> n" "n < 65536" | "65536 \<le> n" by linarith
    then show ?thesis
    proof cases
      case 1
      then show ?thesis using len_bits [of n] by (simp add: client_len_def frame_len_def Let_def)
    next
      case 2
      have "[?buf ! 2, ?buf ! 3] = u16_to_be_bytes (word_of_nat n)"
        by (subst nth_2) (use 2 in \<open>simp_all add: client_len_def\<close>)
      with 2 show ?thesis
        by (simp add: client_len_def frame_len_def be_simps unat_of_nat)
    next
      case 3
      have eq: "[?buf ! 2, ?buf ! 3, ?buf ! 4, ?buf ! 5, ?buf ! 6, ?buf ! 7, ?buf ! 8, ?buf ! 9] =
          u64_to_be_bytes (word_of_nat n)"
        by (subst nth_8) (use 3 in \<open>simp_all add: client_len_def\<close>)
      then have "?buf ! 2 = u64_to_be_bytes (word_of_nat n) ! 0" by (metis nth_Cons_0)
      also have "\<dots> = word_of_nat (n div 2 ^ 56)"
      proof -
        have "unat (word_of_nat n :: u64) = n" using assms by (simp add: unat_of_nat)
        then show ?thesis
          by (simp add: u64_to_be_bytes_def be_digits_8 be_digits_4 div_mult2_eq [symmetric])
      qed
      finally have top: "?buf ! 2 AND 0x80 = 0"
        using len_bits(3) [of "n div 2 ^ 56"] assms by (simp add: div_less_iff_less_mult)
      have "unat (u64_from_be_bytes (u64_to_be_bytes (word_of_nat n))) = n"
        using assms by (simp add: be_simps unat_of_nat)
      with 3 top eq show ?thesis
        by (simp add: client_len_def frame_len_def)
    qed
  qed
  then show "frame_len ?buf ((client_len n) ! 0) = Inr (n, 1 + length (client_len n))"
    and "(client_len n) ! 0 AND 0x80 \<noteq> 0" by blast+
qed

lemma unmask_unmask: "unmask key (unmask key p) = p"
  by (rule nth_equalityI) (simp_all add: unmask_def xor.assoc)

lemma client_len_nonempty [simp]: "client_len n \<noteq> []"
  by (simp add: client_len_def)

lemma parse_client:
  assumes "valid_frame fin opcode key p"
  shows "parse_client_frame (client_frame fin opcode key p @ rest) =
    (classify opcode p, length (client_frame fin opcode key p))"
proof -
  let ?b0 = "(if fin then 0x80 else 0) OR opcode" and ?cl = "client_len (length p)"
  let ?tail = "key @ unmask key p @ rest"
  let ?buf = "?b0 # ?cl @ ?tail"
  have v: "opcode < 16" "length key = 4" "length p < 2 ^ 63" "8 \<le> opcode \<longrightarrow> fin \<and> length p \<le> 125"
    using assms by (simp_all add: valid_frame_def)
  have buf: "client_frame fin opcode key p @ rest = ?buf" by (simp add: client_frame_def)
  have b: "?buf ! 0 = ?b0" "?buf ! 1 = ?cl ! 0" by (simp_all add: nth_append)
  obtain k0 k1 k2 k3 where key: "key = [k0, k1, k2, k3]"
    using v(2) by (auto simp: numeral_eq_Suc length_Suc_conv)
  let ?off = "1 + length ?cl"
  have nth: "?buf ! (?off + k) = key ! k" if "k < 4" for k
    using that v(2) by (simp add: nth_append)
  have k: "[?buf ! ?off, ?buf ! (?off + 1), ?buf ! (?off + 2), ?buf ! (?off + 3)] = key"
    using nth [of 0] nth [of 1] nth [of 2] nth [of 3] by (simp add: key)
  have "?buf = (?b0 # ?cl @ key) @ unmask key p @ rest" "length (?b0 # ?cl @ key) = ?off + 4"
    using v(2) by simp_all
  then have "drop (?off + 4) ?buf = unmask key p @ rest" by (metis drop_append_exact)
  then have m: "take (length p) (drop (?off + 4) ?buf) = unmask key p" by simp
  have l: "\<not> length ?buf < 2" "\<not> length ?buf < ?off + 4 + length p" using v(2) by simp_all
  note fl1 = frame_len_client(1) [OF v(3), of ?b0 ?tail] and fl2 = frame_len_client(2) [OF v(3)]
  have "parse_client_frame ?buf = (classify opcode (unmask key (unmask key p)), ?off + 4 + length p)"
    unfolding parse_client_frame_def Let_def b fl1 opcode_bits(2) [OF v(1)]
    using fl2 opcode_bits(1,3) [OF v(1), of fin] v(4) k m l
    by (simp only: if_False sum.case prod.case simp_thms if_not_P if_cancel) auto
  then show ?thesis
    unfolding buf unmask_unmask using v(2) by (simp add: client_frame_def)
qed

text \<open>A client's parser for the unmasked frames of a server.\<close>

definition server_unframe :: "bytes \<Rightarrow> (u8 \<times> bytes \<times> bytes) option" where
  "server_unframe buf =
     (if length buf < 2 \<or> buf ! 0 AND 0xF0 \<noteq> 0x80 \<or> buf ! 1 AND 0x80 \<noteq> 0 then None
      else
        let (len, off) =
              (if buf ! 1 = 126 then (be_val (take 2 (drop 2 buf)), 4)
               else if buf ! 1 = 127 then (be_val (take 8 (drop 2 buf)), 10)
               else (unat (buf ! 1), 2))
        in if length buf < off + len then None
           else Some (buf ! 0 AND 0x0F, take len (drop off buf), drop (off + len) buf))"

lemma server_opcode:
  assumes "opcode < (16 :: u8)"
  shows "(0x80 OR opcode) AND 0xF0 = 0x80" and "(0x80 OR opcode) AND 0x0F = opcode"
proof -
  have "\<forall>n < 16. (0x80 OR (word_of_nat n :: u8)) AND 0xF0 = 0x80 \<and>
      (0x80 OR (word_of_nat n :: u8)) AND 0x0F = word_of_nat n"
    by code_simp
  moreover have "unat opcode < 16" using assms by (simp add: word_less_nat_alt)
  ultimately have "(0x80 OR (word_of_nat (unat opcode) :: u8)) AND 0xF0 = 0x80 \<and>
      (0x80 OR (word_of_nat (unat opcode) :: u8)) AND 0x0F = word_of_nat (unat opcode)"
    by blast
  then show "(0x80 OR opcode) AND 0xF0 = 0x80" and "(0x80 OR opcode) AND 0x0F = opcode"
    by simp_all
qed


lemma drop_two: "length xs = n \<Longrightarrow> drop (n + length ys) (xs @ ys @ zs) = zs"
  by simp


lemma server_unframe_frame:
  assumes "opcode < 16" and "length p < 2 ^ 64"
  shows "server_unframe (server_frame opcode p @ rest) = Some (opcode, p, rest)"
proof -
  consider "length p < 126" | "126 \<le> length p" "length p < 65536" | "65536 \<le> length p" by linarith
  then show ?thesis
  proof cases
    case 1
    then have "unat (word_of_nat (length p) :: u8) = length p" by (simp add: unat_of_nat)
    with 1 have "(word_of_nat (length p) :: u8) \<noteq> 126" "(word_of_nat (length p) :: u8) \<noteq> 127"
      by (auto dest: arg_cong [where f = unat])
    with 1 len_bits(3) [of "length p"] server_opcode [OF assms(1)] show ?thesis
      by (simp add: server_frame_def server_unframe_def unat_of_nat)
  next
    case 2
    have "drop (4 + length p) (([0x80 OR opcode, 126] @ be_digits 2 (length p)) @ p @ rest) = rest"
      by (rule drop_two) simp
    with 2 server_opcode [OF assms(1)] show ?thesis
      by (simp add: server_frame_def server_unframe_def u16_to_be_bytes_def be_simps unat_of_nat)
  next
    case 3
    have "drop (10 + length p) (([0x80 OR opcode, 127] @ be_digits 8 (length p)) @ p @ rest) = rest"
      by (rule drop_two) simp
    with 3 assms(2) server_opcode [OF assms(1)] show ?thesis
      by (simp add: server_frame_def server_unframe_def u64_to_be_bytes_def be_simps unat_of_nat)
  qed
qed


section \<open>Properties of the frame layer\<close>

text \<open>Parsing inverts masking and framing: every valid client frame (any opcode, masking key and
  payload below \<open>2 ^ 63\<close> bytes, control frames final and short) at the front of the buffer is
  parsed to its opcode's meaning with the unmasked payload, and exactly its bytes are consumed, for
  each of the three forms of the length field and whatever follows in the buffer.  While any part
  of the frame is missing, the parser asks for more bytes and consumes none.\<close>

theorem client_frame_parses:
  assumes "valid_frame fin opcode key p"
  shows "parse_client_frame (client_frame fin opcode key p @ rest) =
      (classify opcode p, length (client_frame fin opcode key p)) \<and>
    (\<forall>k < length (client_frame fin opcode key p).
       parse_client_frame (take k (client_frame fin opcode key p)) = (NeedMore, 0))"
proof -
  let ?f = "client_frame fin opcode key p"
  have "parse_client_frame (take k ?f) = (NeedMore, 0)" if "k < length ?f" for k
  proof -
    obtain r n where r: "parse_client_frame (take k ?f) = (r, n)"
      by (cases "parse_client_frame (take k ?f)")
    have "r = NeedMore"
    proof (rule ccontr)
      assume "r \<noteq> NeedMore"
      from parse_append [OF r this, of "drop k ?f"] parse_client [OF assms, of "[]"]
      have "n = length ?f" by simp
      with parse_consumed(1) [OF r] that show False by simp
    qed
    with r parse_consumed(2) [OF r] show ?thesis by simp
  qed
  with parse_client [OF assms] show ?thesis by blast
qed

theorem client_frame_parses_witness:
  "parse_client_frame (client_frame True OP_BIN [1, 2, 3, 4] [7, 8, 9] @ [0x81]) = (PData [7, 8, 9], 9)"
  using client_frame_parses [of True OP_BIN "[1, 2, 3, 4]" "[7, 8, 9]" "[0x81]"]
  by (simp add: valid_frame_def op_defs classify_def client_frame_def client_len_def)

text \<open>The parser's verdict is final and bounded: it never consumes more bytes than are there, a
  data frame consumes at least six bytes more than its payload, a verdict other than "need more"
  stays the same when further bytes arrive, and every frame with a reserved bit set or without a
  mask is refused with close code 1002 as soon as its first two bytes are known.\<close>

theorem client_parse_final:
  assumes "parse_client_frame buf = (r, n)"
  shows "n \<le> length buf \<and> (\<forall>p. r = PData p \<longrightarrow> length p + 6 \<le> n) \<and>
    (r = NeedMore \<longrightarrow> n = 0) \<and>
    (r \<noteq> NeedMore \<longrightarrow> parse_client_frame (buf @ x) = (r, n)) \<and>
    (2 \<le> length buf \<and> (buf ! 0 AND 0x70 \<noteq> 0 \<or> buf ! 1 AND 0x80 = 0) \<longrightarrow> r = PProtocol 1002 \<and> n = 0)"
proof -
  have "r = PProtocol 1002 \<and> n = 0"
    if "2 \<le> length buf" "buf ! 0 AND 0x70 \<noteq> 0 \<or> buf ! 1 AND 0x80 = 0"
    using assms that by (auto simp: parse_client_frame_def Let_def split: if_splits)
  with parse_consumed [OF assms] parse_append [OF assms] show ?thesis by blast
qed

theorem client_parse_final_witness:
  "parse_client_frame ([0x82, 0x05, 1] @ [2, 3]) = (PProtocol 1002, 0)"
  using client_parse_final [of "[0x82, 0x05, 1]" "PProtocol 1002" 0 "[2, 3]"]
  by (simp add: parse_client_frame_def Let_def)

text \<open>A client that follows RFC 6455 reads every server frame back: from \<open>server_frame\<close> with an
  opcode of four bits and a payload below \<open>2 ^ 64\<close> bytes it gets the opcode, the payload and the
  bytes behind the frame.\<close>

theorem server_frame_roundtrip:
  assumes "opcode < 16" and "length p < 2 ^ 64"
  shows "server_unframe (server_frame opcode p @ rest) = Some (opcode, p, rest)"
  using assms by (rule server_unframe_frame)

theorem server_frame_roundtrip_witness:
  "server_unframe (server_frame OP_PONG [7, 8] @ [9]) = Some (OP_PONG, [7, 8], [9])"
  by (rule server_frame_roundtrip) (simp_all add: op_defs)

end
