(* ===== verification/Ws_Stream.thy ===== *)
theory Ws_Stream
  imports Ws_Frame Protocol
begin

text \<open>
  The adapter \<open>WsStream\<close> of \<open>rust-lib-sync/src/ws.rs\<close>: it presents the payloads of the client's
  binary frames as a byte stream, answers pings, echoes a close and turns each write into one binary
  frame.  Its inner stream is a socket of the theory \<open>Io_Model\<close>.

  The specification says what a byte string of raw frames means: \<open>ws_data\<close> is the stream it
  carries, \<open>ws_replies\<close> what has to be answered.  The adapter satisfies the same contract of a byte
  stream as the socket below it, so everything that holds of the frame decoder over a socket holds
  over a WebSocket connection.
\<close>

record ws_stream =
  inner :: stream
  rawbuf :: bytes
  ws_payload :: bytes
  payload_pos :: nat
  close_sent :: bool
  eof :: bool

text \<open>The length of the scratch buffer \<open>chunk\<close>, which never changes.\<close>

definition ws_chunk :: nat where
  "ws_chunk = 16 * 1024"

definition ws_new :: "stream \<Rightarrow> bytes \<Rightarrow> ws_stream" where
  "ws_new s leftover =
     \<lparr>inner = s, rawbuf = leftover, ws_payload = [], payload_pos = 0,
      close_sent = False, eof = False\<rparr>"

definition send_close :: "u16 \<Rightarrow> ws_stream \<Rightarrow> ws_stream" where
  "send_close code w =
     (if close_sent w then w
      else
        let w1 = w\<lparr>close_sent := True\<rparr>;
            (_, i1) = stream_write_all (inner w1) (server_frame OP_CLOSE (u16_to_be_bytes code));
            (_, i2) = stream_flush i1
        in w1\<lparr>inner := i2\<rparr>)"

function pump :: "ws_stream \<Rightarrow> bool io_result \<times> ws_stream" where
  "pump w =
     (case parse_client_frame (rawbuf w) of (parsed, consumed) \<Rightarrow>
        let w1 = w\<lparr>rawbuf := drop consumed (rawbuf w)\<rparr>
        in case parsed of
             NeedMore \<Rightarrow> (Inr False, w)
           | PData p \<Rightarrow> (Inr True, w1\<lparr>ws_payload := ws_payload w1 @ p\<rparr>)
           | PPing p \<Rightarrow>
               (case stream_write_all (inner w1) (server_frame OP_PONG p) of
                  (Inl e, i1) \<Rightarrow> (Inl e, w1\<lparr>inner := i1\<rparr>)
                | (Inr _, i1) \<Rightarrow>
                    (case stream_flush i1 of
                       (Inl e, i2) \<Rightarrow> (Inl e, w1\<lparr>inner := i2\<rparr>)
                     | (Inr _, i2) \<Rightarrow> pump (w1\<lparr>inner := i2\<rparr>)))
           | PPong \<Rightarrow> pump w1
           | PClose code \<Rightarrow> (Inr True, (send_close code w1)\<lparr>eof := True\<rparr>)
           | PProtocol code \<Rightarrow> (Inr True, (send_close code w)\<lparr>eof := True\<rparr>))"
  by pat_completeness auto
termination
proof (relation "measure (\<lambda>w. length (rawbuf w))", goal_cases)
  case (2 w r n w1 p x i1 y b i2 z)
  then show ?case using parse_consumed [of "rawbuf w" "PPing p" n] by auto
next
  case (3 w r n w1)
  then show ?case using parse_consumed [of "rawbuf w" PPong n] by auto
qed simp

declare pump.simps [simp del]


section \<open>What a string of raw frames means\<close>

function ws_data :: "bytes \<Rightarrow> bytes" where
  "ws_data raw =
     (case parse_client_frame raw of
        (PData p, n) \<Rightarrow> p @ ws_data (drop n raw)
      | (PPing p, n) \<Rightarrow> ws_data (drop n raw)
      | (PPong, n) \<Rightarrow> ws_data (drop n raw)
      | _ \<Rightarrow> [])"
  by pat_completeness auto
termination
  by (relation "measure length") (auto dest: parse_shrinks)

function ws_replies :: "bool \<Rightarrow> bytes \<Rightarrow> bytes" where
  "ws_replies closed raw =
     (case parse_client_frame raw of
        (PData p, n) \<Rightarrow> ws_replies closed (drop n raw)
      | (PPing p, n) \<Rightarrow> server_frame OP_PONG p @ ws_replies closed (drop n raw)
      | (PPong, n) \<Rightarrow> ws_replies closed (drop n raw)
      | (PClose c, n) \<Rightarrow> if closed then [] else server_frame OP_CLOSE (u16_to_be_bytes c)
      | (PProtocol c, n) \<Rightarrow> if closed then [] else server_frame OP_CLOSE (u16_to_be_bytes c)
      | (NeedMore, n) \<Rightarrow> [])"
  by pat_completeness auto
termination
  by (relation "measure (length \<circ> snd)") (auto dest: parse_shrinks)

declare ws_data.simps [simp del] ws_replies.simps [simp del]

lemma ws_data_cases:
  assumes "parse_client_frame raw = (r, n)"
  shows "r \<noteq> NeedMore \<Longrightarrow> ws_data (raw @ x) =
    (case r of PData p \<Rightarrow> p @ ws_data (drop n raw @ x)
     | PPing p \<Rightarrow> ws_data (drop n raw @ x) | PPong \<Rightarrow> ws_data (drop n raw @ x) | _ \<Rightarrow> [])"
    and "r = NeedMore \<Longrightarrow> ws_data raw = []"
  using assms parse_append [OF assms, of x] parse_consumed(1) [OF assms]
  by (auto simp: ws_data.simps [of "raw @ x"] ws_data.simps [of raw] split: parsed.split)

lemma ws_replies_cases:
  assumes "parse_client_frame raw = (r, n)"
  shows "r \<noteq> NeedMore \<Longrightarrow> ws_replies closed (raw @ x) =
    (case r of PData p \<Rightarrow> ws_replies closed (drop n raw @ x)
     | PPing p \<Rightarrow> server_frame OP_PONG p @ ws_replies closed (drop n raw @ x)
     | PPong \<Rightarrow> ws_replies closed (drop n raw @ x)
     | PClose c \<Rightarrow> if closed then [] else server_frame OP_CLOSE (u16_to_be_bytes c)
     | PProtocol c \<Rightarrow> if closed then [] else server_frame OP_CLOSE (u16_to_be_bytes c))"
    and "r = NeedMore \<Longrightarrow> ws_replies closed raw = []"
  using assms parse_append [OF assms, of x] parse_consumed(1) [OF assms]
  by (auto simp: ws_replies.simps [of closed "raw @ x"] ws_replies.simps [of closed raw]
      split: parsed.split)


section \<open>Pumping\<close>

lemma send_close_fields [simp]:
  "rawbuf (send_close c w) = rawbuf w" "ws_payload (send_close c w) = ws_payload w"
  "payload_pos (send_close c w) = payload_pos w"
  "inbound (inner (send_close c w)) = inbound (inner w)"
  "clock (inner (send_close c w)) = clock (inner w)" "close_sent (send_close c w)"
  by (auto simp: send_close_def Let_def split: prod.split
      dest!: stream_write_all_frame stream_flush_frame)

text \<open>What a call of \<open>pump\<close> keeps, and how the stream it serves moves from the frames to the payload.\<close>

definition ws_rest :: "bytes \<Rightarrow> ws_stream \<Rightarrow> bytes" where
  "ws_rest x w = ws_payload w @ (if eof w then [] else ws_data (rawbuf w @ x))"

text \<open>Induction over the frames that a call of \<open>pump\<close> goes through.\<close>

lemma pump_rule [consumes 1, case_names more data pong ping_write ping_flush ping close violation]:
  assumes "pump w = (r, w')"
    and "\<And>w. parse_client_frame (rawbuf w) = (NeedMore, 0) \<Longrightarrow> R w (Inr False) w"
    and "\<And>w p n. parse_client_frame (rawbuf w) = (PData p, n) \<Longrightarrow>
      R w (Inr True) (w\<lparr>rawbuf := drop n (rawbuf w), ws_payload := ws_payload w @ p\<rparr>)"
    and "\<And>w n r w'. parse_client_frame (rawbuf w) = (PPong, n) \<Longrightarrow>
      R (w\<lparr>rawbuf := drop n (rawbuf w)\<rparr>) r w' \<Longrightarrow> R w r w'"
    and "\<And>w p n e i. parse_client_frame (rawbuf w) = (PPing p, n) \<Longrightarrow>
      stream_write_all (inner w) (server_frame OP_PONG p) = (Inl e, i) \<Longrightarrow>
      R w (Inl e) (w\<lparr>rawbuf := drop n (rawbuf w), inner := i\<rparr>)"
    and "\<And>w p n u i e j. parse_client_frame (rawbuf w) = (PPing p, n) \<Longrightarrow>
      stream_write_all (inner w) (server_frame OP_PONG p) = (Inr u, i) \<Longrightarrow>
      stream_flush i = (Inl e, j) \<Longrightarrow> R w (Inl e) (w\<lparr>rawbuf := drop n (rawbuf w), inner := j\<rparr>)"
    and "\<And>w p n u i v j r w'. parse_client_frame (rawbuf w) = (PPing p, n) \<Longrightarrow>
      stream_write_all (inner w) (server_frame OP_PONG p) = (Inr u, i) \<Longrightarrow>
      stream_flush i = (Inr v, j) \<Longrightarrow>
      R (w\<lparr>rawbuf := drop n (rawbuf w), inner := j\<rparr>) r w' \<Longrightarrow> R w r w'"
    and "\<And>w c n. parse_client_frame (rawbuf w) = (PClose c, n) \<Longrightarrow>
      R w (Inr True) ((send_close c (w\<lparr>rawbuf := drop n (rawbuf w)\<rparr>))\<lparr>eof := True\<rparr>)"
    and "\<And>w c n. parse_client_frame (rawbuf w) = (PProtocol c, n) \<Longrightarrow>
      R w (Inr True) ((send_close c w)\<lparr>eof := True\<rparr>)"
  shows "R w r w'"
  using assms(1)
proof (induction w arbitrary: r w' rule: pump.induct)
  case (1 w)
  obtain q n where q: "parse_client_frame (rawbuf w) = (q, n)" by (cases "parse_client_frame (rawbuf w)")
  let ?w1 = "w\<lparr>rawbuf := drop n (rawbuf w)\<rparr>"
  show ?case
  proof (cases q)
    case (PPing p)
    note ping = q [unfolded PPing]
    obtain a i where a: "stream_write_all (inner w) (server_frame OP_PONG p) = (a, i)"
      by (cases "stream_write_all (inner w) (server_frame OP_PONG p)")
    obtain b j where b: "stream_flush i = (b, j)" by (cases "stream_flush i")
    show ?thesis
    proof (cases a)
      case (Inl e)
      then show ?thesis
        using 1(3) ping a assms(5) [OF ping] by (subst (asm) pump.simps) (simp add: Let_def)
    next
      case a': (Inr u)
      show ?thesis
      proof (cases b)
        case (Inl e)
        then show ?thesis
          using 1(3) ping a a' b assms(6) [OF ping a [unfolded a']]
          by (subst (asm) pump.simps) (auto simp: Let_def)
      next
        case (Inr v)
        have "pump (?w1\<lparr>inner := j\<rparr>) = (r, w')"
          using 1(3) ping a a' b Inr by (subst (asm) pump.simps) (simp add: Let_def)
        from 1(1) [OF q [symmetric] refl PPing _ a' b [symmetric] Inr this] a
        have "R (?w1\<lparr>inner := j\<rparr>) r w'" by simp
        with assms(7) [OF ping] a a' b Inr show ?thesis by simp
      qed
    qed
  next
    case PPong
    note pong = q [unfolded PPong]
    have "pump ?w1 = (r, w')"
      using 1(3) pong by (subst (asm) pump.simps) (simp add: Let_def)
    from 1(2) [OF q [symmetric] refl PPong this] assms(4) [OF pong] show ?thesis by simp
  next
    case NeedMore
    with q parse_consumed(2) [OF q] 1(3) assms(2) show ?thesis
      by (subst (asm) pump.simps) (auto simp: Let_def)
  qed (use 1(3) q assms(3,8,9) in \<open>subst (asm) pump.simps, auto simp: Let_def\<close>)+
qed

lemma pump_frame:
  assumes "pump w = (r, w')"
  shows "payload_pos w' = payload_pos w \<and>
    inbound (inner w') = inbound (inner w) \<and> clock (inner w') = clock (inner w) \<and>
    length (rawbuf w') + length (ws_payload w') \<le> length (rawbuf w) + length (ws_payload w) \<and>
    length (ws_payload w) \<le> length (ws_payload w') \<and>
    (r = Inr True \<longrightarrow> length (rawbuf w') < length (rawbuf w) \<or> eof w') \<and>
    ((\<exists>e. r = Inl e) \<longrightarrow> length (rawbuf w') < length (rawbuf w) \<and> ws_payload w' = ws_payload w) \<and>
    (r = Inr False \<longrightarrow> parse_client_frame (rawbuf w') = (NeedMore, 0) \<and> eof w' = eof w \<and>
      ws_payload w' = ws_payload w)"
  using assms
proof (induction rule: pump_rule)
  case (data w p n)
  from parse_consumed [OF data] show ?case by auto
next
  case (pong w n r w')
  from parse_consumed(1,4) [OF pong(1)] pong(2) show ?case by auto
next
  case (ping_write w p n e i)
  from parse_consumed(1,4) [OF ping_write(1)] stream_write_all_frame [OF ping_write(2)] show ?case
    by auto
next
  case (ping_flush w p n u i e j)
  from parse_consumed(1,4) [OF ping_flush(1)] stream_write_all_frame [OF ping_flush(2)]
    stream_flush_frame [OF ping_flush(3)] show ?case by auto
next
  case (ping w p n u i v j r w')
  from parse_consumed(1,4) [OF ping(1)] stream_write_all_frame [OF ping(2)]
    stream_flush_frame [OF ping(3)] ping(4) show ?case by auto
next
  case (close w c n)
  from parse_consumed(1,4) [OF close] show ?case by auto
qed auto

lemma pump_rest:
  assumes "pump w = (r, w')" and "\<not> eof w"
  shows "ws_rest x w' = ws_rest x w"
  using assms
proof (induction rule: pump_rule)
  case (data w p n)
  then show ?case using ws_data_cases(1) [OF data(1)] by (simp add: ws_rest_def)
next
  case (pong w n r w')
  then show ?case using ws_data_cases(1) [OF pong(1)] by (simp add: ws_rest_def)
next
  case (ping_write w p n e i)
  then show ?case using ws_data_cases(1) [OF ping_write(1)] by (simp add: ws_rest_def)
next
  case (ping_flush w p n u i e j)
  then show ?case using ws_data_cases(1) [OF ping_flush(1)] by (simp add: ws_rest_def)
next
  case (ping w p n u i v j r w')
  then show ?case using ws_data_cases(1) [OF ping(1)] by (simp add: ws_rest_def)
next
  case (close w c n)
  then show ?case using ws_data_cases(1) [OF close(1)] by (simp add: ws_rest_def)
next
  case (violation w c n)
  then show ?case using ws_data_cases(1) [OF violation(1)] by (simp add: ws_rest_def)
qed simp


section \<open>Reading and writing\<close>

function ws_read :: "ws_stream \<Rightarrow> nat \<Rightarrow> bytes io_result \<times> ws_stream" where
  "ws_read w n =
     (if payload_pos w < length (ws_payload w) then
        let k = min n (length (ws_payload w) - payload_pos w);
            out = take k (drop (payload_pos w) (ws_payload w));
            pos = payload_pos w + k
        in (Inr out,
            if pos = length (ws_payload w) then w\<lparr>ws_payload := [], payload_pos := 0\<rparr>
            else w\<lparr>payload_pos := pos\<rparr>)
      else if eof w then (Inr [], w)
      else case pump w of
             (Inl e, w1) \<Rightarrow> (Inl e, w1)
           | (Inr True, w1) \<Rightarrow> ws_read w1 n
           | (Inr False, w1) \<Rightarrow>
               (case stream_read (inner w1) ws_chunk of
                  (Inl e, i) \<Rightarrow> (Inl e, w1\<lparr>inner := i\<rparr>)
                | (Inr bs, i) \<Rightarrow>
                    if bs = [] then (Inr [], w1\<lparr>inner := i, eof := True\<rparr>)
                    else ws_read (w1\<lparr>inner := i, rawbuf := rawbuf w1 @ bs\<rparr>) n))"
  by pat_completeness auto
termination
proof (relation "measure (\<lambda>(w, n). 2 * stream_steps (inner w) + length (rawbuf w) + of_bool (\<not> eof w))",
    goal_cases)
  case (2 w n r w1 b)
  from 2 pump_frame [of w "Inr True" w1] show ?case by (auto simp: stream_steps_def)
next
  case (3 w n r w1 b q i bs)
  from 3 pump_frame [of w "Inr False" w1] stream_read_bytes [of "inner w1" ws_chunk bs i]
  show ?case by (cases bs) (auto simp: stream_steps_def)
qed simp

declare ws_read.simps [simp del]

definition ws_write :: "ws_stream \<Rightarrow> bytes \<Rightarrow> nat io_result \<times> ws_stream" where
  "ws_write w d =
     (case stream_write_all (inner w) (server_frame OP_BIN d) of
        (Inl e, i) \<Rightarrow> (Inl e, w\<lparr>inner := i\<rparr>)
      | (Inr _, i) \<Rightarrow> (Inr (length d), w\<lparr>inner := i\<rparr>))"

definition ws_flush :: "ws_stream \<Rightarrow> unit io_result \<times> ws_stream" where
  "ws_flush w = (case stream_flush (inner w) of (r, i) \<Rightarrow> (r, w\<lparr>inner := i\<rparr>))"

text \<open>\<open>Write::write_all\<close>: \<open>write\<close> claims the whole slice, so it is called once, and not at all for an
  empty slice.\<close>

definition ws_write_all :: "ws_stream \<Rightarrow> bytes \<Rightarrow> unit io_result \<times> ws_stream" where
  "ws_write_all w d =
     (if d = [] then (Inr (), w)
      else case ws_write w d of (Inl e, w') \<Rightarrow> (Inl e, w') | (Inr _, w') \<Rightarrow> (Inr (), w'))"


section \<open>The contract of a byte stream\<close>

definition ws_pend :: "ws_stream \<Rightarrow> bytes" where
  "ws_pend w = drop (payload_pos w) (ws_rest (stream_pend (inner w)) w)"

definition ws_steps :: "ws_stream \<Rightarrow> nat" where
  "ws_steps w =
     (length (ws_payload w) - payload_pos w) + length (rawbuf w) + stream_steps (inner w)"

definition faultless :: "stream \<Rightarrow> bool" where
  "faultless s \<longleftrightarrow> list_all (\<lambda>f. f = None) (wfaults s) \<and> list_all (\<lambda>f. f = None) (ffaults s)"

definition ws_idle :: "ws_stream \<Rightarrow> bool" where
  "ws_idle w \<longleftrightarrow> stream_idle (inner w) \<and> faultless (inner w)"

text \<open>Induction over the rounds of a call of \<open>read\<close>.\<close>

lemma ws_read_rule [consumes 1, case_names payload ended failed pumped stalled finished filled]:
  assumes "ws_read w n = (r, w')"
    and "\<And>w. payload_pos w < length (ws_payload w) \<Longrightarrow>
      R w (Inr (take n (drop (payload_pos w) (ws_payload w))))
        (if payload_pos w + n < length (ws_payload w) then w\<lparr>payload_pos := payload_pos w + n\<rparr>
         else w\<lparr>ws_payload := [], payload_pos := 0\<rparr>)"
    and "\<And>w. \<not> payload_pos w < length (ws_payload w) \<Longrightarrow> eof w \<Longrightarrow> R w (Inr []) w"
    and "\<And>w e w1. \<not> payload_pos w < length (ws_payload w) \<Longrightarrow> \<not> eof w \<Longrightarrow> pump w = (Inl e, w1) \<Longrightarrow>
      R w (Inl e) w1"
    and "\<And>w w1 r w'. \<not> payload_pos w < length (ws_payload w) \<Longrightarrow> \<not> eof w \<Longrightarrow>
      pump w = (Inr True, w1) \<Longrightarrow> R w1 r w' \<Longrightarrow> R w r w'"
    and "\<And>w w1 e i. \<not> payload_pos w < length (ws_payload w) \<Longrightarrow> \<not> eof w \<Longrightarrow>
      pump w = (Inr False, w1) \<Longrightarrow> stream_read (inner w1) ws_chunk = (Inl e, i) \<Longrightarrow>
      R w (Inl e) (w1\<lparr>inner := i\<rparr>)"
    and "\<And>w w1 i. \<not> payload_pos w < length (ws_payload w) \<Longrightarrow> \<not> eof w \<Longrightarrow>
      pump w = (Inr False, w1) \<Longrightarrow> stream_read (inner w1) ws_chunk = (Inr [], i) \<Longrightarrow>
      R w (Inr []) (w1\<lparr>inner := i, eof := True\<rparr>)"
    and "\<And>w w1 bs i r w'. \<not> payload_pos w < length (ws_payload w) \<Longrightarrow> \<not> eof w \<Longrightarrow>
      pump w = (Inr False, w1) \<Longrightarrow> stream_read (inner w1) ws_chunk = (Inr bs, i) \<Longrightarrow> bs \<noteq> [] \<Longrightarrow>
      R (w1\<lparr>inner := i, rawbuf := rawbuf w1 @ bs\<rparr>) r w' \<Longrightarrow> R w r w'"
  shows "R w r w'"
proof -
  have "ws_read w m = (r, w') \<Longrightarrow> m = n \<Longrightarrow> R w r w'" for m
  proof (induction w m arbitrary: r w' rule: ws_read.induct)
    case (1 w m)
    note run = 1(3) and m = 1(4)
    show ?case
    proof (cases "payload_pos w < length (ws_payload w)")
      case pos: True
      have "(r, w') = (Inr (take n (drop (payload_pos w) (ws_payload w))),
          if payload_pos w + n < length (ws_payload w) then w\<lparr>payload_pos := payload_pos w + n\<rparr>
          else w\<lparr>ws_payload := [], payload_pos := 0\<rparr>)"
        using run m pos
        by (subst (asm) ws_read.simps) (auto simp: Let_def min_def not_le take_all)
      with assms(2) [OF pos] show ?thesis by simp
    next
      case pos: False
      show ?thesis
      proof (cases "eof w")
        case True
        with run pos assms(3) [OF pos True] show ?thesis by (subst (asm) ws_read.simps) simp
      next
        case ne: False
        obtain q w1 where q: "pump w = (q, w1)" by (cases "pump w")
        consider e where "q = Inl e" | "q = Inr True" | "q = Inr False" by (cases q) auto
        then show ?thesis
        proof cases
          case 1
          with run pos ne q assms(4) [OF pos ne] show ?thesis by (subst (asm) ws_read.simps) auto
        next
          case 2
          then have "ws_read w1 m = (r, w')" using run pos ne q by (subst (asm) ws_read.simps) simp
          from "1.IH"(1) [OF pos ne q [symmetric] 2 _ this m] have "R w1 r w'" by simp
          with assms(5) [OF pos ne] q 2 show ?thesis by simp
        next
          case 3
          note q' = q [unfolded 3]
          obtain a i where a: "stream_read (inner w1) ws_chunk = (a, i)"
            by (cases "stream_read (inner w1) ws_chunk")
          consider e where "a = Inl e" | "a = Inr []" | bs where "a = Inr bs" "bs \<noteq> []"
            by (cases a) auto
          then show ?thesis
          proof cases
            case 1
            with run pos ne q' a assms(6) [OF pos ne q'] show ?thesis
              by (subst (asm) ws_read.simps) auto
          next
            case 2
            with run pos ne q' a assms(7) [OF pos ne q'] show ?thesis
              by (subst (asm) ws_read.simps) auto
          next
            case (3 bs)
            let ?w = "w1\<lparr>inner := i, rawbuf := rawbuf w1 @ bs\<rparr>"
            have "ws_read ?w m = (r, w')" using run pos ne q' a 3 by (subst (asm) ws_read.simps) simp
            from "1.IH"(2) [OF pos ne q' [symmetric] refl _ a [symmetric] 3 this m] have "R ?w r w'"
              by simp
            with assms(8) [OF pos ne q'] a 3 show ?thesis by simp
          qed
        qed
      qed
    qed
  qed
  with assms(1) show ?thesis by blast
qed

lemma pump_pend:
  assumes "pump w = (r, w')" and "\<not> eof w"
  shows "ws_pend w' = ws_pend w" and "stream_pend (inner w') = stream_pend (inner w)"
    and "stream_steps (inner w') = stream_steps (inner w)"
    and "ws_steps w' \<le> ws_steps w" and "r = Inl e \<Longrightarrow> ws_steps w' < ws_steps w"
proof -
  note f = pump_frame [OF assms(1)]
  show p: "stream_pend (inner w') = stream_pend (inner w)"
    and st: "stream_steps (inner w') = stream_steps (inner w)"
    using f by (simp_all add: stream_pend_def stream_steps_def)
  show "ws_pend w' = ws_pend w"
    using f pump_rest [OF assms] by (simp add: ws_pend_def p)
  have "payload_pos w' = payload_pos w" "length (ws_payload w) \<le> length (ws_payload w')"
    "length (rawbuf w') + length (ws_payload w') \<le> length (rawbuf w) + length (ws_payload w)"
    using f by simp_all
  with st show "ws_steps w' \<le> ws_steps w" unfolding ws_steps_def by linarith
  show "r = Inl e \<Longrightarrow> ws_steps w' < ws_steps w" using f st by (auto simp: ws_steps_def)
qed

lemma ws_pend_ended: "\<not> payload_pos w < length (ws_payload w) \<Longrightarrow> eof w \<Longrightarrow> ws_pend w = []"
  by (simp add: ws_pend_def ws_rest_def)

lemma ws_read_contract:
  assumes "ws_read w n = (r, w')"
  shows "(\<forall>e. r = Inl e \<longrightarrow> ws_pend w' = ws_pend w) \<and>
    (\<forall>bs. r = Inr bs \<longrightarrow> ws_pend w = bs @ ws_pend w' \<and> length bs \<le> n) \<and>
    (r = Inr [] \<and> 0 < n \<longrightarrow> ws_pend w = []) \<and> (r \<noteq> Inr [] \<longrightarrow> ws_steps w' < ws_steps w)"
  using assms
proof (induction rule: ws_read_rule)
  case (payload w)
  let ?p = "ws_payload w" and ?k = "payload_pos w"
  show ?case
  proof (cases "?k + n < length ?p")
    case True
    have "drop ?k (?p @ z) = take n (drop ?k ?p) @ drop (?k + n) (?p @ z)" for z
      using True by (simp add: add.commute append_take_drop_id flip: append_assoc drop_drop)
    moreover have "length ?p - (?k + n) < length ?p - ?k" if "n \<noteq> 0" using that True by simp
    ultimately show ?thesis
      using True payload by (auto simp: ws_pend_def ws_rest_def ws_steps_def)
  next
    case False
    with payload show ?thesis by (auto simp: ws_pend_def ws_rest_def ws_steps_def)
  qed
next
  case (ended w)
  then show ?case by (simp add: ws_pend_ended)
next
  case (failed w e w1)
  then show ?case using pump_pend [OF failed(3,2)] by simp
next
  case (pumped w w1 r w')
  then show ?case using pump_pend(1,4) [OF pumped(3,2)] by auto
next
  case (stalled w w1 e i)
  have "stream_pend i = stream_pend (inner w1)" using tcp.rd_err stalled(4) by blast
  moreover have "stream_steps i < stream_steps (inner w1)" using stream_read_err stalled(4) by blast
  ultimately show ?case
    using pump_pend [OF stalled(3,2)] by (auto simp: ws_pend_def ws_rest_def ws_steps_def)
next
  case (finished w w1 i)
  note f = pump_frame [OF finished(3)]
  have 0: "stream_pend (inner w1) = []" using tcp.rd_eof finished(4) by (simp add: ws_chunk_def)
  then have "stream_pend i = []" using tcp.rd_ok finished(4) by (fastforce simp: ws_chunk_def)
  moreover have "ws_data (rawbuf w1) = []" using f ws_data_cases(2) by blast
  ultimately have "ws_pend w1 = []" and "ws_pend (w1\<lparr>inner := i, eof := True\<rparr>) = []"
    using f finished(1) 0 by (auto simp: ws_pend_def ws_rest_def)
  with pump_pend(1) [OF finished(3,2)] show ?case by simp
next
  case (filled w w1 bs i r w')
  let ?w = "w1\<lparr>inner := i, rawbuf := rawbuf w1 @ bs\<rparr>"
  have "stream_pend (inner w1) = bs @ stream_pend i"
    using tcp.rd_ok filled(4) by (simp add: ws_chunk_def)
  then have "ws_pend ?w = ws_pend w1" by (simp add: ws_pend_def ws_rest_def)
  moreover have "ws_steps ?w \<le> ws_steps w1"
    using stream_read_bytes [OF filled(4)] by (simp add: ws_steps_def)
  ultimately show ?case
    using pump_pend(1,4) [OF filled(3,2)] filled(6) by auto
qed

lemma faultless_write: "faultless s \<Longrightarrow> stream_write_all s bs = (r, s') \<Longrightarrow>
  r = Inr () \<and> faultless s' \<and> outbound s' = outbound s @ bs"
  by (auto simp: faultless_def stream_write_all_def split: list.splits)

lemma faultless_flush: "faultless s \<Longrightarrow> stream_flush s = (r, s') \<Longrightarrow>
  r = Inr () \<and> faultless s' \<and> outbound s' = outbound s"
  by (auto simp: faultless_def stream_flush_def split: list.splits)

lemma faultless_read: "stream_read s n = (r, s') \<Longrightarrow> faultless s' = faultless s"
  using stream_read_frame by (simp add: faultless_def)

lemma faultless_send_close:
  assumes "faultless (inner w)"
  shows "faultless (inner (send_close c w))"
    and "outbound (inner (send_close c w)) = outbound (inner w) @
      (if close_sent w then [] else server_frame OP_CLOSE (u16_to_be_bytes c))"
proof -
  obtain r1 i1 where 1: "stream_write_all (inner w) (server_frame OP_CLOSE (u16_to_be_bytes c)) = (r1, i1)"
    by fastforce
  obtain r2 i2 where 2: "stream_flush i1 = (r2, i2)" by fastforce
  from faultless_write [OF assms 1] faultless_flush [OF _ 2] assms 1 2
  show "faultless (inner (send_close c w))"
    and "outbound (inner (send_close c w)) = outbound (inner w) @
      (if close_sent w then [] else server_frame OP_CLOSE (u16_to_be_bytes c))"
    by (auto simp: send_close_def)
qed

text \<open>Without write faults, pumping never fails and sends exactly the replies that are due.\<close>

definition ws_sends :: "bytes \<Rightarrow> ws_stream \<Rightarrow> bytes" where
  "ws_sends x w =
     outbound (inner w) @ (if eof w then [] else ws_replies (close_sent w) (rawbuf w @ x))"

lemma pump_faultless:
  assumes "pump w = (r, w')" and "faultless (inner w)" and "\<not> eof w"
  shows "faultless (inner w') \<and> (\<forall>e. r \<noteq> Inl e) \<and> ws_sends x w' = ws_sends x w"
  using assms
proof (induction rule: pump_rule)
  case (data w p n)
  then show ?case using ws_replies_cases(1) [OF data(1)] by (simp add: ws_sends_def)
next
  case (pong w n r w')
  then show ?case using ws_replies_cases(1) [OF pong(1)] by (simp add: ws_sends_def)
next
  case (ping_write w p n e i)
  then show ?case using faultless_write [of "inner w"] by blast
next
  case (ping_flush w p n u i e j)
  then show ?case using faultless_write [of "inner w"] faultless_flush [of i] by blast
next
  case (ping w p n u i v j r w')
  have i: "faultless i" "outbound i = outbound (inner w) @ server_frame OP_PONG p"
    using faultless_write [OF ping(5,2)] by simp_all
  have "faultless j" "outbound j = outbound i" using faultless_flush [OF i(1) ping(3)] by simp_all
  with i ping ws_replies_cases(1) [OF ping(1)] show ?case by (simp add: ws_sends_def)
next
  case (close w c n)
  then show ?case
    using ws_replies_cases(1) [OF close(1)]
      faultless_send_close [of "w\<lparr>rawbuf := drop n (rawbuf w)\<rparr>" c]
    by (simp add: ws_sends_def)
next
  case (violation w c n)
  then show ?case
    using ws_replies_cases(1) [OF violation(1)] faultless_send_close [of w c]
    by (simp add: ws_sends_def)
qed simp

definition ws_due :: "ws_stream \<Rightarrow> bytes" where
  "ws_due w = (if eof w then [] else ws_replies (close_sent w) (rawbuf w @ stream_pend (inner w)))"

lemma ws_sends_due: "ws_sends (stream_pend (inner w)) w = outbound (inner w) @ ws_due w"
  by (simp add: ws_sends_def ws_due_def)

lemma pump_due:
  assumes "pump w = (r, w')" and "faultless (inner w)" and "\<not> eof w"
  shows "outbound (inner w') @ ws_due w' = outbound (inner w) @ ws_due w"
proof -
  have "stream_pend (inner w') = stream_pend (inner w)"
    using pump_frame [OF assms(1)] by (simp add: stream_pend_def)
  with pump_faultless [OF assms, of "stream_pend (inner w)"] show ?thesis
    by (metis ws_sends_due)
qed

lemma ws_read_faultless:
  assumes "ws_read w n = (r, w')" and "faultless (inner w)"
  shows "faultless (inner w') \<and> outbound (inner w') @ ws_due w' = outbound (inner w) @ ws_due w \<and>
    (r = Inr [] \<and> 0 < n \<longrightarrow> ws_due w' = [])"
  using assms
proof (induction rule: ws_read_rule)
  case (payload w)
  then show ?case by (auto simp: ws_due_def)
next
  case (ended w)
  then show ?case by (simp add: ws_due_def)
next
  case (failed w e w1)
  then show ?case using pump_faultless by blast
next
  case (pumped w w1 r w')
  then show ?case using pump_faultless [OF pumped(3,5,2)] pump_due [OF pumped(3,5,2)] by simp
next
  case (stalled w w1 e i)
  have "stream_pend i = stream_pend (inner w1)" using tcp.rd_err stalled(4) by blast
  then have "ws_due (w1\<lparr>inner := i\<rparr>) = ws_due w1" by (simp add: ws_due_def)
  with pump_faultless [OF stalled(3,5,2)] pump_due [OF stalled(3,5,2)]
    stream_read_frame [OF stalled(4)] faultless_read [OF stalled(4)]
  show ?case by simp
next
  case (finished w w1 i)
  have "stream_pend (inner w1) = []" using tcp.rd_eof finished(4) by (simp add: ws_chunk_def)
  moreover have "ws_replies (close_sent w1) (rawbuf w1) = []"
    using pump_frame [OF finished(3)] ws_replies_cases(2) by blast
  ultimately have "ws_due w1 = []" by (simp add: ws_due_def)
  with pump_faultless [OF finished(3,5,2)] pump_due [OF finished(3,5,2)]
    stream_read_frame [OF finished(4)] faultless_read [OF finished(4)]
  show ?case by (simp add: ws_due_def)
next
  case (filled w w1 bs i r w')
  let ?w = "w1\<lparr>inner := i, rawbuf := rawbuf w1 @ bs\<rparr>"
  have "stream_pend (inner w1) = bs @ stream_pend i"
    using tcp.rd_ok filled(4) by (simp add: ws_chunk_def)
  then have "ws_due ?w = ws_due w1" by (simp add: ws_due_def)
  with pump_faultless [OF filled(3,7,2)] pump_due [OF filled(3,7,2)] filled(6)
    stream_read_frame [OF filled(4)] faultless_read [OF filled(4)]
  show ?case by simp
qed

lemma ws_read_idle:
  assumes "ws_read w n = (r, w')" and "ws_idle w"
  shows "ws_idle w' \<and> (\<forall>e. r = Inl e \<longrightarrow> is_idle_tick e)"
proof -
  have "stream_idle (inner w') \<and> (\<forall>e. r = Inl e \<longrightarrow> is_idle_tick e)"
    using assms
  proof (induction rule: ws_read_rule)
    case (payload w)
    then show ?case by (auto simp: ws_idle_def)
  next
    case (failed w e w1)
    then show ?case using pump_faultless [OF failed(3) _ failed(2)] by (simp add: ws_idle_def)
  next
    case (pumped w w1 r w')
    then have "ws_idle w1"
      using pump_faultless [OF pumped(3) _ pumped(2)] pump_frame [OF pumped(3)]
      by (simp add: ws_idle_def stream_idle_def)
    with pumped show ?case by blast
  next
    case (stalled w w1 e i)
    then have "stream_idle (inner w1)"
      using pump_frame [OF stalled(3)] by (simp add: ws_idle_def stream_idle_def)
    with stalled(4) tcp.idle_rd tcp.idle_err show ?case by auto
  next
    case (finished w w1 i)
    then have "stream_idle (inner w1)"
      using pump_frame [OF finished(3)] by (simp add: ws_idle_def stream_idle_def)
    with finished(4) tcp.idle_rd show ?case by auto
  next
    case (filled w w1 bs i r w')
    then have "stream_idle (inner w1)"
      using pump_frame [OF filled(3)] by (simp add: ws_idle_def stream_idle_def)
    then have "stream_idle i" using filled(4) tcp.idle_rd by blast
    moreover have "faultless i"
      using filled(7) pump_faultless [OF filled(3) _ filled(2)] faultless_read [OF filled(4)]
      by (simp add: ws_idle_def)
    ultimately show ?case using filled(6) by (simp add: ws_idle_def)
  qed (simp add: ws_idle_def)
  with ws_read_faultless [OF assms(1)] assms(2) show ?thesis by (simp add: ws_idle_def)
qed

interpretation ws: idle_stream ws_read ws_pend ws_steps ws_idle
proof unfold_locales
  fix s n r s' assume "ws_idle s" "ws_read s n = (r, s')"
  then show "ws_idle s'" using ws_read_idle by blast
next
  fix s n e s' assume "ws_idle s" "ws_read s n = (Inl e, s')"
  then show "is_idle_tick e" using ws_read_idle by blast
qed (use ws_read_contract in blast)+


section \<open>Sequences of client frames\<close>

type_synonym frame_spec = "bool \<times> u8 \<times> bytes \<times> bytes"  \<comment> \<open>final, opcode, key, payload\<close>

fun frame_wire :: "frame_spec \<Rightarrow> bytes" where
  "frame_wire (fin, opcode, key, p) = client_frame fin opcode key p"

text \<open>Frames that keep the connection open: data, pings and pongs.\<close>

fun open_frame :: "frame_spec \<Rightarrow> bool" where
  "open_frame (fin, opcode, key, p) \<longleftrightarrow>
     valid_frame fin opcode key p \<and> opcode \<in> {OP_BIN, OP_CONT, OP_PING, OP_PONG}"

fun frame_data :: "frame_spec \<Rightarrow> bytes" where
  "frame_data (fin, opcode, key, p) = (if opcode = OP_BIN \<or> opcode = OP_CONT then p else [])"

fun frame_reply :: "frame_spec \<Rightarrow> bytes" where
  "frame_reply (fin, opcode, key, p) = (if opcode = OP_PING then server_frame OP_PONG p else [])"

lemma parse_open_frame:
  assumes "open_frame f"
  shows "ws_data (frame_wire f @ x) = frame_data f @ ws_data x"
    and "ws_replies closed (frame_wire f @ x) = frame_reply f @ ws_replies closed x"
proof -
  obtain fin opcode key p where f: "f = (fin, opcode, key, p)" by (cases f)
  have v: "valid_frame fin opcode key p" and op: "opcode \<in> {OP_BIN, OP_CONT, OP_PING, OP_PONG}"
    using assms f by auto
  note parse = parse_client [OF v, of x]
  show "ws_data (frame_wire f @ x) = frame_data f @ ws_data x"
    using op parse by (auto simp: f ws_data.simps [of "client_frame fin opcode key p @ x"]
        classify_def op_defs)
  show "ws_replies closed (frame_wire f @ x) = frame_reply f @ ws_replies closed x"
    using op parse by (auto simp: f ws_replies.simps [of closed "client_frame fin opcode key p @ x"]
        classify_def op_defs)
qed

lemma open_frames:
  assumes "list_all open_frame fs"
  shows "ws_data (concat (map frame_wire fs) @ x) = concat (map frame_data fs) @ ws_data x"
    and "ws_replies closed (concat (map frame_wire fs) @ x) =
      concat (map frame_reply fs) @ ws_replies closed x"
  using assms by (induction fs) (simp_all add: parse_open_frame)

lemma ws_data_Nil [simp]: "ws_data [] = []"
  by (simp add: ws_data.simps parse_client_frame_def)

lemma ws_replies_Nil [simp]: "ws_replies closed [] = []"
  by (simp add: ws_replies.simps parse_client_frame_def)


section \<open>Properties of the WebSocket adapter\<close>

text \<open>C12. WebSocket framing is transparent: if a client cuts the bytes of a sequence of envelopes (and
  an incomplete rest) into masked binary and continuation frames anywhere, puts pings and pongs
  between them, and the network delivers the frames in arbitrary pieces with read timeouts
  anywhere, part of them possibly behind the upgrade request, then the frame decoder over the
  adapter returns exactly the frames of these envelopes, in order, and ends with the rest.\<close>

theorem websocket_transparent:
  assumes "list_all sendable es" and "next_frame rest = None" and "list_all open_frame fs"
    and "concat (map frame_data fs) = concat (map encode es) @ rest"
    and "leftover @ stream_pend s = concat (map frame_wire fs)"
    and "stream_idle s" and "faultless s"
  shows "\<exists>frames d. read1_run ws_read decoder_new (ws_new s leftover) [] = Some (Inr (), frames, d) \<and>
    map decode frames = map Some es \<and> buf d = rest"
proof -
  have "ws_pend (ws_new s leftover) = concat (map encode es) @ rest"
    using open_frames(1) [OF assms(3), of "[]"] assms(4,5)
    by (simp add: ws_pend_def ws_rest_def ws_new_def)
  moreover have "ws_idle (ws_new s leftover)" using assms(6,7) by (simp add: ws_idle_def ws_new_def)
  moreover have "0 < chunk_len decoder_new" and "buf decoder_new = []"
    by (simp_all add: decoder_new_def)
  ultimately show ?thesis
    using ws.read1_run_frames [of "ws_new s leftover" decoder_new] split_encoded [OF assms(1,2)]
      map_decode_sendable [OF assms(1)]
    by simp
qed

theorem websocket_transparent_witness:
  "\<exists>frames d.
     read1_run ws_read decoder_new
       (ws_new \<lparr>inbound = [(200, Stall TimedOut), (0, Arrive (drop 3
            (client_frame False OP_BIN [1, 2, 3, 4] [0, 0, 0] @
             client_frame True OP_PING [5, 6, 7, 8] [9] @
             client_frame True OP_CONT [1, 2, 3, 4] [2, 3, 7])))],
          outbound = [], wfaults = [], ffaults = [], clock = 0\<rparr>
          (take 3 (client_frame False OP_BIN [1, 2, 3, 4] [0, 0, 0]))) [] = Some (Inr (), frames, d) \<and>
     map decode frames = map Some [Data [7]] \<and> buf d = []"
  by (rule websocket_transparent [where fs = "[(False, OP_BIN, [1, 2, 3, 4], [0, 0, 0]),
        (True, OP_PING, [5, 6, 7, 8], [9]), (True, OP_CONT, [1, 2, 3, 4], [2, 3, 7])]"])
    (simp_all add: next_frame_def stream_idle_def script_idle_def is_idle_tick_def stream_pend_def
      faultless_def valid_frame_def op_defs client_frame_def client_len_def
      data_def put_len_prefix_def u32_to_be_bytes_def be_digits_eval proto_consts)

text \<open>Control frames: over a connection whose writes succeed, each read sends a prefix of the
  replies due for the frames received so far and still to come, and nothing else; when a read
  reports the end of the stream, every reply has been sent.  The replies due for any frames that
  keep the connection open are one pong per ping, in order, with the ping's payload; a close frame
  after them is echoed once with its code, and nothing behind it is read or answered.\<close>

theorem websocket_replies:
  assumes "ws_read w n = (r, w')" and "faultless (inner w)" and "list_all open_frame fs"
    and "valid_frame True OP_CLOSE key (u16_to_be_bytes code @ reason)"
  shows "outbound (inner w') @ ws_due w' = outbound (inner w) @ ws_due w \<and>
    (r = Inr [] \<and> 0 < n \<longrightarrow> ws_due w' = []) \<and>
    ws_due (ws_new s (concat (map frame_wire fs) @
        client_frame True OP_CLOSE key (u16_to_be_bytes code @ reason) @ junk)) =
      concat (map frame_reply fs) @ server_frame OP_CLOSE (u16_to_be_bytes code) \<and>
    ws_pend (ws_new s (concat (map frame_wire fs) @
        client_frame True OP_CLOSE key (u16_to_be_bytes code @ reason) @ junk)) =
      concat (map frame_data fs)"
proof -
  let ?p = "u16_to_be_bytes code @ reason" and ?x = "junk @ stream_pend s"
  obtain h l where hl: "u16_to_be_bytes code = [h, l]"
    by (simp add: u16_to_be_bytes_def be_digits_2)
  then have code: "u16_from_be_bytes [h, l] = code" by (metis u16_be_roundtrip)
  have "parse_client_frame (client_frame True OP_CLOSE key ?p @ ?x) =
      (PClose code, length (client_frame True OP_CLOSE key ?p))"
    using parse_client [OF assms(4), of ?x] by (simp add: classify_def op_defs hl code)
  then have "ws_data (client_frame True OP_CLOSE key ?p @ ?x) = []"
    "ws_replies False (client_frame True OP_CLOSE key ?p @ ?x) =
      server_frame OP_CLOSE (u16_to_be_bytes code)"
    by (simp_all add: ws_data.simps ws_replies.simps)
  with open_frames [OF assms(3)] ws_read_faultless [OF assms(1,2)] show ?thesis
    by (simp add: ws_due_def ws_pend_def ws_rest_def ws_new_def)
qed

theorem websocket_replies_witness:
  "ws_due (ws_new \<lparr>inbound = [], outbound = [], wfaults = [], ffaults = [], clock = 0\<rparr>
     (client_frame True OP_PING [5, 6, 7, 8] [9] @
      client_frame True OP_CLOSE [1, 2, 3, 4] (u16_to_be_bytes 1001 @ []) @ [0x82])) =
   server_frame OP_PONG [9] @ server_frame OP_CLOSE (u16_to_be_bytes 1001)"
proof -
  let ?s = "\<lparr>inbound = [], outbound = [], wfaults = [], ffaults = [], clock = 0\<rparr>"
  have "ws_read ((ws_new ?s [])\<lparr>eof := True\<rparr>) 1 = (Inr [], (ws_new ?s [])\<lparr>eof := True\<rparr>)"
    by (simp add: ws_read.simps ws_new_def)
  from websocket_replies [OF this, of "[(True, OP_PING, [5, 6, 7, 8], [9])]" "[1, 2, 3, 4]" 1001 "[]"
      ?s "[0x82]"]
  show ?thesis by (simp add: ws_new_def faultless_def valid_frame_def op_defs)
qed

text \<open>Writing: a successful write of a non-empty frame puts exactly one final, unmasked binary frame
  with these bytes behind what was sent before, which a client parses back to them; a failed
  write reports the error of the socket.  The read side of the adapter is not touched.\<close>

theorem websocket_write:
  assumes "d \<noteq> []" and "length d < 2 ^ 64"
  shows "case ws_write_all w d of
      (Inr _, w') \<Rightarrow> outbound (inner w') = outbound (inner w) @ server_frame OP_BIN d \<and>
        (\<forall>rest. server_unframe (server_frame OP_BIN d @ rest) = Some (OP_BIN, d, rest)) \<and>
        ws_pend w' = ws_pend w
    | (Inl e, w') \<Rightarrow> fst (stream_write_all (inner w) (server_frame OP_BIN d)) = Inl e \<and>
        ws_pend w' = ws_pend w"
proof -
  obtain r i where wr: "stream_write_all (inner w) (server_frame OP_BIN d) = (r, i)" by fastforce
  have "stream_pend i = stream_pend (inner w)"
    using stream_write_all_frame [OF wr] by (simp add: stream_pend_def)
  then have "ws_pend (w\<lparr>inner := i\<rparr>) = ws_pend w" by (simp add: ws_pend_def ws_rest_def)
  moreover have "server_unframe (server_frame OP_BIN d @ rest) = Some (OP_BIN, d, rest)" for rest
    using assms(2) by (intro server_unframe_frame) (simp_all add: op_defs)
  ultimately show ?thesis
    using assms(1) wr stream_write_all_ok [of "inner w" "server_frame OP_BIN d"]
    by (cases r) (auto simp: ws_write_all_def ws_write_def)
qed

theorem websocket_write_witness:
  "outbound (inner (snd (ws_write_all (ws_new
     \<lparr>inbound = [], outbound = [1], wfaults = [], ffaults = [], clock = 0\<rparr> []) [7, 8]))) =
   [1] @ server_frame OP_BIN [7, 8]"
  using websocket_write [of "[7, 8]" "ws_new
     \<lparr>inbound = [], outbound = [1], wfaults = [], ffaults = [], clock = 0\<rparr> []"]
  by (simp add: ws_write_all_def ws_write_def ws_new_def stream_write_all_def)

end
