(* ===== verification/Ws_Base64.thy ===== *)
theory Ws_Base64
  imports Aiomsg_Prelude
begin

unbundle bit_operations_syntax

text \<open>
  The hand-written base64 of \<open>rust-lib-sync/src/ws.rs\<close>: the encoder produces the
  \<open>Sec-WebSocket-Accept\<close> header and the decoder validates the client's \<open>Sec-WebSocket-Key\<close>.  A Rust
  \<open>str\<close> is the list of its bytes.
\<close>

definition B64 :: bytes where
  "B64 = ascii ''ABCDEFGHIJKLMNOPQRSTUVWXYZabcdefghijklmnopqrstuvwxyz0123456789+/''"

text \<open>One chunk of \<open>base64_encode\<close>: three bytes (zeros where the chunk is short) as four digits.\<close>

definition b64_group :: "bytes \<Rightarrow> u32" where
  "b64_group chunk =
     (let b0 = chunk ! 0;
          b1 = (if 1 < length chunk then chunk ! 1 else 0);
          b2 = (if 2 < length chunk then chunk ! 2 else 0)
      in push_bit 16 (ucast b0) OR push_bit 8 (ucast b1) OR ucast b2)"

definition b64_chunk :: "bytes \<Rightarrow> bytes" where
  "b64_chunk chunk =
     (let n = b64_group chunk
      in [B64 ! unat (drop_bit 18 n AND 63),
          B64 ! unat (drop_bit 12 n AND 63),
          (if 1 < length chunk then B64 ! unat (drop_bit 6 n AND 63) else 0x3D),
          (if 2 < length chunk then B64 ! unat (n AND 63) else 0x3D)])"

definition base64_encode :: "bytes \<Rightarrow> bytes" where
  "base64_encode d = concat (map b64_chunk (chunks 3 d))"

text \<open>The inner function \<open>val\<close>; the guards are the ranges of the \<open>match\<close>.\<close>

definition b64_val :: "u8 \<Rightarrow> u32 option" where
  "b64_val c =
     (if 0x41 \<le> c \<and> c \<le> 0x5A then Some (ucast (c - 0x41))
      else if 0x61 \<le> c \<and> c \<le> 0x7A then Some (ucast (c - 0x61 + 26))
      else if 0x30 \<le> c \<and> c \<le> 0x39 then Some (ucast (c - 0x30 + 52))
      else if c = 0x2B then Some 62
      else if c = 0x2F then Some 63
      else None)"

definition trim_end_matches :: "u8 \<Rightarrow> bytes \<Rightarrow> bytes" where
  "trim_end_matches c s = rev (dropWhile (\<lambda>x. x = c) (rev s))"

fun b64_loop :: "bytes \<Rightarrow> u32 \<Rightarrow> nat \<Rightarrow> bytes \<Rightarrow> bytes option" where
  "b64_loop [] acc bits out = Some out"
| "b64_loop (c # cs) acc bits out =
     (case b64_val c of
        None \<Rightarrow> None
      | Some v \<Rightarrow>
          let acc' = push_bit 6 acc OR v; bits' = bits + 6
          in if 8 \<le> bits'
             then b64_loop cs acc' (bits' - 8) (out @ [ucast (drop_bit (bits' - 8) acc')])
             else b64_loop cs acc' bits' out)"

definition base64_decode :: "bytes \<Rightarrow> bytes option" where
  "base64_decode s = b64_loop (trim_end_matches 0x3D s) 0 0 []"


section \<open>Decoding inverts encoding\<close>

text \<open>The alphabet and \<open>val\<close> agree on every digit, and the padding is not a digit.\<close>

lemma b64_digits: "\<forall>i < 64. b64_val (B64 ! i) = Some (word_of_nat i)"
  by code_simp

lemma b64_val_digit: "v < 64 \<Longrightarrow> b64_val (B64 ! unat (v :: u32)) = Some v"
  using b64_digits by (simp add: word_less_nat_alt)

lemma b64_val_pad [simp]: "b64_val 0x3D = None"
  by code_simp

lemma digit_not_pad: "v < 64 \<Longrightarrow> B64 ! unat (v :: u32) \<noteq> 0x3D"
  using b64_val_digit b64_val_pad by (metis option.discI)

lemma and_63_less: "(w :: u32) AND 63 < 64"
proof -
  have "w AND mask 6 = take_bit 6 w" by (simp add: take_bit_eq_mask)
  then show ?thesis by (simp add: mask_eq_exp_minus_1 word_less_nat_alt unsigned_take_bit_eq
        take_bit_nat_less_exp [of 6, simplified])
qed

lemma u8_eqI:
  assumes "bit a 0 = bit b 0" "bit a 1 = bit b 1" "bit a 2 = bit b 2" "bit a 3 = bit b 3"
    "bit a 4 = bit b 4" "bit a 5 = bit b 5" "bit a 6 = bit b 6" "bit a 7 = bit b 7"
  shows "(a :: u8) = b"
proof (rule bit_word_eqI)
  fix n assume "n < LENGTH(8)"
  then have "n = 0 \<or> n = 1 \<or> n = 2 \<or> n = 3 \<or> n = 4 \<or> n = 5 \<or> n = 6 \<or> n = 7" by auto
  with assms show "bit a n = bit b n" by blast
qed

lemma bit_u8_out: "8 \<le> n \<Longrightarrow> \<not> bit (b :: u8) n"
  using bit_imp_le_length [of b n] by auto

text \<open>What four digits, or the last two or three, put out, whatever the accumulator held before.\<close>

lemma b64_bytes:
  fixes acc v0 v1 v2 v3 :: u32 and b0 b1 b2 :: u8
  assumes "n = push_bit 16 (ucast b0) OR push_bit 8 (ucast b1) OR ucast b2"
    and "v0 = drop_bit 18 n AND 63" and "v1 = drop_bit 12 n AND 63"
    and "v2 = drop_bit 6 n AND 63" and "v3 = n AND 63"
  shows "ucast (drop_bit 4 (push_bit 6 (push_bit 6 acc OR v0) OR v1)) = b0"
    and "ucast (drop_bit 2 (push_bit 6 (push_bit 6 (push_bit 6 acc OR v0) OR v1) OR v2)) = b1"
    and "ucast (push_bit 6 (push_bit 6 (push_bit 6 (push_bit 6 acc OR v0) OR v1) OR v2) OR v3) = b2"
proof -
  have 63: "(63 :: u32) = mask 6" by (simp add: mask_eq_exp_minus_1)
  show "ucast (drop_bit 4 (push_bit 6 (push_bit 6 acc OR v0) OR v1)) = b0"
    unfolding assms 63 by (rule u8_eqI) (simp_all add: bit_simps bit_u8_out)
  show "ucast (drop_bit 2 (push_bit 6 (push_bit 6 (push_bit 6 acc OR v0) OR v1) OR v2)) = b1"
    unfolding assms 63 by (rule u8_eqI) (simp_all add: bit_simps bit_u8_out)
  show "ucast (push_bit 6 (push_bit 6 (push_bit 6 (push_bit 6 acc OR v0) OR v1) OR v2) OR v3) = b2"
    unfolding assms 63 by (rule u8_eqI) (simp_all add: bit_simps bit_u8_out)
qed

lemma b64_loop_digit:
  assumes "v < 64"
  shows "b64_loop (B64 ! unat (v :: u32) # cs) acc bits out =
    (let acc' = push_bit 6 acc OR v
     in if 2 \<le> bits
        then b64_loop cs acc' (bits - 2) (out @ [ucast (drop_bit (bits - 2) acc')])
        else b64_loop cs acc' (bits + 6) out)"
  using assms by (simp add: b64_val_digit Let_def)

text \<open>A chunk is digits followed by padding, and the loop turns the digits back into the chunk.\<close>

lemma b64_chunk_loop:
  assumes "chunk \<noteq> []" and "length chunk \<le> 3"
  shows "\<exists>ds pads. b64_chunk chunk = ds @ pads \<and> set pads \<subseteq> {0x3D} \<and> 0x3D \<notin> set ds \<and>
    (length chunk = 3 \<longrightarrow> pads = []) \<and>
    (\<forall>acc out. \<exists>acc' bits. (length chunk = 3 \<longrightarrow> bits = 0) \<and>
      (\<forall>cs. b64_loop (ds @ cs) acc 0 out = b64_loop cs acc' bits (out @ chunk)))"
proof -
  define b1 where "b1 = (if 1 < length chunk then chunk ! 1 else 0)"
  define b2 where "b2 = (if 2 < length chunk then chunk ! 2 else 0)"
  let ?n = "b64_group chunk"
  have n: "?n = push_bit 16 (ucast (chunk ! 0)) OR push_bit 8 (ucast b1) OR ucast b2"
    by (simp add: b64_group_def b1_def b2_def)
  note bytes = b64_bytes [OF n refl refl refl refl]
  define v0 v1 v2 v3 where v: "v0 = drop_bit 18 ?n AND 63" "v1 = drop_bit 12 ?n AND 63"
    "v2 = drop_bit 6 ?n AND 63" "v3 = ?n AND 63"
  have lt: "v0 < 64" "v1 < 64" "v2 < 64" "v3 < 64" by (simp_all add: v and_63_less)
  let ?d = "\<lambda>v. B64 ! unat (v :: u32)"
  have chunk: "b64_chunk chunk = [?d v0, ?d v1, (if 1 < length chunk then ?d v2 else 0x3D),
      (if 2 < length chunk then ?d v3 else 0x3D)]"
    by (simp add: b64_chunk_def v Let_def)
  note steps = lt b64_loop_digit digit_not_pad not_sym [OF digit_not_pad] bytes [folded v]
  consider x where "chunk = [x]" | x y where "chunk = [x, y]" | x y z where "chunk = [x, y, z]"
    using assms by (cases chunk rule: remdups_adj.cases) (auto simp: le_Suc_eq length_Suc_conv)
  then show ?thesis
  proof cases
    case 1
    have "b64_chunk chunk = [?d v0, ?d v1] @ [0x3D, 0x3D]" unfolding chunk using 1 by simp
    moreover have "b64_loop ([?d v0, ?d v1] @ cs) acc 0 out =
        b64_loop cs (push_bit 6 (push_bit 6 acc OR v0) OR v1) 4 (out @ chunk)" for acc out cs
      using 1 by (simp add: steps Let_def
          del: push_bit_or push_bit_push_bit drop_bit_or unsigned_or_eq b64_loop.simps(2))
    ultimately show ?thesis using 1 steps
      by (intro exI [of _ "[?d v0, ?d v1]"] exI [of _ "[0x3D, 0x3D]"]) (auto simp: steps)
  next
    case 2
    have "b64_chunk chunk = [?d v0, ?d v1, ?d v2] @ [0x3D]" unfolding chunk using 2 by simp
    moreover have "b64_loop ([?d v0, ?d v1, ?d v2] @ cs) acc 0 out =
        b64_loop cs (push_bit 6 (push_bit 6 (push_bit 6 acc OR v0) OR v1) OR v2) 2 (out @ chunk)"
      for acc out cs
      using 2 by (simp add: steps Let_def b1_def
          del: push_bit_or push_bit_push_bit drop_bit_or unsigned_or_eq b64_loop.simps(2))
    ultimately show ?thesis using 2
      by (intro exI [of _ "[?d v0, ?d v1, ?d v2]"] exI [of _ "[0x3D]"]) (auto simp: steps)
  next
    case 3
    have "b64_chunk chunk = [?d v0, ?d v1, ?d v2, ?d v3] @ []" unfolding chunk using 3 by simp
    moreover have "b64_loop ([?d v0, ?d v1, ?d v2, ?d v3] @ cs) acc 0 out = b64_loop cs
        (push_bit 6 (push_bit 6 (push_bit 6 (push_bit 6 acc OR v0) OR v1) OR v2) OR v3) 0 (out @ chunk)"
      for acc out cs
      using 3 by (simp add: steps Let_def b1_def b2_def
          del: push_bit_or push_bit_push_bit drop_bit_or unsigned_or_eq b64_loop.simps(2))
    ultimately show ?thesis using 3
      by (intro exI [of _ "[?d v0, ?d v1, ?d v2, ?d v3]"] exI [of _ "[]"]) (auto simp: steps)
  qed
qed

lemma base64_encode_digits:
  "\<exists>ds pads. base64_encode d = ds @ pads \<and> set pads \<subseteq> {0x3D} \<and> 0x3D \<notin> set ds \<and>
    (\<forall>acc out. b64_loop ds acc 0 out = Some (out @ d))"
proof (induction d rule: length_induct)
  case (1 d)
  show ?case
  proof (cases "d = []")
    case True
    then show ?thesis by (intro exI [of _ "[]"]) (simp add: base64_encode_def)
  next
    case False
    have enc: "base64_encode d = b64_chunk (take 3 d) @ base64_encode (drop 3 d)"
      using False by (simp add: base64_encode_def chunks_take)
    obtain ds pads where c: "b64_chunk (take 3 d) = ds @ pads" "set pads \<subseteq> {0x3D}" "0x3D \<notin> set ds"
        "length (take 3 d) = 3 \<longrightarrow> pads = []"
      and loop: "\<And>acc out. \<exists>acc' bits. (length (take 3 d) = 3 \<longrightarrow> bits = 0) \<and>
        (\<forall>cs. b64_loop (ds @ cs) acc 0 out = b64_loop cs acc' bits (out @ take 3 d))"
      using b64_chunk_loop [of "take 3 d"] False by auto
    show ?thesis
    proof (cases "length d < 3")
      case True
      then have "take 3 d = d" "drop 3 d = []" by simp_all
      moreover have "b64_loop ds acc 0 out = Some (out @ d)" for acc out
        using loop [of acc out] calculation by (metis append_Nil2 b64_loop.simps(1))
      moreover have "base64_encode [] = []" by (simp add: base64_encode_def)
      ultimately show ?thesis using c enc by auto
    next
      case False
      then have three: "length (take 3 d) = 3" by simp
      have "length (drop 3 d) < length d" using False by simp
      with 1 obtain ds' pads' where r: "base64_encode (drop 3 d) = ds' @ pads'"
          "set pads' \<subseteq> {0x3D}" "0x3D \<notin> set ds'"
        and loop': "\<And>acc out. b64_loop ds' acc 0 out = Some (out @ drop 3 d)"
        by blast
      have "b64_loop (ds @ ds') acc 0 out = Some (out @ d)" for acc out
        using loop [of acc out] loop' three by auto
      with c r enc three show ?thesis
        by (intro exI [of _ "ds @ ds'"] exI [of _ pads']) auto
    qed
  qed
qed

lemma trim_end_matches_append:
  "set pads \<subseteq> {c} \<Longrightarrow> c \<notin> set ds \<Longrightarrow> trim_end_matches c (ds @ pads) = ds"
proof -
  assume "set pads \<subseteq> {c}" "c \<notin> set ds"
  then have "dropWhile (\<lambda>x. x = c) (rev pads @ rev ds) = rev ds"
    by (subst dropWhile_append2) (auto simp: dropWhile_eq_self_iff hd_rev last_in_set)
  then show ?thesis by (simp add: trim_end_matches_def)
qed

lemma b64_loop_length:
  "b64_loop cs acc bits out = Some r \<Longrightarrow> bits < 8 \<Longrightarrow>
   length r = length out + (bits + 6 * length cs) div 8"
  by (induction cs acc bits out rule: b64_loop.induct)
    (auto simp: Let_def split: option.splits if_splits)

text \<open>Decoding inverts encoding for every byte string: the encoder's padding is stripped by the
  decoder and the bits that the decoder shifts out of its 32-bit accumulator are never read.\<close>

theorem base64_roundtrip: "base64_decode (base64_encode d) = Some d"
proof -
  obtain ds pads where "base64_encode d = ds @ pads" "set pads \<subseteq> {0x3D}" "0x3D \<notin> set ds"
    "\<And>acc out. b64_loop ds acc 0 out = Some (out @ d)"
    using base64_encode_digits by blast
  then show ?thesis by (simp add: base64_decode_def trim_end_matches_append)
qed

text \<open>A decoded string has as many bytes as its digits have whole octets.\<close>

lemma base64_decode_length:
  "base64_decode s = Some r \<Longrightarrow> length r = 6 * length (trim_end_matches 0x3D s) div 8"
  using b64_loop_length [of "trim_end_matches 0x3D s" 0 0 "[]" r] by (simp add: base64_decode_def)

end
