(* ===== verification/Ws_Sha1.thy ===== *)
theory Ws_Sha1
  imports Ws_Base64
begin

text \<open>
  The hand-written streaming SHA-1 of \<open>rust-lib-sync/src/ws.rs\<close> (\<open>struct Sha1\<close>) and \<open>accept_key\<close>.

  The array \<open>[u32; 5]\<close> is a quintuple.  \<open>update\<close> fills a block of 64 bytes and compresses it when it
  is full; \<open>fill\<close> is always below 64, and the guards \<open>64 \<le> fill\<close> below only make the functions total
  in HOL.  The specification is the one-shot algorithm of FIPS 180-4: pad the message, cut it into
  blocks, compress them in order.
\<close>

type_synonym sha_words = "u32 \<times> u32 \<times> u32 \<times> u32 \<times> u32"

record sha1 =
  sha_state :: sha_words
  sha_len :: u64
  block :: bytes
  fill :: nat

definition sha1_new :: sha1 where
  "sha1_new =
     \<lparr>sha_state = (0x67452301, 0xEFCDAB89, 0x98BADCFE, 0x10325476, 0xC3D2E1F0),
      sha_len = 0, block = replicate 64 0, fill = 0\<rparr>"

definition chunks_exact :: "nat \<Rightarrow> 'a list \<Rightarrow> 'a list list" where
  "chunks_exact n xs = filter (\<lambda>c. length c = n) (chunks n xs)"

text \<open>The array \<open>w\<close> of \<open>process_block\<close>: 16 words of the block, then the expansion.\<close>

definition sha1_expand :: "nat \<Rightarrow> u32 list \<Rightarrow> u32 list" where
  "sha1_expand i w =
     w[i := word_rotl 1 (w ! (i - 3) XOR w ! (i - 8) XOR w ! (i - 14) XOR w ! (i - 16))]"

definition sha1_schedule :: "bytes \<Rightarrow> u32 list" where
  "sha1_schedule bl =
     (let ws = map u32_from_be_bytes (chunks_exact 4 bl)
      in fold sha1_expand [16..<80] (ws @ replicate (80 - length ws) 0))"

definition sha1_round :: "nat \<times> u32 \<Rightarrow> sha_words \<Rightarrow> sha_words" where
  "sha1_round iw st =
     (case (iw, st) of ((i, word), a, b, c, d, e) \<Rightarrow>
        let (f, k) =
              (if i \<le> 19 then ((b AND c) OR (NOT b AND d), 0x5A827999)
               else if i \<le> 39 then (b XOR c XOR d, 0x6ED9EBA1)
               else if i \<le> 59 then ((b AND c) OR (b AND d) OR (c AND d), 0x8F1BBCDC)
               else (b XOR c XOR d, 0xCA62C1D6));
            tmp = word_rotl 5 a + f + e + k + word
        in (tmp, a, word_rotl 30 b, c, d))"

definition sha1_compress :: "bytes \<Rightarrow> sha_words \<Rightarrow> sha_words" where
  "sha1_compress bl st =
     (case fold sha1_round (enumerate 0 (sha1_schedule bl)) st of (a, b, c, d, e) \<Rightarrow>
      case st of (s0, s1, s2, s3, s4) \<Rightarrow> (s0 + a, s1 + b, s2 + c, s3 + d, s4 + e))"

definition process_block :: "sha1 \<Rightarrow> sha1" where
  "process_block h = h\<lparr>sha_state := sha1_compress (block h) (sha_state h)\<rparr>"

function sha1_absorb :: "bytes \<Rightarrow> sha1 \<Rightarrow> sha1" where
  "sha1_absorb d h =
     (if d = [] \<or> 64 \<le> fill h then h
      else
        let tk = min (64 - fill h) (length d);
            h1 = h\<lparr>block := take (fill h) (block h) @ take tk d @ drop (fill h + tk) (block h),
                   fill := fill h + tk\<rparr>;
            h2 = (if fill h1 = 64 then (process_block h1)\<lparr>fill := 0\<rparr> else h1)
        in sha1_absorb (drop tk d) h2)"
  by pat_completeness auto
termination
  by (relation "measure (\<lambda>(d, h). length d)") auto

declare sha1_absorb.simps [simp del]

definition sha1_update :: "bytes \<Rightarrow> sha1 \<Rightarrow> sha1" where
  "sha1_update d h = sha1_absorb d (h\<lparr>sha_len := sha_len h + word_of_nat (length d)\<rparr>)"

text \<open>A byte moves the fill to its successor modulo 64, so the padding loop of \<open>finish\<close> ends.\<close>

lemma sha1_absorb_byte:
  "fill h < 64 \<Longrightarrow> fill (sha1_absorb [b] h) = (if fill h = 63 then 0 else fill h + 1)"
  by (simp add: sha1_absorb.simps Let_def process_block_def)

lemma sha1_update_byte:
  "fill h < 64 \<Longrightarrow> fill (sha1_update [b] h) = (if fill h = 63 then 0 else fill h + 1)"
  by (simp add: sha1_update_def sha1_absorb_byte)

function sha1_pad_zeros :: "sha1 \<Rightarrow> sha1" where
  "sha1_pad_zeros h =
     (if fill h = 56 \<or> 64 \<le> fill h then h else sha1_pad_zeros (sha1_update [0x00] h))"
  by pat_completeness auto
termination
  by (relation "measure (\<lambda>h. (120 - fill h) mod 64)")
    (auto simp: sha1_update_byte not_le mod_if)

declare sha1_pad_zeros.simps [simp del]

definition sha1_words_bytes :: "sha_words \<Rightarrow> bytes" where
  "sha1_words_bytes st =
     (case st of (s0, s1, s2, s3, s4) \<Rightarrow> concat (map u32_to_be_bytes [s0, s1, s2, s3, s4]))"

definition sha1_finish :: "sha1 \<Rightarrow> bytes" where
  "sha1_finish h =
     (let bit_len = sha_len h * 8;
          h1 = sha1_update [0x80] h;
          h2 = sha1_pad_zeros h1;
          h3 = sha1_update (u64_to_be_bytes bit_len) h2
      in sha1_words_bytes (sha_state h3))"

definition WS_GUID :: bytes where
  "WS_GUID = ascii ''258EAFA5-E914-47DA-95CA-C5AB0DC85B11''"

definition accept_key :: "bytes \<Rightarrow> bytes" where
  "accept_key key =
     (let hasher = sha1_new;
          hasher = sha1_update key hasher;
          hasher = sha1_update WS_GUID hasher
      in base64_encode (sha1_finish hasher))"


section \<open>The specification: FIPS 180-4\<close>

function fips_W :: "(nat \<Rightarrow> u32) \<Rightarrow> nat \<Rightarrow> u32" where
  "fips_W M t =
     (if t < 16 then M t
      else word_rotl 1 (fips_W M (t - 3) XOR fips_W M (t - 8) XOR fips_W M (t - 14) XOR fips_W M (t - 16)))"
  by pat_completeness auto
termination
  by (relation "measure snd") auto

declare fips_W.simps [simp del]

definition fips_f :: "nat \<Rightarrow> u32 \<Rightarrow> u32 \<Rightarrow> u32 \<Rightarrow> u32" where
  "fips_f t x y z =
     (if t < 20 then (x AND y) XOR (NOT x AND z)
      else if 40 \<le> t \<and> t < 60 then (x AND y) XOR (x AND z) XOR (y AND z)
      else x XOR y XOR z)"

definition fips_K :: "nat \<Rightarrow> u32" where
  "fips_K t =
     (if t < 20 then 0x5A827999 else if t < 40 then 0x6ED9EBA1
      else if t < 60 then 0x8F1BBCDC else 0xCA62C1D6)"

fun fips_vars :: "(nat \<Rightarrow> u32) \<Rightarrow> nat \<Rightarrow> sha_words \<Rightarrow> sha_words" where
  "fips_vars W 0 st = st"
| "fips_vars W (Suc t) st =
     (case fips_vars W t st of (a, b, c, d, e) \<Rightarrow>
        (word_rotl 5 a + fips_f t b c d + e + fips_K t + W t, a, word_rotl 30 b, c, d))"

definition fips_block :: "bytes \<Rightarrow> sha_words \<Rightarrow> sha_words" where
  "fips_block bl H =
     (case H of (h0, h1, h2, h3, h4) \<Rightarrow>
      case fips_vars (fips_W (\<lambda>t. u32_from_be_bytes (take 4 (drop (4 * t) bl)))) 80 H of
        (a, b, c, d, e) \<Rightarrow> (a + h0, b + h1, c + h2, d + h3, e + h4))"

definition fips_pad :: "bytes \<Rightarrow> bytes" where
  "fips_pad msg =
     msg @ [0x80] @ replicate ((119 - length msg mod 64) mod 64) 0 @
     u64_to_be_bytes (word_of_nat (8 * length msg))"

definition fips_sha1 :: "bytes \<Rightarrow> bytes" where
  "fips_sha1 msg =
     sha1_words_bytes (fold fips_block (chunks 64 (fips_pad msg))
       (0x67452301, 0xEFCDAB89, 0x98BADCFE, 0x10325476, 0xC3D2E1F0))"


section \<open>The compression function\<close>

lemma chunks_map_upt:
  "0 < n \<Longrightarrow> length xs = n * k \<Longrightarrow> chunks n xs = map (\<lambda>i. take n (drop (n * i) xs)) [0..<k]"
proof (induction k arbitrary: xs)
  case 0
  then show ?case by simp
next
  case (Suc k)
  have "chunks n xs = take n xs # chunks n (drop n xs)"
    using Suc.prems by (intro chunks_take) auto
  also have "chunks n (drop n xs) = map (\<lambda>i. take n (drop (n * i) (drop n xs))) [0..<k]"
    using Suc.prems by (intro Suc.IH) auto
  also have "take n xs # \<dots> = map (\<lambda>i. take n (drop (n * i) xs)) (0 # map Suc [0..<k])"
    by (simp add: add.commute)
  also have "0 # map Suc [0..<k] = [0..<Suc k]" by (simp add: map_Suc_upt upt_conv_Cons del: upt_Suc)
  finally show ?case .
qed

lemma chunks_exact_block:
  "length bl = 64 \<Longrightarrow> chunks_exact 4 bl = map (\<lambda>t. take 4 (drop (4 * t) bl)) [0..<16]"
  by (simp add: chunks_exact_def chunks_map_upt [of 4 bl 16] filter_True del: upt_rec_numeral)

lemma sha1_expand_upto:
  assumes "length ws = 16" and "\<And>t. t < 16 \<Longrightarrow> ws ! t = M t" and "16 \<le> n" and "n \<le> 80"
  shows "length (fold sha1_expand [16..<n] (ws @ replicate 64 0)) = 80 \<and>
    (\<forall>t < n. fold sha1_expand [16..<n] (ws @ replicate 64 0) ! t = fips_W M t)"
  using assms(3,4)
proof (induction n rule: nat_induct_at_least)
  case base
  then show ?case
    using assms(1,2) by (auto simp: nth_append fips_W.simps)
next
  case (Suc n)
  let ?w = "fold sha1_expand [16..<n] (ws @ replicate 64 0)"
  have IH: "length ?w = 80" "\<And>t. t < n \<Longrightarrow> ?w ! t = fips_W M t" using Suc by auto
  have up: "[16..<Suc n] = [16..<n] @ [n]" using Suc.hyps by simp
  have w: "fold sha1_expand [16..<Suc n] (ws @ replicate 64 0) = sha1_expand n ?w"
    unfolding up by simp
  have "sha1_expand n ?w ! t = fips_W M t" if "t < Suc n" for t
    using that IH Suc.hyps Suc.prems
    by (cases "t = n") (simp_all add: sha1_expand_def fips_W.simps [of M n])
  with IH(1) show ?case unfolding w by (simp add: sha1_expand_def)
qed

lemma sha1_schedule_spec:
  assumes "length bl = 64"
  shows "sha1_schedule bl = map (fips_W (\<lambda>t. u32_from_be_bytes (take 4 (drop (4 * t) bl)))) [0..<80]"
proof (rule nth_equalityI)
  let ?M = "\<lambda>t. u32_from_be_bytes (take 4 (drop (4 * t) bl))"
  let ?ws = "map ?M [0..<16]"
  have ws: "map u32_from_be_bytes (chunks_exact 4 bl) = ?ws"
    by (simp add: chunks_exact_block [OF assms] del: upt_rec_numeral)
  have nth: "?ws ! t = ?M t" if "t < 16" for t using that by (simp del: upt_rec_numeral)
  have "length ?ws = 16" by simp
  have ex: "length (fold sha1_expand [16..<80] (?ws @ replicate 64 0)) = 80"
    "\<And>t. t < 80 \<Longrightarrow> fold sha1_expand [16..<80] (?ws @ replicate 64 0) ! t = fips_W ?M t"
    using sha1_expand_upto [OF \<open>length ?ws = 16\<close> nth, of 80] by (simp_all del: upt_rec_numeral)
  show "length (sha1_schedule bl) = length (map (fips_W ?M) [0..<80])"
    using ex by (simp add: sha1_schedule_def ws del: upt_rec_numeral)
  fix t assume "t < length (sha1_schedule bl)"
  then show "sha1_schedule bl ! t = map (fips_W ?M) [0..<80] ! t"
    using ex by (simp add: sha1_schedule_def ws del: upt_rec_numeral)
qed

text \<open>The source writes the choice and the majority with \<open>|\<close>, the standard with exclusive or.\<close>

lemma choose_xor: "(b AND c) OR (NOT b AND d) = (b AND c) XOR (NOT b AND (d :: u32))"
  by (rule bit_word_eqI) (auto simp: bit_simps)

lemma majority_xor: "(b AND c) OR (b AND d) OR (c AND d) = (b AND c) XOR (b AND d) XOR (c AND (d :: u32))"
  by (rule bit_word_eqI) (auto simp: bit_simps)

lemma sha1_rounds:
  "fold sha1_round (enumerate 0 (map W [0..<n])) st = fips_vars W n st"
proof (induction n)
  case 0
  then show ?case by simp
next
  case (Suc n)
  then show ?case
    by (auto simp: enumerate_append_eq sha1_round_def fips_f_def fips_K_def choose_xor majority_xor
        split: prod.split)
qed

lemma sha1_compress_spec: "length bl = 64 \<Longrightarrow> sha1_compress bl st = fips_block bl st"
  by (simp add: sha1_compress_def fips_block_def sha1_schedule_spec sha1_rounds add.commute
      split: prod.split del: upt_rec_numeral)


section \<open>The streaming state\<close>

lemma chunks_append_dvd:
  "0 < n \<Longrightarrow> n dvd length xs \<Longrightarrow> chunks n (xs @ ys) = chunks n xs @ chunks n ys"
proof (induction xs rule: length_induct)
  case (1 xs)
  show ?case
  proof (cases "xs = []")
    case True
    then show ?thesis by simp
  next
    case False
    with 1 have le: "n \<le> length xs" by (auto dest: dvd_imp_le)
    have "chunks n (drop n xs @ ys) = chunks n (drop n xs) @ chunks n ys"
      using 1 False le by (intro 1(1) [rule_format]) auto
    with 1 False le show ?thesis
      by (simp add: chunks_take [of n "xs @ ys"] chunks_take [of n xs])
  qed
qed

text \<open>\<open>sha1_holds msg h\<close>: the hasher has absorbed the message \<open>msg\<close>.\<close>

definition sha1_holds :: "bytes \<Rightarrow> sha1 \<Rightarrow> bool" where
  "sha1_holds msg h \<longleftrightarrow>
     (\<exists>full part. msg = full @ part \<and> 64 dvd length full \<and> length part < 64 \<and>
        fill h = length part \<and> length (block h) = 64 \<and> take (fill h) (block h) = part \<and>
        sha_state h = fold fips_block (chunks 64 full) (sha_state sha1_new))"

lemma sha1_holds_new: "sha1_holds [] sha1_new"
  by (simp add: sha1_holds_def sha1_new_def)

lemma sha1_holds_fill: "sha1_holds msg h \<Longrightarrow> fill h = length msg mod 64"
  by (auto simp: sha1_holds_def)

lemma sha1_holds_full:
  assumes "sha1_holds msg h" and "length msg mod 64 = 0"
  shows "sha_state h = fold fips_block (chunks 64 msg) (sha_state sha1_new)"
proof -
  obtain full part where h: "msg = full @ part" "fill h = length part"
    "sha_state h = fold fips_block (chunks 64 full) (sha_state sha1_new)"
    using assms(1) unfolding sha1_holds_def by blast
  then have "part = []" using sha1_holds_fill [OF assms(1)] assms(2) by simp
  with h show ?thesis by simp
qed

lemma sha1_holds_len [simp]: "sha1_holds msg (h\<lparr>sha_len := n\<rparr>) = sha1_holds msg h"
  by (simp add: sha1_holds_def)

lemma sha1_absorb_holds:
  "sha1_holds msg h \<Longrightarrow>
   sha1_holds (msg @ d) (sha1_absorb d h) \<and> sha_len (sha1_absorb d h) = sha_len h"
proof (induction d h arbitrary: msg rule: sha1_absorb.induct)
  case (1 d h)
  obtain full part where h: "msg = full @ part" "64 dvd length full" "length part < 64"
    "fill h = length part" "length (block h) = 64" "take (fill h) (block h) = part"
    "sha_state h = fold fips_block (chunks 64 full) (sha_state sha1_new)"
    using 1(2) unfolding sha1_holds_def by blast
  show ?case
  proof (cases "d = []")
    case True
    with 1(2) show ?thesis by (simp add: sha1_absorb.simps)
  next
    case False
    define tk where "tk = min (64 - fill h) (length d)"
    define h1 where "h1 = h\<lparr>block := take (fill h) (block h) @ take tk d @ drop (fill h + tk) (block h),
      fill := fill h + tk\<rparr>"
    define h2 where "h2 = (if fill h1 = 64 then (process_block h1)\<lparr>fill := 0\<rparr> else h1)"
    have rec: "sha1_absorb d h = sha1_absorb (drop tk d) h2"
      using False h(3,4) by (subst sha1_absorb.simps) (simp add: tk_def h1_def h2_def Let_def)
    have tk: "tk \<le> length d" "fill h + tk \<le> 64" using h(3,4) by (simp_all add: tk_def)
    have len: "length (block h1) = 64" and pre: "take (fill h1) (block h1) = part @ take tk d"
      using h tk by (simp_all add: h1_def)
    have "sha1_holds (msg @ take tk d) h2 \<and> sha_len h2 = sha_len h"
    proof (cases "fill h1 = 64")
      case True
      with len pre have bl: "block h1 = part @ take tk d" by simp
      have "sha_state h2 = fold fips_block (chunks 64 (full @ block h1)) (sha_state sha1_new)"
        using True h len
        by (simp add: h2_def process_block_def sha1_compress_spec h1_def chunks_append_dvd
            chunks_append [of 64 _ "[]", simplified])
      then show ?thesis unfolding sha1_holds_def
        using True h len bl by (auto simp: h2_def process_block_def h1_def)
    next
      case False
      then show ?thesis unfolding sha1_holds_def
        using h tk len pre by (auto simp: h2_def h1_def)
    qed
    with 1(1) [of tk h1 h2 "msg @ take tk d"] False h show ?thesis
      by (simp add: rec tk_def h1_def h2_def)
  qed
qed

lemma sha1_update_holds:
  "sha1_holds msg h \<Longrightarrow> sha1_holds (msg @ d) (sha1_update d h) \<and>
     sha_len (sha1_update d h) = sha_len h + word_of_nat (length d)"
  using sha1_absorb_holds [of msg "h\<lparr>sha_len := sha_len h + word_of_nat (length d)\<rparr>" d]
  by (simp add: sha1_update_def)

lemma pad_count: "l < 64 \<Longrightarrow> (120 - l) mod 64 = (if l \<le> 56 then 56 - l else 120 - l)" for l :: nat
  by (auto simp: mod_if)

lemma pad_step:
  fixes l :: nat
  assumes "l < 64" and "l \<noteq> 56"
  shows "Suc ((120 - (if l = 63 then 0 else Suc l)) mod 64) = (120 - l) mod 64"
  using assms pad_count [of l] pad_count [of "Suc l"] by (auto split: if_splits)

lemma pad_total: "(n + (9 + (119 - n mod 64) mod 64)) mod 64 = 0" for n :: nat
proof -
  have l: "(l + (9 + (119 - l) mod 64)) mod 64 = 0" if "l < 64" for l :: nat
  proof (cases "l \<le> 55")
    case True
    then have "(119 - l) mod 64 = 55 - l" by (auto simp: mod_if)
    with True show ?thesis by simp
  next
    case False
    with that have "(119 - l) mod 64 = 119 - l" by simp
    with False that show ?thesis by simp
  qed
  have "(n + (9 + (119 - n mod 64) mod 64)) mod 64 = (n mod 64 + (9 + (119 - n mod 64) mod 64)) mod 64"
    by (simp only: mod_add_left_eq)
  also have "\<dots> = 0" by (rule l) simp
  finally show ?thesis .
qed

lemma sha1_pad_zeros_holds:
  "sha1_holds msg h \<Longrightarrow>
   sha1_holds (msg @ replicate ((120 - length msg mod 64) mod 64) 0) (sha1_pad_zeros h)"
proof (induction h arbitrary: msg rule: sha1_pad_zeros.induct)
  case (1 h)
  let ?l = "length msg mod 64"
  have fill: "fill h = ?l" and lt: "?l < 64" using sha1_holds_fill [OF 1(2)] by simp_all
  show ?case
  proof (cases "?l = 56")
    case True
    with 1(2) fill show ?thesis by (simp add: sha1_pad_zeros.simps)
  next
    case False
    have "sha1_holds (msg @ [0]) (sha1_update [0] h)" using sha1_update_holds 1(2) by blast
    then have "sha1_holds ((msg @ [0]) @ replicate ((120 - length (msg @ [0]) mod 64) mod 64) 0)
        (sha1_pad_zeros (sha1_update [0] h))"
      using False fill lt by (intro 1(1)) auto
    moreover have "length (msg @ [0]) mod 64 = (if ?l = 63 then 0 else Suc ?l)"
      by (simp add: mod_Suc)
    then have "Suc ((120 - length (msg @ [0]) mod 64) mod 64) = (120 - ?l) mod 64"
      by (simp only: pad_step [OF lt False])
    then have "[0] @ replicate ((120 - length (msg @ [0]) mod 64) mod 64) 0 =
        replicate ((120 - ?l) mod 64) 0"
      by (metis append_Cons append_Nil replicate_Suc)
    ultimately have "sha1_holds (msg @ replicate ((120 - ?l) mod 64) 0)
        (sha1_pad_zeros (sha1_update [0] h))"
      by (metis append_assoc)
    moreover have "sha1_pad_zeros h = sha1_pad_zeros (sha1_update [0] h)"
      using False fill lt by (simp add: sha1_pad_zeros.simps [of h])
    ultimately show ?thesis by simp
  qed
qed

lemma sha1_finish_spec:
  assumes h: "sha1_holds msg h" and len: "sha_len h = word_of_nat (length msg)"
  shows "sha1_finish h = fips_sha1 msg"
proof -
  let ?m = "msg @ [0x80]" and ?z = "(119 - length msg mod 64) mod 64"
  let ?b = "u64_to_be_bytes (sha_len h * 8)"
  let ?h3 = "sha1_update ?b (sha1_pad_zeros (sha1_update [0x80] h))"
  have "(120 - length ?m mod 64) mod 64 = ?z"
  proof (cases "length msg mod 64 = 63")
    case True
    then have "length ?m mod 64 = 0" by (simp add: mod_Suc)
    with True show ?thesis by simp
  qed (simp add: mod_Suc)
  then have "sha1_holds (?m @ replicate ?z 0) (sha1_pad_zeros (sha1_update [0x80] h))"
    using sha1_pad_zeros_holds sha1_update_holds [OF h] by metis
  then have "sha1_holds ((?m @ replicate ?z 0) @ ?b) ?h3" using sha1_update_holds by blast
  moreover have pad: "(?m @ replicate ?z 0) @ ?b = fips_pad msg"
    by (simp add: fips_pad_def len mult.commute)
  ultimately have h3: "sha1_holds (fips_pad msg) ?h3" by simp
  have "length (fips_pad msg) mod 64 = 0"
    using pad_total [of "length msg"] by (simp add: fips_pad_def add.commute add.left_commute)
  with h3 have "sha_state ?h3 = fold fips_block (chunks 64 (fips_pad msg)) (sha_state sha1_new)"
    by (rule sha1_holds_full)
  then show ?thesis
    by (simp add: sha1_finish_def fips_sha1_def sha1_new_def Let_def)
qed

lemma sha1_updates_holds:
  "sha1_holds msg h \<Longrightarrow> sha_len h = word_of_nat (length msg) \<Longrightarrow>
   sha1_holds (msg @ concat ds) (fold sha1_update ds h) \<and>
   sha_len (fold sha1_update ds h) = word_of_nat (length (msg @ concat ds))"
proof (induction ds arbitrary: msg h)
  case Nil
  then show ?case by simp
next
  case (Cons d ds)
  from sha1_update_holds [OF Cons.prems(1), of d] Cons.IH [of "msg @ d" "sha1_update d h"] Cons.prems(2)
  show ?case by simp
qed

text \<open>C14. The streaming hasher computes SHA-1: however a message is split over calls of \<open>update\<close>,
  \<open>finish\<close> returns the digest that FIPS 180-4 defines for the whole message, padding and message
  schedule included (the standard's exclusive-or forms of the choice and majority functions and its
  recursive schedule, where the source uses disjunctions and an array).\<close>

theorem sha1_streaming: "sha1_finish (fold sha1_update pieces sha1_new) = fips_sha1 (concat pieces)"
  using sha1_updates_holds [OF sha1_holds_new, of pieces]
  by (intro sha1_finish_spec) (simp_all add: sha1_new_def)

text \<open>The accept key is the base64 of the digest of the key and the GUID.\<close>

lemma accept_key_spec: "accept_key key = base64_encode (fips_sha1 (key @ WS_GUID))"
proof -
  have "sha1_finish (fold sha1_update [key, WS_GUID] sha1_new) = fips_sha1 (key @ WS_GUID)"
    using sha1_updates_holds [OF sha1_holds_new, of "[key, WS_GUID]"]
    by (intro sha1_finish_spec) (simp_all add: sha1_new_def)
  then show ?thesis by (simp add: accept_key_def)
qed

end
