(* ===== verification/Ws_Handshake.thy ===== *)
theory Ws_Handshake
  imports Ws_Stream Ws_Sha1
begin

text \<open>
  The server side of the WebSocket handshake in \<open>rust-lib-sync/src/ws.rs\<close>: \<open>parse_upgrade\<close>
  validates the HTTP request, \<open>success_response\<close> and \<open>error_response\<close> build the answers and
  \<open>accept_upgrade\<close> reads the request from the socket and answers it.

  A Rust \<open>str\<close> is the list of its Unicode scalar values (\<open>str_chars\<close>); \<open>from_utf8\<close> validates and
  decodes bytes and \<open>as_bytes\<close> encodes them again.  The methods of \<open>str\<close> that the source uses are
  defined first.
\<close>

section \<open>Strings\<close>

type_synonym str_chars = "nat list"

definition chars :: "string \<Rightarrow> str_chars" where
  "chars s = map of_char s"

definition is_cont :: "u8 \<Rightarrow> bool" where
  "is_cont b \<longleftrightarrow> 0x80 \<le> b \<and> b \<le> 0xBF"

definition cont6 :: "u8 \<Rightarrow> nat" where
  "cont6 b = unat b - 0x80"

text \<open>\<open>std::str::from_utf8\<close>: the well-formed byte sequences of the Unicode standard.\<close>

function from_utf8 :: "bytes \<Rightarrow> str_chars option" where
  "from_utf8 bs =
     (case bs of
        [] \<Rightarrow> Some []
      | b # r \<Rightarrow>
          if b < 0x80 then map_option (Cons (unat b)) (from_utf8 r)
          else if 0xC2 \<le> b \<and> b \<le> 0xDF then
            (case r of
               c1 # r' \<Rightarrow>
                 if is_cont c1
                 then map_option (Cons ((unat b - 0xC0) * 64 + cont6 c1)) (from_utf8 r')
                 else None
             | _ \<Rightarrow> None)
          else if 0xE0 \<le> b \<and> b \<le> 0xEF then
            (case r of
               c1 # c2 # r' \<Rightarrow>
                 if is_cont c1 \<and> is_cont c2 \<and> (b = 0xE0 \<longrightarrow> 0xA0 \<le> c1) \<and> (b = 0xED \<longrightarrow> c1 \<le> 0x9F)
                 then map_option (Cons ((unat b - 0xE0) * 4096 + cont6 c1 * 64 + cont6 c2)) (from_utf8 r')
                 else None
             | _ \<Rightarrow> None)
          else if 0xF0 \<le> b \<and> b \<le> 0xF4 then
            (case r of
               c1 # c2 # c3 # r' \<Rightarrow>
                 if is_cont c1 \<and> is_cont c2 \<and> is_cont c3 \<and> (b = 0xF0 \<longrightarrow> 0x90 \<le> c1) \<and>
                    (b = 0xF4 \<longrightarrow> c1 \<le> 0x8F)
                 then map_option (Cons ((unat b - 0xF0) * 262144 + cont6 c1 * 4096 + cont6 c2 * 64 + cont6 c3))
                        (from_utf8 r')
                 else None
             | _ \<Rightarrow> None)
          else None)"
  by pat_completeness auto
termination
  by (relation "measure length") auto

declare from_utf8.simps [simp del]

definition char_bytes :: "nat \<Rightarrow> bytes" where
  "char_bytes c =
     (if c < 0x80 then [word_of_nat c]
      else if c < 0x800 then [word_of_nat (0xC0 + c div 64), word_of_nat (0x80 + c mod 64)]
      else if c < 0x10000 then
        [word_of_nat (0xE0 + c div 4096), word_of_nat (0x80 + c div 64 mod 64),
         word_of_nat (0x80 + c mod 64)]
      else
        [word_of_nat (0xF0 + c div 262144), word_of_nat (0x80 + c div 4096 mod 64),
         word_of_nat (0x80 + c div 64 mod 64), word_of_nat (0x80 + c mod 64)])"

definition as_bytes :: "str_chars \<Rightarrow> bytes" where
  "as_bytes s = concat (map char_bytes s)"

text \<open>The methods of \<open>str\<close>; white space is the Unicode property \<open>White_Space\<close>.\<close>

definition is_whitespace :: "nat \<Rightarrow> bool" where
  "is_whitespace c \<longleftrightarrow>
     9 \<le> c \<and> c \<le> 13 \<or> c = 32 \<or> c = 0x85 \<or> c = 0xA0 \<or> c = 0x1680 \<or> 0x2000 \<le> c \<and> c \<le> 0x200A \<or>
     c = 0x2028 \<or> c = 0x2029 \<or> c = 0x202F \<or> c = 0x205F \<or> c = 0x3000"

definition str_trim :: "str_chars \<Rightarrow> str_chars" where
  "str_trim s = rev (dropWhile is_whitespace (rev (dropWhile is_whitespace s)))"

definition to_ascii_lowercase :: "str_chars \<Rightarrow> str_chars" where
  "to_ascii_lowercase s = map (\<lambda>c. if 65 \<le> c \<and> c \<le> 90 then c + 32 else c) s"

fun split_crlf :: "str_chars \<Rightarrow> str_chars \<Rightarrow> str_chars list" where
  "split_crlf cur [] = [cur]"
| "split_crlf cur (c # s) =
     (if c = 13 \<and> s \<noteq> [] \<and> hd s = 10 then cur # split_crlf [] (tl s)
      else split_crlf (cur @ [c]) s)"

fun split_char :: "nat \<Rightarrow> str_chars \<Rightarrow> str_chars \<Rightarrow> str_chars list" where
  "split_char d cur [] = [cur]"
| "split_char d cur (c # s) =
     (if c = d then cur # split_char d [] s else split_char d (cur @ [c]) s)"

definition split_once :: "nat \<Rightarrow> str_chars \<Rightarrow> (str_chars \<times> str_chars) option" where
  "split_once d s =
     (if d \<in> set s then Some (takeWhile (\<lambda>c. c \<noteq> d) s, tl (dropWhile (\<lambda>c. c \<noteq> d) s)) else None)"

definition starts_with :: "str_chars \<Rightarrow> str_chars \<Rightarrow> bool" where
  "starts_with pre s \<longleftrightarrow> take (length pre) s = pre"

text \<open>\<open>Iterator::next().unwrap_or("")\<close> on the parts of a split.\<close>

definition nth_part :: "str_chars list \<Rightarrow> nat \<Rightarrow> str_chars" where
  "nth_part parts i = (if i < length parts then parts ! i else [])"


section \<open>The upgrade request\<close>

record upgrade_headers =
  hd_upgrade :: "str_chars option"
  hd_connection :: "str_chars option"
  hd_version :: "str_chars option"
  hd_key :: "str_chars option"

definition no_headers :: upgrade_headers where
  "no_headers = \<lparr>hd_upgrade = None, hd_connection = None, hd_version = None, hd_key = None\<rparr>"

definition status_400 :: string where "status_400 = ''400 Bad Request''"
definition status_426 :: string where "status_426 = ''426 Upgrade Required''"

text \<open>The body of the loop over the header lines: a repeated header replaces the earlier value.\<close>

definition set_header :: "str_chars \<Rightarrow> str_chars \<Rightarrow> upgrade_headers \<Rightarrow> upgrade_headers" where
  "set_header n v h =
     (let name = to_ascii_lowercase (str_trim n); val = str_trim v
      in if name = chars ''upgrade'' then h\<lparr>hd_upgrade := Some (to_ascii_lowercase val)\<rparr>
         else if name = chars ''connection'' then h\<lparr>hd_connection := Some (to_ascii_lowercase val)\<rparr>
         else if name = chars ''sec-websocket-version'' then h\<lparr>hd_version := Some val\<rparr>
         else if name = chars ''sec-websocket-key'' then h\<lparr>hd_key := Some val\<rparr>
         else h)"

fun header_lines :: "str_chars list \<Rightarrow> upgrade_headers \<Rightarrow> string + upgrade_headers" where
  "header_lines [] h = Inr h"
| "header_lines (line # lines) h =
     (if line = [] then header_lines lines h
      else case split_once 58 line of
             None \<Rightarrow> Inl status_400
           | Some (n, v) \<Rightarrow> header_lines lines (set_header n v h))"

definition check_headers :: "upgrade_headers \<Rightarrow> string + str_chars" where
  "check_headers h =
     (if hd_upgrade h \<noteq> Some (chars ''websocket'') then Inl status_400
      else
        let has_upgrade_token =
              (case hd_connection h of
                 None \<Rightarrow> False
               | Some c \<Rightarrow> list_ex (\<lambda>t. str_trim t = chars ''upgrade'') (split_char 44 [] c))
        in if \<not> has_upgrade_token then Inl status_400
           else if hd_version h \<noteq> Some (chars ''13'') then Inl status_426
           else case hd_key h of
                  None \<Rightarrow> Inl status_400
                | Some key \<Rightarrow>
                    if map_option length (base64_decode (as_bytes key)) \<noteq> Some 16 then Inl status_400
                    else Inr key)"

definition parse_upgrade :: "bytes \<Rightarrow> string + str_chars" where
  "parse_upgrade request =
     (case from_utf8 request of
        None \<Rightarrow> Inl status_400
      | Some txt \<Rightarrow>
          let lines = split_crlf [] txt;
              parts = split_char 32 [] (nth_part lines 0);
              verb = nth_part parts 0;
              version = nth_part parts 2
          in if verb \<noteq> chars ''GET'' \<or> \<not> starts_with (chars ''HTTP/1.'') version then Inl status_400
             else case header_lines (tl lines) no_headers of
                    Inl e \<Rightarrow> Inl e
                  | Inr h \<Rightarrow> check_headers h)"

definition CRLF :: bytes where "CRLF = [0x0D, 0x0A]"

definition success_response :: "str_chars \<Rightarrow> bytes" where
  "success_response key =
     ascii ''HTTP/1.1 101 Switching Protocols'' @ CRLF @
     ascii ''Upgrade: websocket'' @ CRLF @
     ascii ''Connection: Upgrade'' @ CRLF @
     ascii ''Sec-WebSocket-Accept: '' @ accept_key (as_bytes key) @ CRLF @ CRLF"

definition error_response :: "string \<Rightarrow> bytes" where
  "error_response status =
     (if take 3 status = ''426''
      then ascii ''HTTP/1.1 '' @ ascii status @ CRLF @ ascii ''Sec-WebSocket-Version: 13'' @ CRLF @ CRLF
      else ascii ''HTTP/1.1 '' @ ascii status @ CRLF @ CRLF)"


section \<open>Reading the request\<close>

definition MAX_REQUEST_BYTES :: nat where "MAX_REQUEST_BYTES = 8192"

definition find_subsequence :: "bytes \<Rightarrow> bytes \<Rightarrow> nat option" where
  "find_subsequence haystack needle =
     (if needle = [] \<or> length haystack < length needle then None
      else List.find (\<lambda>i. take (length needle) (drop i haystack) = needle)
             [0..<length haystack - length needle + 1])"

text \<open>
  The loop that collects the request: the end of the header block with the bytes read so far, or
  \<^term>\<open>None\<close> when the request is refused or given up.
\<close>

function request_loop :: "stream \<Rightarrow> bytes \<Rightarrow> nat \<Rightarrow> (nat \<times> bytes) option io_result \<times> stream" where
  "request_loop s b deadline =
     (case find_subsequence b (CRLF @ CRLF) of
        Some pos \<Rightarrow> (Inr (Some (pos + 4, b)), s)
      | None \<Rightarrow>
          if MAX_REQUEST_BYTES < length b then
            (case stream_write_all s (error_response status_400) of (_, s1) \<Rightarrow> (Inr None, s1))
          else if deadline \<le> clock s then (Inr None, s)
          else case stream_read s 1024 of
                 (Inr bs, s1) \<Rightarrow>
                   if bs = [] then (Inr None, s1) else request_loop s1 (b @ bs) deadline
               | (Inl e, s1) \<Rightarrow>
                   if is_idle_tick e then request_loop s1 b deadline else (Inl e, s1))"
  by pat_completeness auto
termination
proof (relation "measure (\<lambda>(s, b, d). stream_steps s)", goal_cases)
  case (3 s b d r s1 bs)
  then show ?case using stream_read_bytes [of s 1024 bs s1] by (cases bs) auto
next
  case (2 s b d r s1 e)
  then show ?case using stream_read_err [of s 1024 e s1] by auto
qed simp

declare request_loop.simps [simp del]

definition accept_upgrade :: "stream \<Rightarrow> u8 option \<Rightarrow> nat \<Rightarrow> ws_stream option io_result \<times> stream" where
  "accept_upgrade s first deadline =
     (let b0 = (case first of None \<Rightarrow> [] | Some b \<Rightarrow> [b])
      in case request_loop s b0 deadline of
           (Inl e, s1) \<Rightarrow> (Inl e, s1)
         | (Inr None, s1) \<Rightarrow> (Inr None, s1)
         | (Inr (Some (header_end, b)), s1) \<Rightarrow>
             let request = take header_end b; leftover = drop header_end b
             in case parse_upgrade request of
                  Inr key \<Rightarrow>
                    (case stream_write_all s1 (success_response key) of
                       (Inl e, s2) \<Rightarrow> (Inl e, s2)
                     | (Inr _, s2) \<Rightarrow>
                         (case stream_flush s2 of
                            (Inl e, s3) \<Rightarrow> (Inl e, s3)
                          | (Inr _, s3) \<Rightarrow> (Inr (Some (ws_new s3 leftover)), s3)))
                | Inl status \<Rightarrow>
                    (case stream_write_all s1 (error_response status) of (_, s2) \<Rightarrow> (Inr None, s2)))"


section \<open>Finding the end of the request\<close>

lemma find_upt_Some:
  "List.find P [0..<n] = Some i \<longleftrightarrow> i < n \<and> P i \<and> (\<forall>j < i. \<not> P j)"
proof (induction n)
  case 0
  then show ?case by simp
next
  case (Suc n)
  have app: "List.find P (xs @ ys) = (case List.find P xs of None \<Rightarrow> List.find P ys | Some x \<Rightarrow> Some x)"
    for xs ys :: "nat list" by (induction xs) auto
  show ?case
  proof (cases "List.find P [0..<n]")
    case None
    then have "\<forall>j < n. \<not> P j" by (auto simp: find_None_iff)
    with None show ?thesis by (auto simp: app less_Suc_eq)
  next
    case (Some k)
    have k: "k < n" "P k" "\<forall>j < k. \<not> P j"
      using Some by (auto simp: find_Some_iff nth_append)
    then have "i = k \<longleftrightarrow> i < Suc n \<and> P i \<and> (\<forall>j < i. \<not> P j)"
      by (metis less_SucI linorder_neqE_nat)
    with Some show ?thesis by (auto simp: app)
  qed
qed

lemma find_subsequence_Some:
  "find_subsequence h nd = Some i \<longleftrightarrow>
     nd \<noteq> [] \<and> i + length nd \<le> length h \<and> take (length nd) (drop i h) = nd \<and>
     (\<forall>j < i. take (length nd) (drop j h) \<noteq> nd)"
  by (auto simp: find_subsequence_def find_upt_Some less_Suc_eq_le simp del: upt_Suc)

lemma find_subsequence_append:
  assumes "find_subsequence h nd = Some i"
  shows "find_subsequence (h @ x) nd = Some i"
proof -
  have "take (length nd) (drop j (h @ x)) = take (length nd) (drop j h)" if "j \<le> i" for j
    using assms that by (auto simp: find_subsequence_Some)
  with assms show ?thesis by (auto simp: find_subsequence_Some)
qed

text \<open>A request: it ends with its first blank line.\<close>

definition is_request :: "bytes \<Rightarrow> bool" where
  "is_request req \<longleftrightarrow> find_subsequence req (CRLF @ CRLF) = Some (length req - 4)"

lemma is_request_length: "is_request req \<Longrightarrow> 4 \<le> length req"
  by (auto simp: is_request_def find_subsequence_Some CRLF_def)

lemma is_request_prefix:
  assumes "is_request req" and "b @ x = req @ rest"
  shows "find_subsequence b (CRLF @ CRLF) =
    (if length req \<le> length b then Some (length req - 4) else None)"
proof (cases "length req \<le> length b")
  case True
  then obtain y where "b = req @ y" using assms(2) by (metis append_eq_append_conv_if append_take_drop_id)
  with assms(1) True find_subsequence_append show ?thesis by (simp add: is_request_def)
next
  case False
  then obtain y where y: "req = b @ y" using assms(2) by (metis append_eq_append_conv_if append_take_drop_id le_cases)
  have "find_subsequence b (CRLF @ CRLF) = None"
  proof (rule ccontr)
    assume "\<not> ?thesis"
    then obtain i where i: "find_subsequence b (CRLF @ CRLF) = Some i" by auto
    with assms(1) find_subsequence_append [OF i, of y] have "i = length req - 4"
      by (simp add: is_request_def y)
    moreover have "i + 4 \<le> length b" using i by (simp add: find_subsequence_Some CRLF_def)
    ultimately show False using False is_request_length [OF assms(1)] by simp
  qed
  with False show ?thesis by simp
qed

lemma find_blank_line:
  "find_subsequence h (CRLF @ CRLF) = Some i \<longleftrightarrow>
     i + 4 \<le> length h \<and> take 4 (drop i h) = CRLF @ CRLF \<and> (\<forall>j < i. take 4 (drop j h) \<noteq> CRLF @ CRLF)"
proof -
  have "length (CRLF @ CRLF) = 4" "CRLF @ CRLF \<noteq> []" by (simp_all add: CRLF_def)
  then show ?thesis unfolding find_subsequence_Some by simp
qed

lemma is_request_take:
  assumes "find_subsequence h (CRLF @ CRLF) = Some (e - 4)" and "4 \<le> e"
  shows "is_request (take e h)"
proof -
  have "take 4 (drop j (take e h)) = take 4 (drop j h)" if "j + 4 \<le> e" for j
    using that by (simp add: drop_take min_def)
  note win = this [of "e - 4"] this
  have f: "e \<le> length h" "take 4 (drop (e - 4) h) = CRLF @ CRLF"
    "\<forall>j < e - 4. take 4 (drop j h) \<noteq> CRLF @ CRLF"
    using assms unfolding find_blank_line by simp_all
  have "length (take e h) = e" using f(1) by simp
  moreover have "take 4 (drop (e - 4) (take e h)) = CRLF @ CRLF" using win(1) f(2) assms(2) by (simp add: CRLF_def)
  moreover have "take 4 (drop j (take e h)) \<noteq> CRLF @ CRLF" if "j < e - 4" for j
    using win(2) [of j] f(3) that by simp
  ultimately show ?thesis
    unfolding is_request_def find_blank_line using assms(2) by (metis le_add_diff_inverse2 order_refl)
qed

text \<open>The loop in general: it keeps every byte, and with enough time it finds the request.\<close>

lemma request_loop_keeps:
  "request_loop s b deadline = (Inr (Some (e, b')), s') \<Longrightarrow>
   b @ stream_pend s = b' @ stream_pend s' \<and> find_subsequence b' (CRLF @ CRLF) = Some (e - 4) \<and>
   4 \<le> e \<and> e \<le> length b' \<and> outbound s' = outbound s"
proof (induction s b deadline rule: request_loop.induct)
  case (1 s b deadline)
  show ?case
  proof (cases "find_subsequence b (CRLF @ CRLF)")
    case (Some pos)
    with 1(3) have "e = pos + 4" "b' = b" "s' = s"
      by (subst (asm) request_loop.simps, simp)+
    with Some show ?thesis by (simp add: find_subsequence_Some CRLF_def)
  next
    case None
    have go: "\<not> MAX_REQUEST_BYTES < length b" "\<not> deadline \<le> clock s"
      using 1(3) None by (subst (asm) request_loop.simps, auto split: if_splits prod.splits)+
    obtain r s1 where rd: "stream_read s 1024 = (r, s1)" by fastforce
    note out = stream_read_frame [OF rd]
    show ?thesis
    proof (cases r)
      case (Inl x)
      with 1(3) None go rd have tick: "is_idle_tick x"
        and "request_loop s1 b deadline = (Inr (Some (e, b')), s')"
        by (subst (asm) request_loop.simps, simp split: if_splits)+
      from 1(1) [OF None go rd [symmetric] Inl tick this(2)] out tcp.rd_err [OF rd [unfolded Inl]]
      show ?thesis by simp
    next
      case (Inr bs)
      with 1(3) None go rd have ne: "bs \<noteq> []"
        and "request_loop s1 (b @ bs) deadline = (Inr (Some (e, b')), s')"
        by (subst (asm) request_loop.simps, simp split: if_splits)+
      from 1(2) [OF None go rd [symmetric] Inr ne this(2)] out tcp.rd_ok [OF rd [unfolded Inr]]
      show ?thesis by simp
    qed
  qed
qed

lemma request_loop_finds:
  assumes "is_request req" and "length req \<le> MAX_REQUEST_BYTES" and "b @ stream_pend s = req @ rest"
    and "stream_idle s" and "clock s + script_delay (inbound s) < deadline"
  shows "\<exists>b' s'. request_loop s b deadline = (Inr (Some (length req, b')), s') \<and>
    b' @ stream_pend s' = req @ rest \<and> stream_idle s' \<and> wfaults s' = wfaults s \<and> ffaults s' = ffaults s"
  using assms(3-5)
proof (induction s b deadline rule: request_loop.induct)
  case (1 s b deadline)
  note pre = is_request_prefix [OF assms(1) 1(3)]
  show ?case
  proof (cases "length req \<le> length b")
    case True
    with pre 1(3,4) is_request_length [OF assms(1)] show ?thesis
      by (subst request_loop.simps) simp
  next
    case False
    then have None: "find_subsequence b (CRLF @ CRLF) = None" using pre by simp
    have go: "\<not> MAX_REQUEST_BYTES < length b" "\<not> deadline \<le> clock s"
      using False assms(2) 1(5) by auto
    obtain r s1 where rd: "stream_read s 1024 = (r, s1)" by fastforce
    note out = stream_read_frame [OF rd]
    have idle: "stream_idle s1" using tcp.idle_rd 1(4) rd by blast
    have time: "clock s1 + script_delay (inbound s1) < deadline"
      using stream_read_delay [OF rd] 1(5) by simp
    show ?thesis
    proof (cases r)
      case (Inl x)
      have tick: "is_idle_tick x" using tcp.idle_err 1(4) rd Inl by blast
      have "b @ stream_pend s1 = req @ rest" using tcp.rd_err [OF rd [unfolded Inl]] 1(3) by simp
      from 1(1) [OF None go rd [symmetric] Inl tick this idle time] None go rd Inl tick out
      show ?thesis by (subst request_loop.simps) simp
    next
      case (Inr bs)
      have ok: "stream_pend s = bs @ stream_pend s1" using tcp.rd_ok [OF rd [unfolded Inr]] by simp
      have ne: "bs \<noteq> []"
      proof
        assume "bs = []"
        then have "stream_pend s = []" using tcp.rd_eof [of s 1024 s1] rd Inr by simp
        then have "length b = length (req @ rest)" using arg_cong [OF 1(3), of length] by simp
        with False show False by simp
      qed
      have "(b @ bs) @ stream_pend s1 = req @ rest" using ok 1(3) by simp
      from 1(2) [OF None go rd [symmetric] Inr ne this idle time] None go rd Inr ne out
      show ?thesis by (subst request_loop.simps) simp
    qed
  qed
qed


section \<open>Rendered requests\<close>

text \<open>The text of a request with given header lines, in printable ASCII.\<close>

definition plain :: "str_chars \<Rightarrow> bool" where
  "plain s \<longleftrightarrow> list_all (\<lambda>c. 32 \<le> c \<and> c < 127) s"

definition lines_text :: "str_chars list \<Rightarrow> str_chars" where
  "lines_text ls = concat (map (\<lambda>l. l @ [13, 10]) ls) @ [13, 10]"

definition request_line :: "str_chars \<Rightarrow> str_chars \<Rightarrow> str_chars" where
  "request_line path ver = chars ''GET'' @ [32] @ path @ [32] @ ver"

definition header_line :: "str_chars \<times> str_chars \<Rightarrow> str_chars" where
  "header_line nv = fst nv @ [58] @ snd nv"

definition request_bytes :: "str_chars \<Rightarrow> str_chars \<Rightarrow> (str_chars \<times> str_chars) list \<Rightarrow> bytes" where
  "request_bytes path ver hs =
     map word_of_nat (lines_text (request_line path ver # map header_line hs))"

definition wf_headers :: "(str_chars \<times> str_chars) list \<Rightarrow> bool" where
  "wf_headers hs \<longleftrightarrow> list_all (\<lambda>(n, v). plain n \<and> 58 \<notin> set n \<and> plain v) hs"

lemma from_utf8_ascii:
  "list_all (\<lambda>c. c < 128) cs \<Longrightarrow> from_utf8 (map word_of_nat cs) = Some cs"
proof (induction cs)
  case Nil
  then show ?case by (simp add: from_utf8.simps)
next
  case (Cons c cs)
  then have "unat (word_of_nat c :: u8) = c" by (simp add: unat_of_nat)
  moreover from this Cons.prems have "(word_of_nat c :: u8) < 0x80" by (simp add: word_less_nat_alt)
  ultimately show ?case using Cons by (simp add: from_utf8.simps [of "_ # _"])
qed

lemma split_crlf_line: "13 \<notin> set l \<Longrightarrow> split_crlf cur (l @ 13 # 10 # t) = (cur @ l) # split_crlf [] t"
  by (induction l arbitrary: cur) auto

lemma split_crlf_lines:
  "list_all (\<lambda>l. 13 \<notin> set l) ls \<Longrightarrow> split_crlf [] (lines_text ls) = ls @ [[], []]"
  by (induction ls) (simp_all add: lines_text_def split_crlf_line)

lemma split_char_word: "d \<notin> set l \<Longrightarrow> split_char d cur (l @ d # t) = (cur @ l) # split_char d [] t"
  by (induction l arbitrary: cur) auto

lemma split_char_last: "d \<notin> set l \<Longrightarrow> split_char d cur l = [cur @ l]"
  by (induction l arbitrary: cur) auto

lemma split_once_app: "d \<notin> set n \<Longrightarrow> split_once d (n @ d # v) = Some (n, v)"
  by (induction n) (auto simp: split_once_def)

lemma header_lines_headers:
  "wf_headers hs \<Longrightarrow>
   header_lines (map header_line hs @ [[], []]) h = Inr (fold (\<lambda>(n, v). set_header n v) hs h)"
  by (induction hs arbitrary: h)
    (auto simp: wf_headers_def header_line_def split_once_app)

lemma GET_chars: "chars ''GET'' = [71, 69, 84]"
  by (simp add: chars_def)

lemma plain_set: "plain s \<Longrightarrow> c < 32 \<Longrightarrow> c \<notin> set s"
  by (auto simp: plain_def list_all_iff)

lemma plain_ascii: "plain s \<Longrightarrow> c \<in> set s \<Longrightarrow> c < 128"
  by (auto simp: plain_def list_all_iff)

lemma request_text_ascii:
  assumes "plain path" and "plain ver" and "wf_headers hs"
  shows "\<forall>c \<in> set (lines_text (request_line path ver # map header_line hs)). c < 128"
proof -
  have "c < 128" if "nv \<in> set hs" "c \<in> set (header_line nv)" for nv c
  proof -
    have "plain (fst nv)" "plain (snd nv)"
      using assms(3) that(1) by (auto simp: wf_headers_def list_all_iff)
    with that(2) plain_ascii show ?thesis by (auto simp: header_line_def)
  qed
  moreover have "c < 128" if "c \<in> set (request_line path ver)" for c
    using assms(1,2) that plain_ascii by (auto simp: request_line_def GET_chars)
  ultimately show ?thesis by (auto simp: lines_text_def)
qed

lemma parse_request_bytes:
  assumes "plain path" and "32 \<notin> set path" and "plain ver" and "32 \<notin> set ver"
    and "starts_with (chars ''HTTP/1.'') ver" and "wf_headers hs"
  shows "parse_upgrade (request_bytes path ver hs) =
    check_headers (fold (\<lambda>(n, v). set_header n v) hs no_headers)"
proof -
  let ?l = "request_line path ver" and ?ls = "map header_line hs"
  have 13: "list_all (\<lambda>l. 13 \<notin> set l) (?l # ?ls)"
    using assms(1,3,6) plain_set [of _ 13]
    by (auto simp: request_line_def header_line_def GET_chars wf_headers_def list_all_iff)
  have ascii: "list_all (\<lambda>c. c < 128) (lines_text (?l # ?ls))"
    using request_text_ascii [OF assms(1,3,6)] by (simp add: list_all_iff)
  have parts: "split_char 32 [] ?l = [chars ''GET'', path, ver]"
    using assms(2,4) split_char_word [of 32 path "[]" ver] split_char_last [of 32 ver "[]"]
    by (simp add: request_line_def GET_chars)
  show ?thesis
    using assms(5) split_crlf_lines [OF 13] header_lines_headers [OF assms(6)] parts
    by (simp add: parse_upgrade_def request_bytes_def from_utf8_ascii [OF ascii] nth_part_def)
qed

text \<open>In the text of non-empty lines the first blank line is at the end.\<close>

lemma take_4_drop:
  assumes "take 4 (drop j t) = [a, b, c, d]"
  shows "j + 4 \<le> length t" and "t ! j = a" and "t ! (j + 2) = c"
proof -
  show len: "j + 4 \<le> length t" using arg_cong [OF assms, of length] by simp
  have "drop j t = [a, b, c, d] @ drop 4 (drop j t)"
    using append_take_drop_id [of 4 "drop j t"] assms by metis
  then have "drop j t ! 0 = a" "drop j t ! 2 = c" by simp_all
  with len show "t ! j = a" and "t ! (j + 2) = c" by simp_all
qed

lemma blank_line_last:
  "ls \<noteq> [] \<Longrightarrow> list_all (\<lambda>l. l \<noteq> [] \<and> 13 \<notin> set l) ls \<Longrightarrow>
   take 4 (drop j (lines_text ls)) = [13, 10, 13, 10] \<Longrightarrow> j = length (lines_text ls) - 4"
proof (induction ls arbitrary: j)
  case Nil
  then show ?case by simp
next
  case (Cons l ls)
  let ?t = "lines_text (l # ls)" and ?t' = "lines_text ls"
  have t: "?t = l @ 13 # 10 # ?t'" by (simp add: lines_text_def)
  note at = take_4_drop [OF Cons.prems(3)]
  have "l ! j \<noteq> 13" if "j < length l" using Cons.prems(2) that nth_mem by fastforce
  then have ge: "length l \<le> j" using at(2) by (cases "j < length l") (simp_all add: t nth_append)
  have next_line: "?t' ! 0 \<noteq> 13" if ne: "ls \<noteq> []"
  proof -
    obtain m ms where "ls = m # ms" using ne by (cases ls) auto
    moreover have "hd m \<noteq> 13" "m \<noteq> []"
      using Cons.prems(2) calculation hd_in_set by fastforce+
    ultimately show ?thesis by (simp add: lines_text_def nth_append hd_conv_nth)
  qed
  obtain d where d: "j = length l + d" using ge le_Suc_ex by blast
  consider "d = 0" | "d = Suc 0" | k where "d = Suc (Suc k)" by (metis not0_implies_Suc)
  then show ?case
  proof cases
    case 1
    then have "?t' ! 0 = 13" using at(3) by (simp add: t d nth_append)
    then have "ls = []" using next_line by blast
    with 1 show ?thesis by (simp add: lines_text_def d)
  next
    case 2
    with at(2) show ?thesis by (simp add: t d nth_append)
  next
    case (3 k)
    have drop: "drop j ?t = drop k ?t'" by (simp add: t d 3)
    then have k: "take 4 (drop k ?t') = [13, 10, 13, 10]" using Cons.prems(3) by simp
    have "ls \<noteq> []"
    proof
      assume "ls = []"
      then have "length ?t' = 2" by (simp add: lines_text_def)
      with take_4_drop(1) [OF k] show False by simp
    qed
    then have "k = length ?t' - 4" using Cons.IH [of k] Cons.prems(2) k by simp
    with take_4_drop(1) [OF k] show ?thesis by (simp add: t d 3)
  qed
qed

lemma lines_text_end:
  "ls \<noteq> [] \<Longrightarrow> \<exists>pre. lines_text ls = pre @ [13, 10, 13, 10]"
  by (induction ls rule: rev_induct) (simp_all add: lines_text_def)

lemma request_bytes_is_request:
  assumes "plain path" and "plain ver" and "wf_headers hs"
  shows "is_request (request_bytes path ver hs)"
proof -
  let ?ls = "request_line path ver # map header_line hs"
  let ?t = "lines_text ?ls" and ?b = "request_bytes path ver hs"
  have ok: "list_all (\<lambda>l. l \<noteq> [] \<and> 13 \<notin> set l) ?ls"
    using assms plain_set [of _ 13]
    by (auto simp: request_line_def header_line_def GET_chars wf_headers_def list_all_iff)
  have ascii: "\<forall>c \<in> set ?t. c < 128"
    by (rule request_text_ascii [OF assms])
  have inj: "(word_of_nat c :: u8) = word_of_nat d \<Longrightarrow> c < 128 \<Longrightarrow> d < 128 \<Longrightarrow> c = d" for c d
    by (rule u8_of_nat_inj) simp_all
  have nd: "CRLF @ CRLF = map word_of_nat [13, 10, 13, 10]" by (simp add: CRLF_def)
  have match: "take 4 (drop j ?b) = CRLF @ CRLF \<longleftrightarrow> take 4 (drop j ?t) = [13, 10, 13, 10]" for j
  proof -
    have "set (take 4 (drop j ?t)) \<subseteq> set ?t" by (meson set_drop_subset set_take_subset subset_trans)
    then have "inj_on (word_of_nat :: nat \<Rightarrow> u8) (set (take 4 (drop j ?t)) \<union> set [13, 10, 13, 10])"
      using ascii by (intro inj_onI inj) auto
    from inj_on_map_eq_map [OF this] show ?thesis
      unfolding nd request_bytes_def drop_map take_map .
  qed
  obtain pre where pre: "?t = pre @ [13, 10, 13, 10]" using lines_text_end [of ?ls] by auto
  have len: "length ?b = length ?t" by (simp add: request_bytes_def)
  have "take 4 (drop (length ?b - 4) ?b) = CRLF @ CRLF"
    unfolding match len pre by simp
  moreover have "take 4 (drop j ?b) \<noteq> CRLF @ CRLF" if "j < length ?b - 4" for j
    using blank_line_last [OF _ ok, of j] that unfolding match len by auto
  moreover have "4 \<le> length ?b" unfolding len pre by simp
  ultimately show ?thesis
    unfolding is_request_def find_blank_line by (metis le_add_diff_inverse2 order_refl)
qed



section \<open>Properties of the handshake\<close>

text \<open>A request rendered from a path, an HTTP/1.x version and header lines in printable ASCII is
  parsed to exactly these headers: names compare without regard to case, surrounding white space of
  names and values is dropped, the last of repeated headers counts, and the verdict is that of the
  header checks alone.  Its first blank line is its end, so the reader cuts it off exactly there.\<close>

theorem upgrade_request_parsed:
  assumes "plain path" and "32 \<notin> set path" and "plain ver" and "32 \<notin> set ver"
    and "starts_with (chars ''HTTP/1.'') ver" and "wf_headers hs"
  shows "parse_upgrade (request_bytes path ver hs) =
      check_headers (fold (\<lambda>(n, v). set_header n v) hs no_headers) \<and>
    find_subsequence (request_bytes path ver hs) (CRLF @ CRLF) =
      Some (length (request_bytes path ver hs) - 4)"
  using parse_request_bytes [OF assms] request_bytes_is_request [OF assms(1,3,6)]
  by (simp add: is_request_def)

definition demo_headers :: "(str_chars \<times> str_chars) list" where
  "demo_headers =
     [(chars ''Upgrade'', chars '' WebSocket''), (chars ''connection'', chars '' keep-alive, Upgrade''),
      (chars ''Sec-WebSocket-Version'', chars '' 13''),
      (chars ''Sec-WebSocket-Key'', chars '' dGhlIHNhbXBsZSBub25jZQ=='')]"

lemma demo_key_decodes:
  "map_option length (base64_decode (as_bytes (chars ''dGhlIHNhbXBsZSBub25jZQ==''))) = Some 16"
  by (simp add: chars_def as_bytes_def char_bytes_def base64_decode_def trim_end_matches_def
      b64_val_def Let_def)

lemma demo_headers_accepted:
  "check_headers (fold (\<lambda>(n, v). set_header n v) demo_headers no_headers) =
     Inr (chars ''dGhlIHNhbXBsZSBub25jZQ=='')"
  using demo_key_decodes
  by (simp add: demo_headers_def set_header_def no_headers_def chars_def str_trim_def is_whitespace_def
      to_ascii_lowercase_def check_headers_def)

lemma demo_wf: "wf_headers demo_headers" "plain (chars ''/'')" "plain (chars ''HTTP/1.1'')"
  "32 \<notin> set (chars ''/'')" "32 \<notin> set (chars ''HTTP/1.1'')"
  "starts_with (chars ''HTTP/1.'') (chars ''HTTP/1.1'')"
  by (simp_all add: wf_headers_def demo_headers_def plain_def chars_def starts_with_def)

definition demo_request :: bytes where
  "demo_request = request_bytes (chars ''/'') (chars ''HTTP/1.1'') demo_headers"

lemma demo_request_ok:
  "is_request demo_request" "length demo_request \<le> MAX_REQUEST_BYTES"
  "parse_upgrade demo_request = Inr (chars ''dGhlIHNhbXBsZSBub25jZQ=='')"
  using request_bytes_is_request [OF demo_wf(2,3,1)]
    parse_request_bytes [OF demo_wf(2,4,3,5,6,1)] demo_headers_accepted
  by (simp_all add: demo_request_def request_bytes_def lines_text_def request_line_def header_line_def
      demo_headers_def chars_def MAX_REQUEST_BYTES_def)

theorem upgrade_request_parsed_witness:
  "parse_upgrade (request_bytes (chars ''/'') (chars ''HTTP/1.1'') demo_headers) =
     Inr (chars ''dGhlIHNhbXBsZSBub25jZQ=='')"
  using upgrade_request_parsed [OF demo_wf(2,4,3,5,6,1)] demo_headers_accepted by simp

lemma accept_upgrade_loop:
  assumes "is_request req" and "length req \<le> MAX_REQUEST_BYTES"
    and "(case first of None \<Rightarrow> [] | Some b \<Rightarrow> [b]) @ stream_pend s = req @ rest"
    and "stream_idle s" and "faultless s" and "clock s + script_delay (inbound s) < deadline"
  obtains b' s1 where "request_loop s (case first of None \<Rightarrow> [] | Some b \<Rightarrow> [b]) deadline =
      (Inr (Some (length req, b')), s1)"
    and "take (length req) b' = req" and "drop (length req) b' @ stream_pend s1 = rest"
    and "stream_idle s1" and "faultless s1" and "outbound s1 = outbound s"
proof -
  obtain b' s1 where loop: "request_loop s (case first of None \<Rightarrow> [] | Some b \<Rightarrow> [b]) deadline =
      (Inr (Some (length req, b')), s1)"
    and b': "b' @ stream_pend s1 = req @ rest" and idle: "stream_idle s1"
    and faults: "wfaults s1 = wfaults s" "ffaults s1 = ffaults s"
    using request_loop_finds [OF assms(1,2,3,4,6)] by blast
  have "length req \<le> length b'" and out: "outbound s1 = outbound s"
    using request_loop_keeps [OF loop] by simp_all
  then have "take (length req) b' = req" "drop (length req) b' @ stream_pend s1 = rest"
    using b' by (metis append_eq_append_conv_if append_take_drop_id)+
  with that loop idle out faults assms(5) show ?thesis by (simp add: faultless_def)
qed

lemma accept_upgrade_answers:
  assumes "is_request req" and "length req \<le> MAX_REQUEST_BYTES"
    and "(case first of None \<Rightarrow> [] | Some b \<Rightarrow> [b]) @ stream_pend s = req @ rest"
    and "stream_idle s" and "faultless s" and "clock s + script_delay (inbound s) < deadline"
  shows "case parse_upgrade req of
      Inr key \<Rightarrow> (\<exists>w s'. accept_upgrade s first deadline = (Inr (Some w), s') \<and>
        rawbuf w @ stream_pend (inner w) = rest \<and> ws_pend w = ws_data rest \<and> ws_idle w \<and>
        outbound (inner w) = outbound s @ success_response key)
    | Inl status \<Rightarrow> (\<exists>s'. accept_upgrade s first deadline = (Inr None, s') \<and>
        outbound s' = outbound s @ error_response status)"
proof -
  obtain b' s1 where loop: "request_loop s (case first of None \<Rightarrow> [] | Some b \<Rightarrow> [b]) deadline =
      (Inr (Some (length req, b')), s1)"
    and req: "take (length req) b' = req" and rest: "drop (length req) b' @ stream_pend s1 = rest"
    and idle: "stream_idle s1" and fl: "faultless s1" and out: "outbound s1 = outbound s"
    using accept_upgrade_loop [OF assms] by blast
  show ?thesis
  proof (cases "parse_upgrade req")
    case (Inl status)
    obtain r2 s2 where w: "stream_write_all s1 (error_response status) = (r2, s2)" by fastforce
    have "accept_upgrade s first deadline = (Inr None, s2)"
      using loop req Inl w by (simp add: accept_upgrade_def)
    with Inl out faultless_write [OF fl w] show ?thesis by simp
  next
    case (Inr key)
    obtain r2 s2 where w: "stream_write_all s1 (success_response key) = (r2, s2)" by fastforce
    obtain r3 s3 where f: "stream_flush s2 = (r3, s3)" by fastforce
    have 2: "r2 = Inr ()" "faultless s2" "outbound s2 = outbound s @ success_response key"
      using faultless_write [OF fl w] out by simp_all
    have 3: "r3 = Inr ()" "faultless s3" "outbound s3 = outbound s2"
      using faultless_flush [OF 2(2) f] by simp_all
    have in3: "inbound s3 = inbound s1"
      using stream_write_all_frame [OF w] stream_flush_frame [OF f] by simp
    have "accept_upgrade s first deadline = (Inr (Some (ws_new s3 (drop (length req) b'))), s3)"
      using loop req Inr w f 2 3 by (simp add: accept_upgrade_def)
    moreover have "drop (length req) b' @ stream_pend s3 = rest"
      using rest in3 by (simp add: stream_pend_def)
    ultimately show ?thesis
      using Inr 2 3 in3 idle
      by (simp add: ws_new_def ws_pend_def ws_rest_def ws_idle_def stream_idle_def)
  qed
qed



lemma accept_upgrade_sound:
  assumes "accept_upgrade s first deadline = (Inr (Some w), s')"
  shows "\<exists>req key. is_request req \<and> parse_upgrade req = Inr key \<and> inner w = s' \<and>
    (case first of None \<Rightarrow> [] | Some b \<Rightarrow> [b]) @ stream_pend s = req @ rawbuf w @ stream_pend s' \<and>
    outbound s' = outbound s @ success_response key \<and>
    length (trim_end_matches 0x3D (as_bytes key)) = 22 \<and>
    ws_pend w = ws_data (rawbuf w @ stream_pend s')"
proof -
  obtain e b' s1 where loop: "request_loop s (case first of None \<Rightarrow> [] | Some b \<Rightarrow> [b]) deadline =
      (Inr (Some (e, b')), s1)"
    using assms by (auto simp: accept_upgrade_def Let_def split: prod.splits sum.splits option.splits)
  note keeps = request_loop_keeps [OF loop]
  let ?req = "take e b'"
  have req: "is_request ?req" using keeps is_request_take by blast
  obtain key s2 u v where key: "parse_upgrade ?req = Inr key"
    and w: "stream_write_all s1 (success_response key) = (Inr u, s2)"
    and f: "stream_flush s2 = (Inr v, s')" and ww: "w = ws_new s' (drop e b')"
    using assms loop
    by (auto simp: accept_upgrade_def Let_def split: sum.splits prod.splits)
  have "map_option length (base64_decode (as_bytes key)) = Some 16"
    using key by (auto simp: parse_upgrade_def check_headers_def Let_def split: option.splits sum.splits if_splits)
  then obtain r where "base64_decode (as_bytes key) = Some r" "length r = 16" by auto
  then have "6 * length (trim_end_matches 0x3D (as_bytes key)) div 8 = 16"
    using base64_decode_length by metis
  then have "length (trim_end_matches 0x3D (as_bytes key)) = 22" by linarith
  moreover have "outbound s' = outbound s @ success_response key"
    using keeps stream_write_all_ok [OF w] stream_flush_frame [OF f] by simp
  moreover have "stream_pend s' = stream_pend s1"
    using stream_write_all_frame [OF w] stream_flush_frame [OF f] by (simp add: stream_pend_def)
  then have "(case first of None \<Rightarrow> [] | Some b \<Rightarrow> [b]) @ stream_pend s = ?req @ drop e b' @ stream_pend s'"
    using keeps by (metis append_assoc append_take_drop_id)
  ultimately show ?thesis using req key by (auto simp: ww ws_new_def ws_pend_def ws_rest_def)
qed

text \<open>Only valid clients get through, whatever the network and the socket do: when the upgrade
  returns a stream, the bytes received before it are exactly a request that ends with its first
  blank line and that \<open>parse_upgrade\<close> accepts, nothing but the success response for its key was
  sent, and the key has exactly the 22 base64 digits of a 16-byte nonce.\<close>

theorem upgrade_sound:
  assumes "accept_upgrade s first deadline = (Inr (Some w), s')"
  shows "\<exists>req key. is_request req \<and> parse_upgrade req = Inr key \<and> inner w = s' \<and>
    (case first of None \<Rightarrow> [] | Some b \<Rightarrow> [b]) @ stream_pend s = req @ rawbuf w @ stream_pend s' \<and>
    outbound s' = outbound s @ success_response key \<and>
    length (trim_end_matches 0x3D (as_bytes key)) = 22"
  using accept_upgrade_sound [OF assms] by blast

theorem upgrade_sound_witness:
  "\<exists>w s' req key. accept_upgrade
      \<lparr>inbound = [(0, Arrive demo_request)], outbound = [], wfaults = [], ffaults = [], clock = 0\<rparr>
      None 30000 = (Inr (Some w), s') \<and>
    is_request req \<and> parse_upgrade req = Inr key \<and> outbound s' = success_response key"
proof -
  let ?s = "\<lparr>inbound = [(0, Arrive demo_request)], outbound = [], wfaults = [], ffaults = [], clock = 0\<rparr>"
  have "(case None of None \<Rightarrow> [] | Some b \<Rightarrow> [b]) @ stream_pend ?s = demo_request @ []"
    by (simp add: stream_pend_def)
  from accept_upgrade_answers [OF demo_request_ok(1,2) this, of 30000]
  obtain w s' where r: "accept_upgrade ?s None 30000 = (Inr (Some w), s')"
    by (auto simp: demo_request_ok(3) stream_idle_def script_idle_def faultless_def script_delay_def)
  from upgrade_sound [OF r] r show ?thesis by auto
qed

end
