(* ===== verification/Conn_Ws.thy ===== *)
theory Conn_Ws
  imports Conn_Session Ws_Handshake "HOL-Library.Sublist"
begin

text \<open>
  The bind side's sniffing and the WebSocket session of the synchronous crate
  (\<open>rust-lib-sync/src/conn.rs\<close>): \<open>peek_first_byte\<close> and \<open>plain_or_ws_session\<close> choose the session
  by the first byte, and \<open>ws_session\<close> multiplexes reading and writing on one thread.
\<close>

section \<open>Sniffing\<close>

lemma peek_script_err:
  "peek_script es t = (Inl e, es', t') \<Longrightarrow> script_size es' < script_size es"
  by (induction es t rule: peek_script.induct) (auto split: if_splits)

function peek_first_byte :: "stream \<Rightarrow> nat \<Rightarrow> u8 option \<times> stream" where
  "peek_first_byte s deadline =
     (case stream_peek s of
        (Inr bs, s') \<Rightarrow> (case bs of [] \<Rightarrow> (None, s') | b # _ \<Rightarrow> (Some b, s'))
      | (Inl e, s') \<Rightarrow>
          if is_idle_tick e then
            if deadline \<le> clock s' then (None, s') else peek_first_byte s' deadline
          else (None, s'))"
  by pat_completeness auto
termination
  by (relation "measure (\<lambda>(s, deadline). stream_steps s)")
    (auto simp: stream_peek_def stream_steps_def dest: peek_script_err split: prod.splits)

declare peek_first_byte.simps [simp del]


section \<open>The HELLO on a WebSocket\<close>

partial_function (option) ws_read_hello :: "'s reader \<Rightarrow> ('s \<Rightarrow> nat) \<Rightarrow> 's \<Rightarrow> frame_decoder \<Rightarrow> nat \<Rightarrow>
    (identity option \<times> frame_decoder \<times> 's) option" where
  "ws_read_hello rd now ws d deadline =
     (case pop d of
        (Some frame, d') \<Rightarrow> Some (hello_peer frame, d', ws)
      | (None, d') \<Rightarrow>
          if deadline \<le> now ws then Some (None, d', ws)
          else case rd ws 4096 of (r, ws') \<Rightarrow>
            (case r of
               Inr bs \<Rightarrow>
                 if bs = [] then Some (None, d', ws')
                 else ws_read_hello rd now ws' (extend_from d' bs) deadline
             | Inl e \<Rightarrow>
                 if is_idle_tick e then ws_read_hello rd now ws' d' deadline
                 else Some (None, d', ws')))"


section \<open>The session\<close>

definition ws_now :: "ws_stream \<Rightarrow> nat" where
  "ws_now w = clock (inner w)"

text \<open>The inner loop: hand over every frame that is queued.  The flag says that the broker has
  dropped the connection; after a failed write the loop is left as if the queue were empty.\<close>

function ws_drain :: "ws_stream \<Rightarrow> writer_rx \<Rightarrow> nat \<Rightarrow> bool \<times> ws_stream \<times> writer_rx \<times> nat" where
  "ws_drain w q last_send =
     (case try_recv (ws_now w) q of
        (RxFrame frame, q') \<Rightarrow>
          (case write_frame ws_write_all w frame of
             (Inl e, w') \<Rightarrow> (False, w', q', last_send)
           | (Inr _, w') \<Rightarrow> ws_drain w' q' (ws_now w'))
      | (RxNothing, q') \<Rightarrow> (False, w, q', last_send)
      | (RxDisconnected, q') \<Rightarrow> (True, w, q', last_send))"
  by pat_completeness auto
termination
  by (relation "measure (\<lambda>(w, q, t). length (queue q))")
    (auto simp: try_recv_def split: list.splits if_splits)

declare ws_drain.simps [simp del]

text \<open>The heartbeat step: the new stream and time of the last send, or the end of the session.\<close>

definition ws_heartbeat :: "ws_stream \<Rightarrow> nat \<Rightarrow> bool \<times> ws_stream \<times> nat" where
  "ws_heartbeat w last_send =
     (if HEARTBEAT_INTERVAL \<le> ws_now w - last_send then
        case write_frame ws_write_all w heartbeat of
          (Inl e, w') \<Rightarrow> (False, w', last_send)
        | (Inr _, w') \<Rightarrow> (True, w', ws_now w')
      else (True, w, last_send))"

lemma ws_write_all_frame:
  "ws_write_all w d = (r, w') \<Longrightarrow>
   rawbuf w' = rawbuf w \<and> ws_payload w' = ws_payload w \<and> payload_pos w' = payload_pos w \<and>
   eof w' = eof w \<and> inbound (inner w') = inbound (inner w) \<and> ws_now w' = ws_now w"
  by (auto simp: ws_write_all_def ws_write_def ws_now_def split: if_splits prod.splits sum.splits
      dest: stream_write_all_frame)

lemma ws_write_all_steps: "ws_write_all w d = (r, w') \<Longrightarrow> ws_steps w' = ws_steps w"
  using ws_write_all_frame [of w d r w'] by (simp add: ws_steps_def stream_steps_def)

lemma ws_drain_steps: "ws_drain w q t = (gone, w', q', t') \<Longrightarrow> ws_steps w' = ws_steps w"
proof (induction w q t rule: ws_drain.induct)
  case (1 w q t)
  show ?case
  proof (cases "try_recv (ws_now w) q")
    case (Pair r q1)
    show ?thesis
    proof (cases r)
      case (RxFrame f)
      obtain a w1 where w1: "write_frame ws_write_all w f = (a, w1)" by fastforce
      have "ws_steps w1 = ws_steps w" using w1 ws_write_all_steps by (simp add: write_frame_def)
      with 1(1) [OF Pair [symmetric] RxFrame w1 [symmetric]] 1(2) Pair RxFrame w1 show ?thesis
        by (cases a) (auto simp: ws_drain.simps [of w])
    qed (use 1(2) Pair in \<open>auto simp: ws_drain.simps [of w]\<close>)
  qed
qed

lemma ws_heartbeat_steps: "ws_heartbeat w t = (go, w', t') \<Longrightarrow> ws_steps w' = ws_steps w"
  by (auto simp: ws_heartbeat_def write_frame_def split: if_splits prod.splits sum.splits
      dest: ws_write_all_steps)

text \<open>The outer loop.  The result says whether the session ends with a notice to the broker.\<close>

function ws_loop :: "ws_stream \<Rightarrow> frame_decoder \<Rightarrow> broker_link \<Rightarrow> identity \<Rightarrow> writer_rx \<Rightarrow> nat \<Rightarrow> nat \<Rightarrow>
    bool \<times> broker_link \<times> ws_stream" where
  "ws_loop w d k peer q last_send last_recv =
     (case ws_drain w q last_send of (gone, w1, q1, last_send1) \<Rightarrow>
        if gone then (False, k, w1)
        else case ws_heartbeat w1 last_send1 of (go, w2, last_send2) \<Rightarrow>
          if \<not> go then (True, k, w2)
          else if HEARTBEAT_TIMEOUT \<le> ws_now w2 - last_recv then (True, k, w2)
          else case ws_read w2 (16 * 1024) of (r, w3) \<Rightarrow>
            (case r of
               Inr bs \<Rightarrow>
                 if bs = [] then (True, k, w3)
                 else (case forward_frames (extend_from d bs) k peer of (ok, d', k') \<Rightarrow>
                   if ok then ws_loop w3 d' k' peer q1 last_send2 (ws_now w3)
                   else (True, k', w3))
             | Inl e \<Rightarrow>
                 if is_idle_tick e then ws_loop w3 d k peer q1 last_send2 last_recv
                 else (True, k, w3)))"
  by pat_completeness auto
termination
  by (relation "measure (\<lambda>(w, _). ws_steps w)")
    (auto dest!: ws_drain_steps [OF sym] ws_heartbeat_steps [OF sym] ws.rd_progress [OF sym])

declare ws_loop.simps [simp del]

text \<open>The whole session; it returns the commands it sent and the underlying socket.\<close>

definition ws_session :: "stream \<Rightarrow> u8 option \<Rightarrow> broker_link \<Rightarrow> identity \<Rightarrow> nat \<Rightarrow>
    (broker_link \<times> stream) option" where
  "ws_session s first k my_identity deadline =
     (case accept_upgrade s first deadline of
        (Inr (Some ws), s1) \<Rightarrow>
          (case write_frame ws_write_all ws (hello my_identity) of
             (Inl e, w1) \<Rightarrow> Some (k, inner w1)
           | (Inr _, w1) \<Rightarrow>
               (case ws_read_hello ws_read ws_now w1 decoder_new deadline of
                  None \<Rightarrow> None
                | Some (None, d, w2) \<Rightarrow> Some (k, inner w2)
                | Some (Some peer, d, w2) \<Rightarrow>
                    (case register k peer of
                       (None, k1) \<Rightarrow> Some (k1, inner w2)
                     | (Some writer_rx, k1) \<Rightarrow>
                         (case forward_frames d k1 peer of (ok, d', k2) \<Rightarrow>
                            if \<not> ok then Some (snd (cmd_send (ConnectionDown peer) k2), inner w2)
                            else case ws_loop w2 d' k2 peer writer_rx (ws_now w2) (ws_now w2) of
                              (down, k3, w3) \<Rightarrow>
                                Some (if down then snd (cmd_send (ConnectionDown peer) k3) else k3,
                                      inner w3)))))
      | (_, s1) \<Rightarrow> Some (k, s1))"

text \<open>The first byte of the stream chooses the session.\<close>

definition plain_or_ws_session :: "bool \<Rightarrow> stream \<Rightarrow> broker_link \<Rightarrow> identity \<Rightarrow> bool \<Rightarrow>
    (broker_link \<times> stream \<times> stream option) option" where
  "plain_or_ws_session can_clone s k my_identity sniff =
     (if \<not> sniff then plain_session can_clone s k my_identity
      else
        let deadline = clock s + HEARTBEAT_TIMEOUT
        in case peek_first_byte s deadline of
             (Some b, s1) \<Rightarrow>
               if b = 0x00 then plain_session can_clone s1 k my_identity
               else if b = 0x47 then
                 map_option (\<lambda>(k', s'). (k', s', None)) (ws_session s1 None k my_identity deadline)
               else Some (k, s1, None)
           | (None, s1) \<Rightarrow> Some (k, s1, None))"


section \<open>The handshake on any stream\<close>

context byte_stream
begin

lemma ws_read_hello_returns: "\<exists>r d' s'. ws_read_hello rd now s d deadline = Some (r, d', s')"
proof (induction "steps s" arbitrary: s d rule: less_induct)
  case less
  obtain r t where rd: "rd s 4096 = (r, t)" by fastforce
  show ?case
  proof (cases "r = Inr []")
    case True
    then show ?thesis
      by (subst ws_read_hello.simps) (auto simp: rd pop_cases split: option.split)
  next
    case False
    then have "steps t < steps s" using rd_progress [OF rd] by simp
    then have "\<exists>r d' s'. ws_read_hello rd now t d1 deadline = Some (r, d', s')" for d1
      by (rule less)
    then show ?thesis
      by (subst ws_read_hello.simps) (auto simp: rd pop_cases split: option.split sum.split)
  qed
qed

lemma ws_read_hello_sound:
  assumes "ws_read_hello rd now s d deadline = Some (Some peer, d', s')"
  shows "\<exists>f. next_frame (buf d @ pend s) = Some (f, buf d' @ pend s') \<and> hello_peer f = Some peer"
  using assms
proof (induction "steps s" arbitrary: s d rule: less_induct)
  case less
  show ?case
  proof (cases "next_frame (buf d)")
    case (Some x)
    then obtain f rest where nf: "next_frame (buf d) = Some (f, rest)" by (cases x) auto
    with less.prems have "hello_peer f = Some peer" "d' = d\<lparr>buf := rest\<rparr>" "s' = s"
      by (subst (asm) ws_read_hello.simps, simp add: pop_cases)+
    with next_frame_append [OF nf] show ?thesis by simp
  next
    case None
    then have pop: "pop d = (None, d)" by (simp add: pop_cases)
    obtain r t where rd: "rd s 4096 = (r, t)" by fastforce
    from less.prems have go: "\<not> deadline \<le> now s" and r: "r \<noteq> Inr []"
      by (subst (asm) ws_read_hello.simps, auto simp: pop rd split: if_splits)+
    have lt: "steps t < steps s" using rd_progress [OF rd _ r] by simp
    show ?thesis
    proof (cases r)
      case (Inl e)
      with less.prems pop rd go have "ws_read_hello rd now t d deadline = Some (Some peer, d', s')"
        by (subst (asm) ws_read_hello.simps) (auto split: if_splits)
      from less.hyps [OF lt this] rd_err [OF rd [unfolded Inl]] show ?thesis by simp
    next
      case (Inr bs)
      with less.prems pop rd go r
      have "ws_read_hello rd now t (extend_from d bs) deadline = Some (Some peer, d', s')"
        by (subst (asm) ws_read_hello.simps) auto
      from less.hyps [OF lt this] rd_ok [OF rd [unfolded Inr]] show ?thesis
        by (simp add: extend_from_def)
    qed
  qed
qed

lemma ws_read_hello_keeps:
  assumes "ws_read_hello rd now s d deadline = Some (r, d', s')"
    and "\<And>s n r s'. rd s n = (r, s') \<Longrightarrow> P s \<Longrightarrow> P s'" and "P s"
  shows "P s'"
  using assms(1,3)
proof (induction "steps s" arbitrary: s d rule: less_induct)
  case less
  obtain q t where rd: "rd s 4096 = (q, t)" by fastforce
  have t: "P t" using assms(2) [OF rd less.prems(2)] .
  show ?case
  proof (cases "q = Inr []")
    case True
    with less.prems t show ?thesis
      by (subst (asm) ws_read_hello.simps) (auto simp: rd pop_cases split: option.splits if_splits)
  next
    case False
    then have "steps t < steps s" using rd_progress [OF rd] by simp
    note IH = less.hyps [OF this _ t]
    from less.prems(1) consider "s' = s" | "s' = t" |
      d1 where "ws_read_hello rd now t d1 deadline = Some (r, d', s')"
      by (subst (asm) ws_read_hello.simps)
        (auto simp: rd pop_cases split: option.splits sum.splits if_splits)
    then show ?thesis using IH t less.prems(2) by cases auto
  qed
qed

end

context timed_stream
begin

lemma ws_read_hello_frame:
  assumes "idle_only s" and "horizon s < deadline" and "next_frame (buf d @ pend s) = Some (f, rest)"
  shows "\<exists>d' s'. ws_read_hello rd now s d deadline = Some (hello_peer f, d', s') \<and>
    buf d' @ pend s' = rest \<and> idle_only s' \<and> horizon s' \<le> horizon s \<and> now s \<le> now s'"
  using assms
proof (induction "steps s" arbitrary: s d rule: less_induct)
  case less
  show ?case
  proof (cases "next_frame (buf d)")
    case (Some x)
    then obtain g r where nf: "next_frame (buf d) = Some (g, r)" by (cases x) auto
    with next_frame_append [OF nf, of "pend s"] less.prems(3) have "g = f" "rest = r @ pend s" by auto
    with nf less.prems show ?thesis by (subst ws_read_hello.simps) (simp add: pop_cases)
  next
    case None
    then have pop: "pop d = (None, d)" by (simp add: pop_cases)
    have go: "\<not> deadline \<le> now s" using now_horizon [of s] less.prems(2) by linarith
    obtain r t where rd: "rd s 4096 = (r, t)" by fastforce
    have r: "r \<noteq> Inr []"
    proof
      assume "r = Inr []"
      then have "pend s = []" using rd_eof rd by simp
      with None less.prems(3) show False by simp
    qed
    have lt: "steps t < steps s" using rd_progress [OF rd _ r] by simp
    have t: "idle_only t" "horizon t < deadline" "horizon t \<le> horizon s" "now s \<le> now t"
      using idle_rd [OF less.prems(1) rd] horizon_rd [OF rd] now_rd [OF rd] less.prems(2) by auto
    show ?thesis
    proof (cases r)
      case (Inl e)
      then have "is_idle_tick e" using idle_err less.prems(1) rd by simp
      with less.hyps [OF lt t(1,2), of d] rd_err [OF rd [unfolded Inl]] less.prems(3) pop rd go Inl t(3,4)
      show ?thesis by (subst ws_read_hello.simps) fastforce
    next
      case (Inr bs)
      with less.hyps [OF lt t(1,2), of "extend_from d bs"] rd_ok [OF rd [unfolded Inr]] less.prems(3)
        pop rd go r t(3,4)
      show ?thesis by (subst ws_read_hello.simps) (fastforce simp: extend_from_def)
    qed
  qed
qed

end


section \<open>The clock of a WebSocket\<close>

definition ws_horizon :: "ws_stream \<Rightarrow> nat" where
  "ws_horizon w = stream_horizon (inner w)"

lemma pump_horizon: "pump w = (r, w') \<Longrightarrow> ws_horizon w' = ws_horizon w \<and> ws_now w' = ws_now w"
  using pump_frame [of w r w'] by (simp add: ws_horizon_def stream_horizon_def ws_now_def)

lemma ws_read_horizon:
  assumes "ws_read w n = (r, w')"
  shows "ws_horizon w' = ws_horizon w \<and> ws_now w \<le> ws_now w'"
  using assms
proof (induction rule: ws_read_rule)
  case (stalled w w1 e i)
  with pump_horizon [OF stalled(3)] stream_read_delay [OF stalled(4)] stream_read_clock [OF stalled(4)]
  show ?case by (simp add: ws_horizon_def stream_horizon_def ws_now_def)
next
  case (finished w w1 i)
  with pump_horizon [OF finished(3)] stream_read_delay [OF finished(4)] stream_read_clock [OF finished(4)]
  show ?case by (simp add: ws_horizon_def stream_horizon_def ws_now_def)
next
  case (filled w w1 bs i r w')
  with pump_horizon [OF filled(3)] stream_read_delay [OF filled(4)] stream_read_clock [OF filled(4)]
  show ?case by (simp add: ws_horizon_def stream_horizon_def ws_now_def)
qed (auto dest: pump_horizon simp: ws_horizon_def ws_now_def stream_horizon_def)

interpretation ws: timed_stream ws_read ws_pend ws_steps ws_idle ws_now ws_horizon
proof unfold_locales
  fix s show "ws_now s \<le> ws_horizon s" by (simp add: ws_horizon_def ws_now_def stream_horizon_def)
qed (auto dest: ws_read_horizon)


section \<open>The loop forwards the frames of the stream\<close>

text \<open>Writing does not touch what will be read.\<close>

definition same_input :: "ws_stream \<Rightarrow> ws_stream \<Rightarrow> bool" where
  "same_input w w' \<longleftrightarrow> ws_pend w' = ws_pend w \<and> ws_horizon w' = ws_horizon w \<and> ws_now w' = ws_now w \<and>
     (ws_idle w \<longrightarrow> ws_idle w')"

lemma same_input_refl [simp]: "same_input w w"
  by (simp add: same_input_def)

lemma same_input_trans: "same_input w w1 \<Longrightarrow> same_input w1 w2 \<Longrightarrow> same_input w w2"
  by (simp add: same_input_def)

lemma ws_write_all_same:
  assumes "ws_write_all w d = (r, w')"
  shows "same_input w w' \<and> (ws_idle w \<longrightarrow> r = Inr ())"
proof -
  note frame = ws_write_all_frame [OF assms]
  have "ws_pend w' = ws_pend w" "ws_horizon w' = ws_horizon w"
    using frame by (simp_all add: ws_pend_def ws_rest_def stream_pend_def ws_horizon_def
        stream_horizon_def ws_now_def)
  moreover have "ws_idle w' \<and> r = Inr ()" if "ws_idle w"
  proof (cases "d = []")
    case True
    with assms that show ?thesis by (simp add: ws_write_all_def)
  next
    case False
    obtain a i where i: "stream_write_all (inner w) (server_frame OP_BIN d) = (a, i)" by fastforce
    with faultless_write [OF _ i] that have "a = Inr ()" "faultless i" by (auto simp: ws_idle_def)
    with stream_write_all_frame [OF i] assms False i that show ?thesis
      by (auto simp: ws_write_all_def ws_write_def ws_idle_def stream_idle_def)
  qed
  ultimately show ?thesis using frame by (simp add: same_input_def)
qed

lemma ws_drain_same:
  "ws_drain w q t = (gone, w', q', t') \<Longrightarrow>
   same_input w w' \<and> hangup q' = hangup q \<and> (gone \<longrightarrow> hangup q \<le> ws_now w)"
proof (induction w q t rule: ws_drain.induct)
  case (1 w q t)
  show ?case
  proof (cases "try_recv (ws_now w) q")
    case (Pair r q1)
    have q1: "hangup q1 = hangup q" "r = RxDisconnected \<longrightarrow> hangup q \<le> ws_now w"
      using Pair by (auto simp: try_recv_def split: list.splits if_splits)
    show ?thesis
    proof (cases r)
      case (RxFrame f)
      obtain a w1 where w1: "write_frame ws_write_all w f = (a, w1)" by fastforce
      then have same: "same_input w w1" using ws_write_all_same by (simp add: write_frame_def)
      then have now: "ws_now w1 = ws_now w" by (simp add: same_input_def)
      show ?thesis
      proof (cases a)
        case (Inl e)
        with 1(2) Pair RxFrame w1 same q1 show ?thesis by (auto simp: ws_drain.simps [of w])
      next
        case (Inr u)
        with 1(2) Pair RxFrame w1 have "ws_drain w1 q1 (ws_now w1) = (gone, w', q', t')"
          by (simp add: ws_drain.simps [of w])
        from 1(1) [OF Pair [symmetric] RxFrame w1 [symmetric] Inr this] q1 same now show ?thesis
          by (auto intro: same_input_trans)
      qed
    qed (use 1(2) Pair q1 in \<open>auto simp: ws_drain.simps [of w]\<close>)
  qed
qed

lemma ws_heartbeat_same:
  assumes "ws_heartbeat w t = (go, w', t')"
  shows "same_input w w' \<and> (ws_idle w \<longrightarrow> go)"
proof (cases "HEARTBEAT_INTERVAL \<le> ws_now w - t")
  case True
  obtain r w1 where w1: "ws_write_all w heartbeat = (r, w1)" by fastforce
  from ws_write_all_same [OF w1] assms True w1 show ?thesis
    by (cases r) (auto simp: ws_heartbeat_def write_frame_def)
next
  case False
  with assms show ?thesis by (simp add: ws_heartbeat_def)
qed

text \<open>One round up to the read.\<close>

lemma ws_loop_round:
  obtains gone w1 q1 t1 go w2 t2 r w3 where "ws_drain w q t = (gone, w1, q1, t1)"
    and "ws_heartbeat w1 t1 = (go, w2, t2)" and "ws_read w2 (16 * 1024) = (r, w3)"
    and "same_input w w2" and "hangup q1 = hangup q" and "gone \<Longrightarrow> hangup q \<le> ws_now w"
    and "ws_idle w \<Longrightarrow> go"
proof -
  obtain gone w1 q1 t1 where d: "ws_drain w q t = (gone, w1, q1, t1)" by (cases "ws_drain w q t") auto
  obtain go w2 t2 where h: "ws_heartbeat w1 t1 = (go, w2, t2)" by (cases "ws_heartbeat w1 t1") auto
  obtain r w3 where r: "ws_read w2 (16 * 1024) = (r, w3)" by fastforce
  have "same_input w w1" "same_input w1 w2" using ws_drain_same [OF d] ws_heartbeat_same [OF h] by auto
  then have "same_input w w2" "ws_idle w \<Longrightarrow> go"
    using ws_heartbeat_same [OF h] by (auto intro: same_input_trans simp: same_input_def)
  with that [OF d h r] ws_drain_same [OF d] show thesis by blast
qed

lemma ws_loop_prefix:
  assumes "ws_loop w d k peer q t u = (down, k', w')" and "next_frame (buf d) = None"
  shows "\<exists>fs gs. fst (split_frames (buf d @ ws_pend w)) = fs @ gs \<and> k' = snd (offer (received peer fs) k)"
  using assms
proof (induction w d k peer q t u rule: ws_loop.induct)
  case (1 w d k peer q t u)
  obtain gone w1 q1 t1 go w2 t2 r w3 where round: "ws_drain w q t = (gone, w1, q1, t1)"
      "ws_heartbeat w1 t1 = (go, w2, t2)" "ws_read w2 (16 * 1024) = (r, w3)"
    and same: "ws_pend w2 = ws_pend w"
    by (rule ws_loop_round [of w q t]) (auto simp: same_input_def)
  have stop: ?case if "k' = k"
    using that by (intro exI [of _ "[]"] exI [of _ "fst (split_frames (buf d @ ws_pend w))"]) simp
  show ?case
  proof (cases "gone \<or> \<not> go \<or> HEARTBEAT_TIMEOUT \<le> ws_now w2 - u \<or> r = Inr [] \<or>
      (\<exists>e. r = Inl e \<and> \<not> is_idle_tick e)")
    case True
    then have "k' = k"
      using 1(3) round by (subst (asm) ws_loop.simps) (auto split: if_splits)
    then show ?thesis by (rule stop)
  next
    case False
    then have go: "\<not> gone" "\<not> \<not> go" "\<not> HEARTBEAT_TIMEOUT \<le> ws_now w2 - u" by auto
    show ?thesis
    proof (cases r)
      case (Inl e)
      with False have tick: "is_idle_tick e" by simp
      have "ws_loop w3 d k peer q1 t2 u = (down, k', w')"
        using 1(3) round go Inl tick by (subst (asm) ws_loop.simps) simp
      from 1(1) [OF round(1) [symmetric] refl refl go(1) round(2) [symmetric] refl go(2,3) round(3) [symmetric]
          Inl tick this 1(4)] ws.rd_err [OF round(3) [unfolded Inl]] same
      show ?thesis by simp
    next
      case (Inr bs)
      with False have bs: "bs \<noteq> []" by simp
      let ?all = "split_frames (buf d @ bs)"
      have p: "ws_pend w = bs @ ws_pend w3" using ws.rd_ok round(3) Inr same by simp
      obtain ok d1 k1 where fw: "forward_frames (extend_from d bs) k peer = (ok, d1, k1)"
        by (cases "forward_frames (extend_from d bs) k peer")
      note spec = forward_frames_offer [OF fw, unfolded extend_from_def, simplified]
      show ?thesis
      proof (cases ok)
        case True
        have "ws_loop w3 d1 k1 peer q1 t2 (ws_now w3) = (down, k', w')"
          using 1(3) round go Inr bs fw True by (subst (asm) ws_loop.simps) simp
        moreover have d1: "buf d1 = snd ?all" using spec True by simp
        ultimately have "\<exists>fs gs. fst (split_frames (snd ?all @ ws_pend w3)) = fs @ gs \<and>
            k' = snd (offer (received peer fs) k1)"
          using 1(2) [OF round(1) [symmetric] refl refl go(1) round(2) [symmetric] refl go(2,3)
              round(3) [symmetric] Inr bs fw [symmetric] refl True] split_frames_rest by simp
        then obtain fs gs where "fst (split_frames (snd ?all @ ws_pend w3)) = fs @ gs"
          "k' = snd (offer (received peer fs) k1)" by blast
        with p spec True show ?thesis
          using split_frames_append [of "buf d @ bs" "ws_pend w3"]
          by (intro exI [of _ "fst ?all @ fs"] exI [of _ gs]) (auto simp: offer_append split: prod.split)
      next
        case False
        have "k' = k1" using 1(3) round go Inr bs fw False by (subst (asm) ws_loop.simps) simp
        with p spec show ?thesis
          using split_frames_append [of "buf d @ bs" "ws_pend w3"]
          by (intro exI [of _ "fst ?all"] exI [of _ "fst (split_frames (snd ?all @ ws_pend w3))"])
            (auto dest: arg_cong [where f = snd])
      qed
    qed
  qed
qed

lemma ws_loop_all:
  assumes "ws_idle w" and "ws_horizon w < u + HEARTBEAT_TIMEOUT" and "ws_horizon w < hangup q"
    and "next_frame (buf d) = None" and "room k = None" and "u \<le> ws_now w"
  shows "\<exists>w'. ws_loop w d k peer q t u =
    (True, k\<lparr>sent := sent k @ received peer (fst (split_frames (buf d @ ws_pend w)))\<rparr>, w')"
  using assms
proof (induction w d k peer q t u rule: ws_loop.induct)
  case (1 w d k peer q t u)
  obtain gone w1 q1 t1 go w2 t2 r w3 where round: "ws_drain w q t = (gone, w1, q1, t1)"
      "ws_heartbeat w1 t1 = (go, w2, t2)" "ws_read w2 (16 * 1024) = (r, w3)"
    and same: "same_input w w2" and q1: "hangup q1 = hangup q" and g: "gone \<Longrightarrow> hangup q \<le> ws_now w"
    and h: "ws_idle w \<Longrightarrow> go"
    by (rule ws_loop_round [of w q t]) blast
  have hz: "ws_now w \<le> ws_horizon w" by (rule ws.now_horizon)
  have go: "\<not> gone" "\<not> \<not> go" "\<not> HEARTBEAT_TIMEOUT \<le> ws_now w2 - u"
    using g h 1(3-5,8) hz same by (auto simp: same_input_def)
  have w3: "ws_idle w3" "ws_horizon w3 = ws_horizon w" "ws_now w \<le> ws_now w3"
    using ws.idle_rd [OF _ round(3)] ws_read_horizon [OF round(3)] same 1(3)
    by (auto simp: same_input_def)
  show ?case
  proof (cases r)
    case (Inl e)
    then have tick: "is_idle_tick e"
      using ws.idle_err round(3) same 1(3) by (auto simp: same_input_def)
    have "ws_loop w d k peer q t u = ws_loop w3 d k peer q1 t2 u"
      using round go Inl tick by (subst ws_loop.simps) simp
    with 1(1) [OF round(1) [symmetric] refl refl go(1) round(2) [symmetric] refl go(2,3) round(3) [symmetric]
        Inl tick w3(1)] w3 q1 1(4-8) ws.rd_err [OF round(3) [unfolded Inl]] same
    show ?thesis by (simp add: same_input_def)
  next
    case (Inr bs)
    have p: "ws_pend w = bs @ ws_pend w3"
      using ws.rd_ok [OF round(3) [unfolded Inr]] same by (simp add: same_input_def)
    show ?thesis
    proof (cases "bs = []")
      case True
      then have "ws_pend w = []" using ws.rd_eof round(3) Inr same by (simp add: same_input_def)
      then show ?thesis
        using round go Inr True 1(6) by (subst ws_loop.simps) (simp add: split_frames_None)
    next
      case False
      let ?all = "split_frames (buf d @ bs)"
      let ?d = "d\<lparr>buf := snd ?all\<rparr>" and ?k = "k\<lparr>sent := sent k @ received peer (fst ?all)\<rparr>"
      have fw: "forward_frames (extend_from d bs) k peer = (True, ?d, ?k)"
        using 1(7) by (simp add: forward_frames_alive extend_from_def)
      have "ws_loop w d k peer q t u = ws_loop w3 ?d ?k peer q1 t2 (ws_now w3)"
        using round go Inr False fw by (subst ws_loop.simps) simp
      with 1(2) [OF round(1) [symmetric] refl refl go(1) round(2) [symmetric] refl go(2,3)
          round(3) [symmetric] Inr False fw [symmetric] refl TrueI w3(1)] w3 q1 1(4,5,7,8) p
      show ?thesis
        using split_frames_append [of "buf d @ bs" "ws_pend w3"] split_frames_rest [of "buf d @ bs"]
        by simp
    qed
  qed
qed


section \<open>Sessions\<close>

lemma request_loop_time:
  "request_loop s b deadline = (r, s') \<Longrightarrow> stream_horizon s' = stream_horizon s \<and> clock s \<le> clock s'"
proof (induction s b deadline rule: request_loop.induct)
  case (1 s b deadline)
  show ?case
  proof (cases "find_subsequence b (CRLF @ CRLF) = None \<and> \<not> MAX_REQUEST_BYTES < length b \<and>
      \<not> deadline \<le> clock s")
    case False
    with 1(3) show ?thesis
      by (subst (asm) request_loop.simps)
        (auto simp: stream_horizon_def split: option.splits if_splits prod.splits
          dest!: stream_write_all_frame)
  next
    case True
    then have go: "find_subsequence b (CRLF @ CRLF) = None" "\<not> MAX_REQUEST_BYTES < length b"
      "\<not> deadline \<le> clock s" by auto
    obtain q s1 where rd: "stream_read s 1024 = (q, s1)" by fastforce
    have t: "stream_horizon s1 = stream_horizon s" "clock s \<le> clock s1"
      using stream_read_delay [OF rd] stream_read_clock [OF rd] by (auto simp: stream_horizon_def)
    show ?thesis
    proof (cases q)
      case (Inl e)
      with 1(1) [OF go rd [symmetric] Inl] 1(3) go rd t show ?thesis
        by (subst (asm) (2) request_loop.simps) (auto split: if_splits)
    next
      case (Inr bs)
      with 1(2) [OF go rd [symmetric] Inr] 1(3) go rd t show ?thesis
        by (subst (asm) (2) request_loop.simps) (auto split: if_splits)
    qed
  qed
qed

lemma accept_upgrade_time:
  assumes "accept_upgrade s first deadline = (Inr (Some w), s')"
  shows "ws_horizon w = stream_horizon s \<and> clock s \<le> ws_now w"
proof -
  obtain x s1 where loop: "request_loop s (case first of None \<Rightarrow> [] | Some b \<Rightarrow> [b]) deadline = (x, s1)"
    by fastforce
  from assms loop have "inbound (inner w) = inbound s1 \<and> clock (inner w) = clock s1"
    by (auto simp: accept_upgrade_def Let_def ws_new_def split: prod.splits sum.splits option.splits
        dest!: stream_write_all_frame stream_flush_frame)
  with request_loop_time [OF loop] show ?thesis
    by (simp add: ws_horizon_def ws_now_def stream_horizon_def)
qed


text \<open>Bytes that were sent stay sent.\<close>

definition sent_bytes :: "ws_stream \<Rightarrow> bytes" where
  "sent_bytes w = outbound (inner w)"

lemma stream_write_all_grows: "stream_write_all s bs = (r, s') \<Longrightarrow> prefix (outbound s) (outbound s')"
  by (auto simp: stream_write_all_def split: list.splits option.splits prod.splits)

lemma send_close_grows: "prefix (sent_bytes w) (sent_bytes (send_close c w))"
  by (auto simp: send_close_def Let_def sent_bytes_def split: prod.split
      dest!: stream_write_all_grows stream_flush_frame)

lemma pump_grows:
  assumes "pump w = (r, w')"
  shows "prefix (sent_bytes w) (sent_bytes w')"
  using assms
proof (induction rule: pump_rule)
  case (ping_write w p n e i)
  then show ?case using stream_write_all_grows by (auto simp: sent_bytes_def)
next
  case (ping_flush w p n u i e j)
  then show ?case using stream_write_all_grows [OF ping_flush(2)] stream_flush_frame [OF ping_flush(3)]
    by (simp add: sent_bytes_def)
next
  case (ping w p n u i v j r w')
  then show ?case using stream_write_all_grows [OF ping(2)] stream_flush_frame [OF ping(3)]
    by (auto simp: sent_bytes_def dest: prefix_order.trans)
next
  case (close w c n)
  then show ?case using send_close_grows [of "w\<lparr>rawbuf := drop n (rawbuf w)\<rparr>" c]
    by (simp add: sent_bytes_def)
next
  case (violation w c n)
  then show ?case using send_close_grows [of w c] by (simp add: sent_bytes_def)
qed (auto simp: sent_bytes_def)

lemma ws_read_grows:
  assumes "ws_read w n = (r, w')"
  shows "prefix (sent_bytes w) (sent_bytes w')"
  using assms
proof (induction rule: ws_read_rule)
  case (pumped w w1 r w')
  then show ?case using pump_grows [OF pumped(3)] by (blast intro: prefix_order.trans)
next
  case (stalled w w1 e i)
  then show ?case using pump_grows [OF stalled(3)] stream_read_frame [OF stalled(4)]
    by (simp add: sent_bytes_def)
next
  case (finished w w1 i)
  then show ?case using pump_grows [OF finished(3)] stream_read_frame [OF finished(4)]
    by (simp add: sent_bytes_def)
next
  case (filled w w1 bs i r w')
  then show ?case using pump_grows [OF filled(3)] stream_read_frame [OF filled(4)]
    by (auto simp: sent_bytes_def dest: prefix_order.trans)
qed (auto simp: sent_bytes_def dest: pump_grows)

lemma ws_write_all_grows: "ws_write_all w d = (r, w') \<Longrightarrow> prefix (sent_bytes w) (sent_bytes w')"
  using stream_write_all_grows [of "inner w"]
  by (auto simp: ws_write_all_def ws_write_def sent_bytes_def split: if_splits prod.splits sum.splits)

lemma ws_drain_grows: "ws_drain w q t = (gone, w', q', t') \<Longrightarrow> prefix (sent_bytes w) (sent_bytes w')"
proof (induction w q t rule: ws_drain.induct)
  case (1 w q t)
  show ?case
  proof (cases "try_recv (ws_now w) q")
    case (Pair r q1)
    show ?thesis
    proof (cases r)
      case (RxFrame f)
      obtain a w1 where w1: "write_frame ws_write_all w f = (a, w1)" by fastforce
      have "prefix (sent_bytes w) (sent_bytes w1)" using w1 ws_write_all_grows by (simp add: write_frame_def)
      with 1(1) [OF Pair [symmetric] RxFrame w1 [symmetric]] 1(2) Pair RxFrame w1 show ?thesis
        by (cases a) (auto simp: ws_drain.simps [of w] dest: prefix_order.trans)
    qed (use 1(2) Pair in \<open>auto simp: ws_drain.simps [of w]\<close>)
  qed
qed

lemma ws_heartbeat_grows: "ws_heartbeat w t = (go, w', t') \<Longrightarrow> prefix (sent_bytes w) (sent_bytes w')"
  by (auto simp: ws_heartbeat_def write_frame_def split: if_splits prod.splits sum.splits
      dest: ws_write_all_grows)

lemma ws_loop_grows:
  "ws_loop w d k peer q t u = (down, k', w') \<Longrightarrow> prefix (sent_bytes w) (sent_bytes w')"
proof (induction w d k peer q t u rule: ws_loop.induct)
  case (1 w d k peer q t u)
  obtain gone w1 q1 t1 go w2 t2 r w3 where round: "ws_drain w q t = (gone, w1, q1, t1)"
      "ws_heartbeat w1 t1 = (go, w2, t2)" "ws_read w2 (16 * 1024) = (r, w3)"
    by (rule ws_loop_round [of w q t]) blast
  have 12: "prefix (sent_bytes w) (sent_bytes w1)" "prefix (sent_bytes w) (sent_bytes w2)"
    and 3: "prefix (sent_bytes w) (sent_bytes w3)"
    using ws_drain_grows [OF round(1)] ws_heartbeat_grows [OF round(2)] ws_read_grows [OF round(3)]
    by (auto intro: prefix_order.trans)
  obtain ok d1 k1 where fw: "forward_frames (extend_from d (projr r)) k peer = (ok, d1, k1)"
    by (cases "forward_frames (extend_from d (projr r)) k peer")
  note IH = 1(1) [OF round(1) [symmetric] refl refl _ round(2) [symmetric] refl _ _ round(3) [symmetric]]
    1(2) [OF round(1) [symmetric] refl refl _ round(2) [symmetric] refl _ _ round(3) [symmetric] _ _ _ refl]
  from 1(3) have "w' \<in> {w1, w2, w3} \<or> prefix (sent_bytes w3) (sent_bytes w')"
    using IH fw by (subst (asm) ws_loop.simps)
      (auto simp: round(1,2) round(3) [simplified] split: if_splits sum.splits)
  with 12 3 show ?case by (auto dest: prefix_order.trans)
qed


lemma ws_write_all_frame_sent:
  assumes "ws_idle w" and "d \<noteq> []"
  obtains w' where "ws_write_all w d = (Inr (), w')" and "same_input w w'"
    and "sent_bytes w' = sent_bytes w @ server_frame OP_BIN d"
proof -
  obtain a i where i: "stream_write_all (inner w) (server_frame OP_BIN d) = (a, i)" by fastforce
  have "a = Inr ()" "outbound i = outbound (inner w) @ server_frame OP_BIN d"
    using faultless_write [OF _ i] assms(1) by (auto simp: ws_idle_def)
  with i assms(2) have w: "ws_write_all w d = (Inr (), w\<lparr>inner := i\<rparr>)"
    "sent_bytes (w\<lparr>inner := i\<rparr>) = sent_bytes w @ server_frame OP_BIN d"
    by (simp_all add: ws_write_all_def ws_write_def sent_bytes_def)
  with ws_write_all_same [OF w(1)] that show thesis by blast
qed

text \<open>The session after a handshake, in general and when everything arrives in time.\<close>

lemma ws_session_after_hello:
  assumes "accept_upgrade s first deadline = (Inr (Some w), s1)"
    and "ws_write_all w (hello me) = (Inr (), w1)"
    and "ws_read_hello ws_read ws_now w1 decoder_new deadline = Some (Some peer, d, w2)"
    and "room k = None" and "answer k = Some True"
  obtains k' w3 fs gs down where "ws_session s first k me deadline = Some (k', inner w3)"
    and "fst (split_frames (buf d @ ws_pend w2)) = fs @ gs"
    and "sent k' = sent k @ ConnectionUp peer (fresh k) (Suc (fresh k)) # received peer fs @
      (if down then [ConnectionDown peer] else [])"
    and "prefix (sent_bytes w2) (sent_bytes w3)"
    and "ws_idle w2 \<Longrightarrow> ws_horizon w2 < ws_now w2 + HEARTBEAT_TIMEOUT \<Longrightarrow>
      ws_horizon w2 < hangup (feed_rx k) \<Longrightarrow> down \<and> gs = []"
proof -
  let ?k1 = "k\<lparr>fresh := fresh k + 2, sent := sent k @ [ConnectionUp peer (fresh k) (Suc (fresh k))]\<rparr>"
  let ?fs = "fst (split_frames (buf d))" and ?d = "d\<lparr>buf := snd (split_frames (buf d))\<rparr>"
  let ?k2 = "?k1\<lparr>sent := sent ?k1 @ received peer ?fs\<rparr>"
  let ?in_time = "ws_idle w2 \<and> ws_horizon w2 < ws_now w2 + HEARTBEAT_TIMEOUT \<and>
    ws_horizon w2 < hangup (feed_rx k)"
  have fw: "forward_frames d ?k1 peer = (True, ?d, ?k2)"
    using assms(4) by (subst forward_frames_alive) simp_all
  obtain down k3 w3 where lp: "ws_loop w2 ?d ?k2 peer (feed_rx k) (ws_now w2) (ws_now w2) = (down, k3, w3)"
    by (cases "ws_loop w2 ?d ?k2 peer (feed_rx k) (ws_now w2) (ws_now w2)")
  have none: "next_frame (buf ?d) = None" by (simp add: split_frames_rest)
  obtain fs gs where fs: "fst (split_frames (buf ?d @ ws_pend w2)) = fs @ gs"
      "k3 = ?k2\<lparr>sent := sent ?k2 @ received peer fs\<rparr>" "?in_time \<longrightarrow> down \<and> gs = []"
  proof (cases ?in_time)
    case True
    then show thesis
      using ws_loop_all [of w2 "ws_now w2" "feed_rx k" ?d ?k2 peer "ws_now w2"] none assms(4) lp
      by (intro that [of "fst (split_frames (buf ?d @ ws_pend w2))" "[]"]) auto
  next
    case False
    then show thesis using ws_loop_prefix [OF lp none] assms(4) that by auto
  qed
  let ?k' = "if down then snd (cmd_send (ConnectionDown peer) k3) else k3"
  have "ws_session s first k me deadline = Some (?k', inner w3)"
    using assms(1-3) register_accepted [OF assms(4,5), of peer] fw lp
    by (simp add: ws_session_def write_frame_def)
  moreover have "fst (split_frames (buf d @ ws_pend w2)) = (?fs @ fs) @ gs"
    using split_frames_append [of "buf d" "ws_pend w2"] fs(1) by simp
  moreover have "sent ?k' = sent k @ ConnectionUp peer (fresh k) (Suc (fresh k)) #
      received peer (?fs @ fs) @ (if down then [ConnectionDown peer] else [])"
    using assms(4) by (simp add: fs(2))
  ultimately show thesis using that [of ?k' w3 "?fs @ fs" gs down] ws_loop_grows [OF lp] fs(3) by blast
qed




text \<open>C24. Whatever the client, the network and the socket do, a WebSocket session ends, and what the
  broker sees of it is exact: nothing without a valid upgrade request and a HELLO as the first
  frame in the data of the WebSocket frames behind it; otherwise one registration and, if it is
  accepted, the data and acknowledgement envelopes of an initial part of the frames that follow
  the HELLO, in their order, and at most one notice that the connection is down after them.\<close>

theorem ws_session_prefix:
  assumes "room k = None"
  shows "\<exists>k' s'. ws_session s first k me deadline = Some (k', s') \<and>
    (sent k' = sent k \<or>
     (\<exists>req key raw f X peer. (case first of None \<Rightarrow> [] | Some b \<Rightarrow> [b]) @ stream_pend s = req @ raw \<and>
       is_request req \<and> parse_upgrade req = Inr key \<and>
       next_frame (ws_data raw) = Some (f, X) \<and> hello_peer f = Some peer \<and>
       (if answer k = Some True
        then (\<exists>fs gs down. fst (split_frames X) = fs @ gs \<and>
          sent k' = sent k @ ConnectionUp peer (fresh k) (Suc (fresh k)) # received peer fs @
            (if down then [ConnectionDown peer] else []))
        else sent k' = sent k @ [ConnectionUp peer (fresh k) (Suc (fresh k))])))"
proof (cases "\<exists>w s1. accept_upgrade s first deadline = (Inr (Some w), s1)")
  case False
  then show ?thesis
    by (auto simp: ws_session_def split: prod.split sum.split option.split)
next
  case True
  then obtain w s1 where w: "accept_upgrade s first deadline = (Inr (Some w), s1)" by blast
  from accept_upgrade_sound [OF w] obtain req key where req: "is_request req"
      "parse_upgrade req = Inr key"
      "(case first of None \<Rightarrow> [] | Some b \<Rightarrow> [b]) @ stream_pend s = req @ rawbuf w @ stream_pend s1"
      "ws_pend w = ws_data (rawbuf w @ stream_pend s1)" by blast
  obtain a w1 where w1: "ws_write_all w (hello me) = (a, w1)" by fastforce
  then have pend: "ws_pend w1 = ws_pend w" using ws_write_all_same by (auto simp: same_input_def)
  obtain h d w2 where h: "ws_read_hello ws_read ws_now w1 decoder_new deadline = Some (h, d, w2)"
    using ws.ws_read_hello_returns by blast
  show ?thesis
  proof (cases "a = Inr () \<and> h \<noteq> None")
    case False
    with w w1 h show ?thesis by (cases a; cases h) (auto simp: ws_session_def write_frame_def)
  next
    case ok: True
    then obtain peer where peer: "h = Some peer" by blast
    obtain f where f: "next_frame (ws_data (rawbuf w @ stream_pend s1)) = Some (f, buf d @ ws_pend w2)"
        "hello_peer f = Some peer"
      using ws.ws_read_hello_sound [OF h [unfolded peer]] pend req(4) by (auto simp: decoder_new_def)
    show ?thesis
    proof (cases "answer k = Some True")
      case ans: False
      from ok w w1 h peer register_refused [OF assms ans, of peer]
      have "ws_session s first k me deadline = Some (k\<lparr>fresh := fresh k + 2,
          sent := sent k @ [ConnectionUp peer (fresh k) (Suc (fresh k))]\<rparr>, inner w2)"
        by (simp add: ws_session_def write_frame_def)
      with ans f req show ?thesis by (simp (no_asm_simp)) blast
    next
      case ans: True
      have run: "accept_upgrade s first deadline = (Inr (Some w), s1)"
        "ws_write_all w (hello me) = (Inr (), w1)"
        "ws_read_hello ws_read ws_now w1 decoder_new deadline = Some (Some peer, d, w2)"
        using w w1 h ok peer by simp_all
      show ?thesis
      proof (rule ws_session_after_hello [OF run assms ans])
        fix k' w3 fs gs down
        assume out: "ws_session s first k me deadline = Some (k', inner w3)"
          "fst (split_frames (buf d @ ws_pend w2)) = fs @ gs"
          "sent k' = sent k @ ConnectionUp peer (fresh k) (Suc (fresh k)) # received peer fs @
            (if down then [ConnectionDown peer] else [])"
        show ?thesis
          by (rule exI [of _ k'], rule exI [of _ "inner w3"], rule conjI [OF out(1)], rule disjI2,
              rule exI [of _ req], rule exI [of _ key], rule exI [of _ "rawbuf w @ stream_pend s1"],
              rule exI [of _ f], rule exI [of _ "buf d @ ws_pend w2"], rule exI [of _ peer],
              simp only: req(1-3) f ans if_True simp_thms)
            (intro exI conjI, rule out(2), rule out(3))
      qed
    qed
  qed
qed

theorem ws_session_prefix_witness:
  "\<exists>k' s'. ws_session
      \<lparr>inbound = [(5, Arrive [0x47, 0x45]), (200, Stall OtherKind)], outbound = [],
       wfaults = [], ffaults = [], clock = 100\<rparr> None
      \<lparr>sent = [], room = None, answer = Some False, feed_rx = \<lparr>queue = [], hangup = 0\<rparr>, fresh = 0\<rparr>
      (replicate 16 5) 15000 = Some (k', s') \<and>
    (sent k' = [] \<or> (\<exists>peer. sent k' = [ConnectionUp peer 0 (Suc 0)]))"
  using ws_session_prefix [of "\<lparr>sent = [], room = None, answer = Some False,
      feed_rx = \<lparr>queue = [], hangup = 0\<rparr>, fresh = 0\<rparr>" "\<lparr>inbound = [(5, Arrive [0x47, 0x45]),
      (200, Stall OtherKind)], outbound = [], wfaults = [], ffaults = [], clock = 100\<rparr>" None
      "replicate 16 5" 15000]
  by auto


section \<open>Sniffing\<close>

lemma peek_script_spec:
  "peek_script es t = (r, es', t') \<Longrightarrow>
   arrivals es' = arrivals es \<and> t' + script_delay es' = t + script_delay es \<and>
   (script_idle es \<longrightarrow> script_idle es' \<and> (\<forall>e. r = Inl e \<longrightarrow> is_idle_tick e)) \<and>
   (\<forall>bs. r = Inr bs \<longrightarrow> bs = take 1 (arrivals es))"
  by (induction es t rule: peek_script.induct)
    (auto simp: script_delay_def script_idle_def take_Cons' neq_Nil_conv split: if_splits)

lemma stream_peek_spec:
  assumes "stream_peek s = (r, s')"
  shows "stream_pend s' = stream_pend s" "stream_horizon s' = stream_horizon s"
    "outbound s' = outbound s" "wfaults s' = wfaults s" "ffaults s' = ffaults s"
    "stream_idle s \<Longrightarrow> stream_idle s'" "stream_idle s \<Longrightarrow> r = Inl e \<Longrightarrow> is_idle_tick e"
    "r = Inr bs \<Longrightarrow> bs = take 1 (stream_pend s)"
  using assms
  by (auto simp: stream_peek_def stream_pend_def stream_horizon_def stream_idle_def split: prod.splits
      dest!: peek_script_spec)

lemma peek_first_byte_spec:
  assumes "stream_idle s" and "stream_horizon s < deadline"
  obtains s1 where "peek_first_byte s deadline =
      (case stream_pend s of [] \<Rightarrow> None | b # _ \<Rightarrow> Some b, s1)"
    and "stream_pend s1 = stream_pend s" and "stream_idle s1" and "stream_horizon s1 = stream_horizon s"
    and "outbound s1 = outbound s" and "wfaults s1 = wfaults s" and "ffaults s1 = ffaults s"
  using assms
proof (induction s deadline arbitrary: thesis rule: peek_first_byte.induct)
  case (1 s deadline)
  obtain r s1 where pk: "stream_peek s = (r, s1)" by fastforce
  note spec = stream_peek_spec [OF pk]
  show ?case
  proof (cases r)
    case (Inr bs)
    then have "peek_first_byte s deadline = (case stream_pend s of [] \<Rightarrow> None | b # _ \<Rightarrow> Some b, s1)"
      using pk spec(8) [of bs] by (subst peek_first_byte.simps) (auto split: list.split)
    then show ?thesis using 1(2) [of s1] spec(1-6) 1(3) by blast
  next
    case (Inl e)
    have tick: "is_idle_tick e" using spec(7) 1(3) Inl by blast
    have "clock s1 < deadline" using tcp.now_horizon [of s1] spec(2) 1(4) by linarith
    then have go: "\<not> deadline \<le> clock s1" by simp
    have eq: "peek_first_byte s deadline = peek_first_byte s1 deadline"
      using pk Inl tick go by (subst peek_first_byte.simps) simp
    obtain s2 where "peek_first_byte s1 deadline = (case stream_pend s1 of [] \<Rightarrow> None | b # _ \<Rightarrow> Some b, s2)"
        "stream_pend s2 = stream_pend s1" "stream_idle s2" "stream_horizon s2 = stream_horizon s1"
        "outbound s2 = outbound s1" "wfaults s2 = wfaults s1" "ffaults s2 = ffaults s1"
      using 1(1) [OF pk [symmetric] Inl tick go] spec 1(3,4) by auto
    with eq spec(1-5) 1(2) [of s2] show ?thesis by simp
  qed
qed

lemma hello_hd: "hd (hello i) = 0"
  by (simp add: hello_def put_len_prefix_def u32_to_be_bytes_def be_digits_eval IDENTITY_SIZE_def)

text \<open>The bind side routes a connection by its first byte, without consuming it: with all bytes in
  time, a stream that starts with the zero byte of a HELLO frame is given to the plain session and
  one that starts with the \<open>G\<close> of an HTTP request to the WebSocket session, in each case on a
  socket that still has all its bytes; any other first byte, and a peer that sends nothing, closes
  the connection without a byte sent or a command to the broker.\<close>

theorem sniff_routes:
  assumes "stream_idle s" and "script_delay (inbound s) < HEARTBEAT_TIMEOUT"
  shows "\<exists>s1. stream_pend s1 = stream_pend s \<and> outbound s1 = outbound s \<and> stream_idle s1 \<and>
    stream_horizon s1 = stream_horizon s \<and>
    plain_or_ws_session can_clone s k me True =
      (case stream_pend s of
         [] \<Rightarrow> Some (k, s1, None)
       | b # _ \<Rightarrow>
           if b = 0 then plain_session can_clone s1 k me
           else if b = of_char (CHR ''G'') then
             map_option (\<lambda>(k', s'). (k', s', None))
               (ws_session s1 None k me (clock s + HEARTBEAT_TIMEOUT))
           else Some (k, s1, None)) \<and>
    (is_id i \<longrightarrow> hd (hello i) = 0)"
proof -
  have "stream_horizon s < clock s + HEARTBEAT_TIMEOUT" using assms(2) by (simp add: stream_horizon_def)
  from peek_first_byte_spec [OF assms(1) this] obtain s1 where
    "peek_first_byte s (clock s + HEARTBEAT_TIMEOUT) = (case stream_pend s of [] \<Rightarrow> None | b # _ \<Rightarrow> Some b, s1)"
    "stream_pend s1 = stream_pend s" "stream_idle s1" "stream_horizon s1 = stream_horizon s"
    "outbound s1 = outbound s" by blast
  then show ?thesis
    by (intro exI [of _ s1]) (auto simp: plain_or_ws_session_def hello_hd split: list.split)
qed

theorem sniff_routes_witness:
  "\<exists>s1. stream_pend s1 = [0x50, 0x4F] \<and> outbound s1 = [] \<and>
    plain_or_ws_session True
      \<lparr>inbound = [(50, Stall TimedOut), (3, Arrive [0x50, 0x4F])], outbound = [], wfaults = [],
       ffaults = [], clock = 7\<rparr>
      \<lparr>sent = [], room = None, answer = None, feed_rx = \<lparr>queue = [], hangup = 0\<rparr>, fresh = 0\<rparr>
      (replicate 16 5) True =
    Some (\<lparr>sent = [], room = None, answer = None, feed_rx = \<lparr>queue = [], hangup = 0\<rparr>, fresh = 0\<rparr>,
      s1, None)"
  using sniff_routes [of "\<lparr>inbound = [(50, Stall TimedOut), (3, Arrive [0x50, 0x4F])], outbound = [],
      wfaults = [], ffaults = [], clock = 7\<rparr>" True "\<lparr>sent = [], room = None, answer = None,
      feed_rx = \<lparr>queue = [], hangup = 0\<rparr>, fresh = 0\<rparr>" "replicate 16 5" "[]"]
  by (auto simp: stream_idle_def script_idle_def is_idle_tick_def script_delay_def stream_pend_def
      HEARTBEAT_TIMEOUT_def)

end
