(* ===== verification/Conn_Tls.thy ===== *)
theory Conn_Tls
  imports Conn_Ws
begin

text \<open>
  The TLS session of the synchronous crate (\<open>rust-lib-sync/src/conn.rs\<close>): the handshake on one
  thread, and then a reader and a writer that share one \<open>rustls\<close> connection under a mutex and the
  writing half of the socket under another.

  The \<open>rustls\<close> connection is a parameter: a state \<open>'c\<close> with the operations of
  \<open>rustls::ConnectionCommon\<close> in the record \<open>tls_ops\<close>.  \<open>rustls::StreamOwned\<close>, which runs the
  handshake, is a byte stream of decrypted data (a \<open>stream\<close> of \<open>Io_Model\<close>), and taking it apart
  gives the connection and the socket.
\<close>

record 'c tls_ops =
  read_tls :: "'c \<Rightarrow> bytes \<Rightarrow> nat io_result \<times> 'c"       \<comment> \<open>take ciphertext from a slice\<close>
  process_new_packets :: "'c \<Rightarrow> bool \<times> 'c"             \<comment> \<open>whether there was no fatal error\<close>
  plain_read :: "'c \<Rightarrow> nat \<Rightarrow> bytes io_result \<times> 'c"     \<comment> \<open>\<open>reader().read\<close>\<close>
  plain_write :: "'c \<Rightarrow> bytes \<Rightarrow> nat io_result \<times> 'c"    \<comment> \<open>\<open>writer().write\<close>\<close>
  wants_write :: "'c \<Rightarrow> bool"
  write_tls :: "'c \<Rightarrow> bytes io_result \<times> 'c"             \<comment> \<open>the ciphertext put into the vector\<close>


section \<open>Extract, then write\<close>

text \<open>\<open>while c.wants_write() { c.write_tls(cipher)?; }\<close>\<close>

partial_function (option) flush_tls :: "'c tls_ops \<Rightarrow> 'c \<Rightarrow> bytes \<Rightarrow> (unit io_result \<times> 'c \<times> bytes) option" where
  "flush_tls ops c cipher =
     (if wants_write ops c then
        (case write_tls ops c of (r, c') \<Rightarrow>
           (case r of
              Inl e \<Rightarrow> Some (Inl e, c', cipher)
            | Inr out \<Rightarrow> flush_tls ops c' (cipher @ out)))
      else Some (Inr (), c, cipher))"

text \<open>The loop over the frame; \<open>rest\<close> is \<open>frame[off..]\<close>.\<close>

partial_function (option) encrypt_frame :: "'c tls_ops \<Rightarrow> 'c \<Rightarrow> bytes \<Rightarrow> bytes \<Rightarrow>
    (unit io_result \<times> 'c \<times> bytes) option" where
  "encrypt_frame ops c rest cipher =
     (if rest = [] then Some (Inr (), c, cipher)
      else case plain_write ops c rest of (r, c1) \<Rightarrow>
        (case r of
           Inl e \<Rightarrow> Some (Inl e, c1, cipher)
         | Inr n \<Rightarrow>
             (case flush_tls ops c1 cipher of
                None \<Rightarrow> None
              | Some (q, c2, cipher2) \<Rightarrow>
                  (case q of
                     Inl e \<Rightarrow> Some (Inl e, c2, cipher2)
                   | Inr _ \<Rightarrow> encrypt_frame ops c2 (drop n rest) cipher2))))"

text \<open>The part of \<open>write_pending\<close> under the lock of the connection.\<close>

definition encrypt_pending :: "'c tls_ops \<Rightarrow> 'c \<Rightarrow> bytes option \<Rightarrow> (unit io_result \<times> 'c \<times> bytes) option" where
  "encrypt_pending ops c frame =
     (case (case frame of None \<Rightarrow> Some (Inr (), c, []) | Some f \<Rightarrow> encrypt_frame ops c f []) of
        None \<Rightarrow> None
      | Some (Inl e, c1, cipher) \<Rightarrow> Some (Inl e, c1, cipher)
      | Some (Inr _, c1, cipher) \<Rightarrow> flush_tls ops c1 cipher)"

text \<open>What the two threads share: the connection, the writing half of the socket, and whether the
  writer still runs.\<close>

record 'c tls_shared =
  t_conn :: 'c
  t_sock :: stream
  t_writing :: bool

definition write_pending :: "'c tls_ops \<Rightarrow> bytes option \<Rightarrow> 'c tls_shared \<Rightarrow>
    (unit io_result \<times> 'c tls_shared) option" where
  "write_pending ops frame sh =
     (case encrypt_pending ops (t_conn sh) frame of
        None \<Rightarrow> None
      | Some (r, c1, cipher) \<Rightarrow>
          let sh1 = sh\<lparr>t_conn := c1\<rparr>
          in case r of
               Inl e \<Rightarrow> Some (Inl e, sh1)
             | Inr _ \<Rightarrow>
                 if cipher \<noteq> [] then
                   (case stream_write_all (t_sock sh1) cipher of (q, w1) \<Rightarrow> Some (q, sh1\<lparr>t_sock := w1\<rparr>))
                 else Some (Inr (), sh1))"


section \<open>The writer\<close>

text \<open>One round of the writer: the frame it got, or a heartbeat, is sent; a failure ends it.\<close>

definition tls_writer_round :: "'c tls_ops \<Rightarrow> bytes \<Rightarrow> 'c tls_shared \<Rightarrow> 'c tls_shared option" where
  "tls_writer_round ops frame sh =
     (if \<not> t_writing sh then Some sh
      else case write_pending ops (Some frame) sh of
             None \<Rightarrow> None
           | Some (Inl e, sh1) \<Rightarrow> Some (sh1\<lparr>t_writing := False\<rparr>)
           | Some (Inr _, sh1) \<Rightarrow> Some sh1)"

text \<open>The writer on its own, from its queue.\<close>

partial_function (option) tls_writer :: "'c tls_ops \<Rightarrow> 'c tls_shared \<Rightarrow> writer_rx \<Rightarrow> 'c tls_shared option" where
  "tls_writer ops sh q =
     (case recv_timeout (clock (t_sock sh)) HEARTBEAT_INTERVAL q of (r, q', now) \<Rightarrow>
        let sh1 = sh\<lparr>t_sock := (t_sock sh)\<lparr>clock := now\<rparr>\<rparr>
        in case r of
             RxDisconnected \<Rightarrow> Some (sh1\<lparr>t_writing := False\<rparr>)
           | _ \<Rightarrow>
               (case tls_writer_round ops (case r of RxFrame frame \<Rightarrow> frame | _ \<Rightarrow> heartbeat) sh1 of
                  None \<Rightarrow> None
                | Some sh2 \<Rightarrow> if t_writing sh2 then tls_writer ops sh2 q' else Some sh2))"


section \<open>The reader\<close>

partial_function (option) drain_reader :: "'c tls_ops \<Rightarrow> 'c \<Rightarrow> bytes \<Rightarrow> ('c \<times> bytes) option" where
  "drain_reader ops c sink =
     (case plain_read ops c (16 * 1024) of (r, c') \<Rightarrow>
        (case r of
           Inr bs \<Rightarrow> if bs = [] then Some (c', sink) else drain_reader ops c' (sink @ bs)
         | Inl e \<Rightarrow> Some (c', sink)))"

text \<open>
  The writer works between the critical sections of the reader.  A schedule lists the frames that
  it sends at each of these points, one after the other.
\<close>

fun writer_sends :: "'c tls_ops \<Rightarrow> bytes list \<Rightarrow> 'c tls_shared \<Rightarrow> 'c tls_shared option" where
  "writer_sends ops [] sh = Some sh"
| "writer_sends ops (f # fs) sh =
     (case tls_writer_round ops f sh of None \<Rightarrow> None | Some sh1 \<Rightarrow> writer_sends ops fs sh1)"

text \<open>The flush after a critical section of the reader, which ignores errors.\<close>

definition flush_control :: "'c tls_ops \<Rightarrow> bool \<Rightarrow> 'c tls_shared \<Rightarrow> 'c tls_shared option" where
  "flush_control ops needs_flush sh =
     (if needs_flush then map_option snd (write_pending ops None sh) else Some sh)"

definition drain_plaintext :: "'c tls_ops \<Rightarrow> bytes list \<Rightarrow> 'c tls_shared \<Rightarrow> frame_decoder \<Rightarrow>
    ('c tls_shared \<times> frame_decoder) option" where
  "drain_plaintext ops between sh d =
     (case drain_reader ops (t_conn sh) [] of
        None \<Rightarrow> None
      | Some (c1, sink) \<Rightarrow>
          let needs_flush = wants_write ops c1
          in case writer_sends ops between (sh\<lparr>t_conn := c1\<rparr>) of
               None \<Rightarrow> None
             | Some sh1 \<Rightarrow>
                 map_option (\<lambda>sh2. (sh2, extend_from d sink)) (flush_control ops needs_flush sh1))"

text \<open>The inner loop that feeds one chunk; \<open>rest\<close> is \<open>raw[off..n]\<close>.  No plaintext in the result means a
  fatal TLS error.\<close>

partial_function (option) tls_feed :: "'c tls_ops \<Rightarrow> 'c \<Rightarrow> bytes \<Rightarrow> bytes \<Rightarrow> ('c \<times> bytes option) option" where
  "tls_feed ops c rest sink =
     (case read_tls ops c rest of (r, c1) \<Rightarrow>
        (case (case r of
                 Inr k \<Rightarrow> if k = 0 then (True, rest) else (length rest \<le> k, drop k rest)
               | Inl e \<Rightarrow> (False, rest)) of (fed_all, rest') \<Rightarrow>
           (case process_new_packets ops c1 of (ok, c2) \<Rightarrow>
              if \<not> ok then Some (c2, None)
              else case drain_reader ops c2 sink of
                     None \<Rightarrow> None
                   | Some (c3, sink') \<Rightarrow>
                       if fed_all then Some (c3, Some sink') else tls_feed ops c3 rest' sink')))"

text \<open>One round of the reader's loop on a chunk of ciphertext: the new shared state and the plaintext.\<close>

definition tls_chunk :: "'c tls_ops \<Rightarrow> bytes list \<times> bytes list \<Rightarrow> bytes \<Rightarrow> 'c tls_shared \<Rightarrow>
    ('c tls_shared \<times> bytes option) option" where
  "tls_chunk ops act raw sh =
     (case writer_sends ops (fst act) sh of
        None \<Rightarrow> None
      | Some sh1 \<Rightarrow>
          (case tls_feed ops (t_conn sh1) raw [] of
             None \<Rightarrow> None
           | Some (c1, None) \<Rightarrow> Some (sh1\<lparr>t_conn := c1\<rparr>, None)
           | Some (c1, Some txt) \<Rightarrow>
               (case writer_sends ops (snd act) (sh1\<lparr>t_conn := c1\<rparr>) of
                  None \<Rightarrow> None
                | Some sh2 \<Rightarrow>
                    map_option (\<lambda>sh3. (sh3, Some txt)) (flush_control ops (wants_write ops c1) sh2))))"

partial_function (option) tls_reader_loop :: "'c tls_ops \<Rightarrow> (nat \<Rightarrow> bytes list \<times> bytes list) \<Rightarrow> nat \<Rightarrow>
    stream \<Rightarrow> 'c tls_shared \<Rightarrow> frame_decoder \<Rightarrow> broker_link \<Rightarrow> identity \<Rightarrow>
    ('c tls_shared \<times> broker_link) option" where
  "tls_reader_loop ops sched i rs sh d k peer =
     (case stream_read rs (16 * 1024) of (r, rs') \<Rightarrow>
        (case r of
           Inl e \<Rightarrow> Some (sh, k)
         | Inr raw \<Rightarrow>
             if raw = [] then Some (sh, k)
             else
               (case tls_chunk ops (sched i) raw sh of
                  None \<Rightarrow> None
                | Some (sh1, sink) \<Rightarrow>
                    (case sink of
                       None \<Rightarrow> Some (sh1, k)
                     | Some txt \<Rightarrow>
                         (case forward_frames (extend_from d txt) k peer of (ok, d', k') \<Rightarrow>
                            if ok then tls_reader_loop ops sched (Suc i) rs' sh1 d' k' peer
                            else Some (sh1, k'))))))"

definition tls_reader :: "'c tls_ops \<Rightarrow> (nat \<Rightarrow> bytes list \<times> bytes list) \<Rightarrow> stream \<Rightarrow>
    'c tls_shared \<Rightarrow> frame_decoder \<Rightarrow> broker_link \<Rightarrow> identity \<Rightarrow> ('c tls_shared \<times> broker_link) option" where
  "tls_reader ops sched rs sh d k peer =
     (case forward_frames d k peer of (ok, d1, k1) \<Rightarrow>
        if \<not> ok then Some (sh, k1)
        else case writer_sends ops (fst (sched 0)) sh of
          None \<Rightarrow> None
        | Some sh1 \<Rightarrow>
            (case drain_plaintext ops (snd (sched 0)) sh1 d1 of
               None \<Rightarrow> None
             | Some (sh2, d2) \<Rightarrow>
                 (case forward_frames d2 k1 peer of (ok2, d3, k2) \<Rightarrow>
                    if \<not> ok2 then Some (sh2, k2)
                    else tls_reader_loop ops sched 1 rs sh2 d3 k2 peer)))"


section \<open>The session\<close>

partial_function (option) read_one_byte :: "'s reader \<Rightarrow> ('s \<Rightarrow> nat) \<Rightarrow> 's \<Rightarrow> nat \<Rightarrow> (u8 option \<times> 's) option" where
  "read_one_byte rd now s deadline =
     (case rd s 1 of (r, s') \<Rightarrow>
        (case r of
           Inr bs \<Rightarrow> Some (case bs of [] \<Rightarrow> None | b # _ \<Rightarrow> Some b, s')
         | Inl e \<Rightarrow>
             if is_idle_tick e then
               if deadline \<le> now s' then Some (None, s') else read_one_byte rd now s' deadline
             else Some (None, s')))"

text \<open>
  \<open>stream\<close> is the decrypted side of the \<open>StreamOwned\<close>; \<open>reclaim\<close> takes it apart into the connection and
  the socket.  \<open>clones\<close> says whether the two \<open>try_clone\<close> calls succeed.
\<close>

definition tls_handshake_done :: "'c tls_ops \<Rightarrow> (stream \<Rightarrow> 'c \<times> stream) \<Rightarrow> bool \<times> bool \<Rightarrow>
    (nat \<Rightarrow> bytes list \<times> bytes list) \<Rightarrow> stream \<Rightarrow> frame_decoder \<Rightarrow> broker_link \<Rightarrow> identity \<Rightarrow>
    (broker_link \<times> 'c tls_shared option) option" where
  "tls_handshake_done ops reclaim clones sched s d k peer =
     (case reclaim s of (conn, sock) \<Rightarrow>
        if \<not> fst clones then Some (k, None)
        else if \<not> snd clones then Some (k, None)
        else case register k peer of
          (None, k1) \<Rightarrow> Some (k1, None)
        | (Some writer_rx, k1) \<Rightarrow>
            (case tls_reader ops sched sock \<lparr>t_conn = conn, t_sock = sock, t_writing = True\<rparr> d k1 peer of
               None \<Rightarrow> None
             | Some (sh, k2) \<Rightarrow> Some (snd (cmd_send (ConnectionDown peer) k2), Some sh)))"

definition tls_session :: "'c tls_ops \<Rightarrow> (stream \<Rightarrow> 'c \<times> stream) \<Rightarrow> bool \<times> bool \<Rightarrow>
    (nat \<Rightarrow> bytes list \<times> bytes list) \<Rightarrow> stream \<Rightarrow> broker_link \<Rightarrow> identity \<Rightarrow> bool \<Rightarrow>
    (broker_link \<times> 'c tls_shared option) option" where
  "tls_session ops reclaim clones sched s k my_identity sniff =
     (case (if sniff then map_option (\<lambda>(b, s'). (Some b, s')) (read_one_byte stream_read clock s (clock s + HEARTBEAT_TIMEOUT))
            else Some (None, s)) of
        None \<Rightarrow> None
      | Some (sniffed, s1) \<Rightarrow>
          if sniffed = Some (Some 0x47) then
            map_option (\<lambda>(k', _). (k', None))
              (ws_session s1 (Some 0x47) k my_identity (clock s1 + HEARTBEAT_TIMEOUT))
          else if sniffed \<noteq> None \<and> sniffed \<noteq> Some (Some 0x00) then Some (k, None)
          else
            let d = (if sniffed = None then decoder_new else extend_from decoder_new [0x00])
            in case write_frame stream_write_all s1 (hello my_identity) of
                 (Inl e, s2) \<Rightarrow> Some (k, None)
               | (Inr _, s2) \<Rightarrow>
                   (case read_hello stream_read clock s2 d of
                      None \<Rightarrow> None
                    | Some (None, d', s3) \<Rightarrow> Some (k, None)
                    | Some (Some peer, d', s3) \<Rightarrow>
                        tls_handshake_done ops reclaim clones sched s3 d' k peer))"

end
