(* ===== verification/Tls_Session.thy ===== *)
theory Tls_Session
  imports Conn_Tls
begin

text \<open>
  What the TLS session of \<open>Conn_Tls\<close> guarantees for every \<open>rustls\<close> connection that behaves as
  documented.  The documented behaviour is stated with five views of a connection: the plaintext it
  yields when it is given more ciphertext, the plaintext ready to be read, the ciphertext waiting
  to be written, all the ciphertext and all the plaintext it was given to encrypt so far.
\<close>

record 'c tls_view =
  yields :: "'c \<Rightarrow> bytes \<Rightarrow> bytes"   \<comment> \<open>the plaintext to come, given more ciphertext\<close>
  avail :: "'c \<Rightarrow> bytes"             \<comment> \<open>decrypted and not yet read\<close>
  outq :: "'c \<Rightarrow> bytes"              \<comment> \<open>encrypted and not yet written\<close>
  made :: "'c \<Rightarrow> bytes"              \<comment> \<open>all ciphertext produced so far\<close>
  taken :: "'c \<Rightarrow> bytes"             \<comment> \<open>all plaintext accepted for encryption so far\<close>
  settled :: "'c \<Rightarrow> bool"            \<comment> \<open>all complete records were processed\<close>

definition same_in :: "'c tls_view \<Rightarrow> 'c \<Rightarrow> 'c \<Rightarrow> bool" where
  "same_in v c c' \<longleftrightarrow> yields v c' = yields v c \<and> avail v c' = avail v c \<and> settled v c' = settled v c"

definition same_out :: "'c tls_view \<Rightarrow> 'c \<Rightarrow> 'c \<Rightarrow> bool" where
  "same_out v c c' \<longleftrightarrow> outq v c' = outq v c \<and> made v c' = made v c \<and> taken v c' = taken v c"

text \<open>Further ciphertext, such as a control record, is queued behind what is there.\<close>

definition more_out :: "'c tls_view \<Rightarrow> 'c \<Rightarrow> 'c \<Rightarrow> bool" where
  "more_out v c c' \<longleftrightarrow>
     (\<exists>new. outq v c' = outq v c @ new \<and> made v c' = made v c @ new) \<and> taken v c' = taken v c"

definition rustls_reads :: "'c tls_ops \<Rightarrow> 'c tls_view \<Rightarrow> bool" where
  "rustls_reads ops v \<longleftrightarrow>
     (\<forall>c n r c'. plain_read ops c n = (r, c') \<and> 0 < n \<longrightarrow> same_out v c c' \<and> settled v c' = settled v c \<and>
        (case r of
           Inr bs \<Rightarrow> length bs \<le> n \<and> avail v c = bs @ avail v c' \<and> (bs = [] \<longrightarrow> avail v c = []) \<and>
             (\<forall>x. yields v c x = bs @ yields v c' x)
         | Inl e \<Rightarrow> avail v c = [] \<and> avail v c' = [] \<and> yields v c' = yields v c)) \<and>
     (\<forall>c ys r c'. read_tls ops c ys = (r, c') \<longrightarrow> same_out v c c' \<and> avail v c' = avail v c \<and>
        (case r of
           Inr k \<Rightarrow> k \<le> length ys \<and> (\<forall>x. yields v c (ys @ x) = yields v c' (drop k ys @ x)) \<and>
             (k = 0 \<and> ys \<noteq> [] \<longrightarrow> (\<forall>x. yields v c' x = yields v c' []))
         | Inl e \<Rightarrow> \<not> (settled v c \<and> avail v c = []) \<and> yields v c' = yields v c)) \<and>
     (\<forall>c c'. process_new_packets ops c = (True, c') \<longrightarrow>
        yields v c' = yields v c \<and> settled v c' \<and> more_out v c c') \<and>
     (\<forall>c. settled v c \<and> avail v c = [] \<longrightarrow> yields v c [] = [])"

definition rustls_writes :: "'c tls_ops \<Rightarrow> 'c tls_view \<Rightarrow> bool" where
  "rustls_writes ops v \<longleftrightarrow>
     (\<forall>c. wants_write ops c \<longleftrightarrow> outq v c \<noteq> []) \<and>
     (\<forall>c r c'. write_tls ops c = (r, c') \<and> outq v c \<noteq> [] \<longrightarrow> same_in v c c' \<and>
        made v c' = made v c \<and> taken v c' = taken v c \<and>
        (\<exists>out. r = Inr out \<and> out \<noteq> [] \<and> outq v c = out @ outq v c')) \<and>
     (\<forall>c bs r c'. plain_write ops c bs = (r, c') \<longrightarrow> same_in v c c' \<and>
        (\<exists>n new. r = Inr n \<and> n \<le> length bs \<and> (outq v c = [] \<and> bs \<noteq> [] \<longrightarrow> 0 < n) \<and>
           taken v c' = taken v c @ take n bs \<and> outq v c' = outq v c @ new \<and> made v c' = made v c @ new))"

definition rustls_laws :: "'c tls_ops \<Rightarrow> 'c tls_view \<Rightarrow> bool" where
  "rustls_laws ops v \<longleftrightarrow> rustls_reads ops v \<and> rustls_writes ops v"


section \<open>Extract, then write\<close>

lemma same_in_refl [simp]: "same_in v c c"
  by (simp add: same_in_def)

lemma same_in_trans: "same_in v c c' \<Longrightarrow> same_in v c' c'' \<Longrightarrow> same_in v c c''"
  by (simp add: same_in_def)

lemma write_tls_law:
  assumes "rustls_laws ops v" and "wants_write ops c"
  obtains out c' where "write_tls ops c = (Inr out, c')" "out \<noteq> []" "outq v c = out @ outq v c'"
    "same_in v c c'" "made v c' = made v c" "taken v c' = taken v c"
proof -
  obtain r c' where w: "write_tls ops c = (r, c')" by fastforce
  have ne: "outq v c \<noteq> []" using assms by (simp add: rustls_laws_def rustls_writes_def)
  from assms(1) have "\<forall>c r c'. write_tls ops c = (r, c') \<and> outq v c \<noteq> [] \<longrightarrow> same_in v c c' \<and>
      made v c' = made v c \<and> taken v c' = taken v c \<and>
      (\<exists>out. r = Inr out \<and> out \<noteq> [] \<and> outq v c = out @ outq v c')"
    unfolding rustls_laws_def rustls_writes_def by (elim conjE) assumption
  from this [rule_format, OF conjI [OF w ne]] w that show thesis by blast
qed

lemma plain_write_law:
  assumes "rustls_laws ops v"
  obtains n new c' where "plain_write ops c bs = (Inr n, c')" "n \<le> length bs"
    "outq v c = [] \<and> bs \<noteq> [] \<longrightarrow> 0 < n" "taken v c' = taken v c @ take n bs"
    "outq v c' = outq v c @ new" "made v c' = made v c @ new" "same_in v c c'"
proof -
  obtain r c' where w: "plain_write ops c bs = (r, c')" by fastforce
  from assms have "\<forall>c bs r c'. plain_write ops c bs = (r, c') \<longrightarrow> same_in v c c' \<and>
      (\<exists>n new. r = Inr n \<and> n \<le> length bs \<and> (outq v c = [] \<and> bs \<noteq> [] \<longrightarrow> 0 < n) \<and>
         taken v c' = taken v c @ take n bs \<and> outq v c' = outq v c @ new \<and> made v c' = made v c @ new)"
    unfolding rustls_laws_def rustls_writes_def by (elim conjE) assumption
  from this [rule_format, OF w] w that show thesis by blast
qed

lemma wants_write_law: "rustls_laws ops v \<Longrightarrow> wants_write ops c \<longleftrightarrow> outq v c \<noteq> []"
  by (simp add: rustls_laws_def rustls_writes_def)

lemma flush_tls_ok:
  assumes "rustls_laws ops v"
  shows "\<exists>c'. flush_tls ops c cipher = Some (Inr (), c', cipher @ outq v c) \<and> outq v c' = [] \<and>
    same_in v c c' \<and> made v c' = made v c \<and> taken v c' = taken v c"
proof (induction "length (outq v c)" arbitrary: c cipher rule: less_induct)
  case less
  show ?case
  proof (cases "wants_write ops c")
    case False
    with wants_write_law [OF assms] show ?thesis by (subst flush_tls.simps) auto
  next
    case True
    then obtain out c1 where c1: "write_tls ops c = (Inr out, c1)" "out \<noteq> []" "outq v c = out @ outq v c1"
        "same_in v c c1" "made v c1 = made v c" "taken v c1 = taken v c"
      using write_tls_law [OF assms] by blast
    then have "length (outq v c1) < length (outq v c)" by simp
    from less [OF this, of "cipher @ out"] c1 True show ?thesis
      by (subst flush_tls.simps) (auto intro: same_in_trans)
  qed
qed

lemma encrypt_frame_ok:
  assumes "rustls_laws ops v"
  shows "\<exists>c' cipher' new. encrypt_frame ops c rest cipher = Some (Inr (), c', cipher') \<and>
    cipher' @ outq v c' = cipher @ outq v c @ new \<and> made v c' = made v c @ new \<and>
    taken v c' = taken v c @ rest \<and> same_in v c c'"
proof (induction "2 * length rest + (if outq v c = [] then 0 else 1)" arbitrary: c rest cipher rule: less_induct)
  case less
  show ?case
  proof (cases "rest = []")
    case True
    then show ?thesis by (subst encrypt_frame.simps) auto
  next
    case False
    obtain n new c1 where c1: "plain_write ops c rest = (Inr n, c1)" "n \<le> length rest"
        "outq v c = [] \<and> rest \<noteq> [] \<longrightarrow> 0 < n" "taken v c1 = taken v c @ take n rest"
        "outq v c1 = outq v c @ new" "made v c1 = made v c @ new" "same_in v c c1"
      using plain_write_law [OF assms] by blast
    obtain c2 where c2: "flush_tls ops c1 cipher = Some (Inr (), c2, cipher @ outq v c1)" "outq v c2 = []"
        "same_in v c1 c2" "made v c2 = made v c1" "taken v c2 = taken v c1"
      using flush_tls_ok [OF assms] by blast
    have "2 * length (drop n rest) + (if outq v c2 = [] then 0 else 1) <
        2 * length rest + (if outq v c = [] then 0 else (1 :: nat))"
      using c1(2,3) c2(2) False by auto
    from less [OF this, of "cipher @ outq v c1"] obtain c' cipher' new' where
        "encrypt_frame ops c2 (drop n rest) (cipher @ outq v c1) = Some (Inr (), c', cipher')"
        "cipher' @ outq v c' = (cipher @ outq v c1) @ outq v c2 @ new'" "made v c' = made v c2 @ new'"
        "taken v c' = taken v c2 @ drop n rest" "same_in v c2 c'"
      by blast
    with False c1 c2 show ?thesis
      by (subst encrypt_frame.simps) (auto intro: same_in_trans [OF same_in_trans])
  qed
qed

lemma encrypt_pending_ok:
  assumes "rustls_laws ops v"
  shows "\<exists>c' cipher new. encrypt_pending ops c frame = Some (Inr (), c', cipher) \<and>
    cipher = outq v c @ new \<and> made v c' = made v c @ new \<and> outq v c' = [] \<and>
    taken v c' = taken v c @ (case frame of None \<Rightarrow> [] | Some f \<Rightarrow> f) \<and> same_in v c c'"
proof -
  obtain c1 cipher1 new where c1: "(case frame of None \<Rightarrow> Some (Inr (), c, []) | Some f \<Rightarrow> encrypt_frame ops c f []) =
      Some (Inr (), c1, cipher1)" "cipher1 @ outq v c1 = outq v c @ new" "made v c1 = made v c @ new"
      "taken v c1 = taken v c @ (case frame of None \<Rightarrow> [] | Some f \<Rightarrow> f)" "same_in v c c1"
    using encrypt_frame_ok [OF assms, of c _ "[]"] by (cases frame) fastforce+
  obtain c2 where c2: "flush_tls ops c1 cipher1 = Some (Inr (), c2, cipher1 @ outq v c1)" "outq v c2 = []"
      "same_in v c1 c2" "made v c2 = made v c1" "taken v c2 = taken v c1"
    using flush_tls_ok [OF assms] by blast
  from c1 c2 show ?thesis
    unfolding encrypt_pending_def by (auto intro: same_in_trans)
qed

text \<open>The wire and the queue together hold the ciphertext in the order in which it was made.\<close>

definition in_order :: "'c tls_view \<Rightarrow> 'c tls_shared \<Rightarrow> bool" where
  "in_order v sh \<longleftrightarrow>
     outbound (t_sock sh) @ outq v (t_conn sh) = made v (t_conn sh) \<and> wfaults (t_sock sh) = []"

lemma write_pending_ok:
  assumes "rustls_laws ops v" and "in_order v sh"
  shows "\<exists>sh'. write_pending ops frame sh = Some (Inr (), sh') \<and> in_order v sh' \<and>
    outq v (t_conn sh') = [] \<and> same_in v (t_conn sh) (t_conn sh') \<and> t_writing sh' = t_writing sh \<and>
    taken v (t_conn sh') = taken v (t_conn sh) @ (case frame of None \<Rightarrow> [] | Some f \<Rightarrow> f)"
proof -
  obtain c' cipher new where e: "encrypt_pending ops (t_conn sh) frame = Some (Inr (), c', cipher)"
      "cipher = outq v (t_conn sh) @ new" "made v c' = made v (t_conn sh) @ new" "outq v c' = []"
      "taken v c' = taken v (t_conn sh) @ (case frame of None \<Rightarrow> [] | Some f \<Rightarrow> f)" "same_in v (t_conn sh) c'"
    using encrypt_pending_ok [OF assms(1)] by blast
  let ?sh' = "sh\<lparr>t_conn := c', t_sock := (t_sock sh)\<lparr>outbound := outbound (t_sock sh) @ cipher\<rparr>\<rparr>"
  have "write_pending ops frame sh = Some (Inr (), ?sh')"
    using e(1) assms(2) by (cases cipher) (simp_all add: write_pending_def in_order_def stream_write_all_def)
  moreover have "in_order v ?sh'" using e(2-4) assms(2) by (simp add: in_order_def)
  ultimately show ?thesis using e(4-6) by simp
qed

lemma writer_sends_ok:
  assumes "rustls_laws ops v" and "in_order v sh" and "t_writing sh"
  shows "\<exists>sh'. writer_sends ops fs sh = Some sh' \<and> in_order v sh' \<and> t_writing sh' \<and>
    same_in v (t_conn sh) (t_conn sh') \<and> taken v (t_conn sh') = taken v (t_conn sh) @ concat fs \<and>
    (outq v (t_conn sh) = [] \<or> fs \<noteq> [] \<longrightarrow> outq v (t_conn sh') = [])"
  using assms(2,3)
proof (induction fs arbitrary: sh)
  case (Cons f fs)
  obtain sh1 where sh1: "write_pending ops (Some f) sh = Some (Inr (), sh1)" "in_order v sh1"
      "outq v (t_conn sh1) = []" "same_in v (t_conn sh) (t_conn sh1)" "t_writing sh1"
      "taken v (t_conn sh1) = taken v (t_conn sh) @ f"
    using write_pending_ok [OF assms(1) Cons.prems(1), of "Some f"] Cons.prems(2) by auto
  with Cons.IH [OF sh1(2,5)] Cons.prems(2) show ?case
    by (auto simp: tls_writer_round_def intro: same_in_trans)
qed simp


section \<open>Decrypting\<close>

lemma plain_read_law:
  assumes "rustls_laws ops v" and "0 < n" and "plain_read ops c n = (r, c')"
  shows "same_out v c c' \<and> settled v c' = settled v c \<and>
    (case r of
       Inr bs \<Rightarrow> length bs \<le> n \<and> avail v c = bs @ avail v c' \<and> (bs = [] \<longrightarrow> avail v c = []) \<and>
         (\<forall>x. yields v c x = bs @ yields v c' x)
     | Inl e \<Rightarrow> avail v c = [] \<and> avail v c' = [] \<and> yields v c' = yields v c)"
proof -
  from assms(1) have "\<forall>c n r c'. plain_read ops c n = (r, c') \<and> 0 < n \<longrightarrow> same_out v c c' \<and>
      settled v c' = settled v c \<and>
      (case r of
         Inr bs \<Rightarrow> length bs \<le> n \<and> avail v c = bs @ avail v c' \<and> (bs = [] \<longrightarrow> avail v c = []) \<and>
           (\<forall>x. yields v c x = bs @ yields v c' x)
       | Inl e \<Rightarrow> avail v c = [] \<and> avail v c' = [] \<and> yields v c' = yields v c)"
    unfolding rustls_laws_def rustls_reads_def by (elim conjE) assumption
  from this [rule_format, OF conjI [OF assms(3,2)]] show ?thesis .
qed

lemma read_tls_law:
  assumes "rustls_laws ops v" and "read_tls ops c ys = (r, c')"
  shows "same_out v c c' \<and> avail v c' = avail v c \<and>
    (case r of
       Inr k \<Rightarrow> k \<le> length ys \<and> (\<forall>x. yields v c (ys @ x) = yields v c' (drop k ys @ x)) \<and>
         (k = 0 \<and> ys \<noteq> [] \<longrightarrow> (\<forall>x. yields v c' x = yields v c' []))
     | Inl e \<Rightarrow> \<not> (settled v c \<and> avail v c = []) \<and> yields v c' = yields v c)"
proof -
  from assms(1) have "\<forall>c ys r c'. read_tls ops c ys = (r, c') \<longrightarrow> same_out v c c' \<and> avail v c' = avail v c \<and>
      (case r of
         Inr k \<Rightarrow> k \<le> length ys \<and> (\<forall>x. yields v c (ys @ x) = yields v c' (drop k ys @ x)) \<and>
           (k = 0 \<and> ys \<noteq> [] \<longrightarrow> (\<forall>x. yields v c' x = yields v c' []))
       | Inl e \<Rightarrow> \<not> (settled v c \<and> avail v c = []) \<and> yields v c' = yields v c)"
    unfolding rustls_laws_def rustls_reads_def by (elim conjE) assumption
  from this [rule_format, OF assms(2)] show ?thesis .
qed

lemma process_law:
  "rustls_laws ops v \<Longrightarrow> process_new_packets ops c = (True, c') \<Longrightarrow>
   yields v c' = yields v c \<and> settled v c' \<and> more_out v c c'"
  by (simp add: rustls_laws_def rustls_reads_def)

lemma drained_law:
  "rustls_laws ops v \<Longrightarrow> settled v c \<Longrightarrow> avail v c = [] \<Longrightarrow> yields v c [] = []"
  by (simp add: rustls_laws_def rustls_reads_def)

lemma more_out_trans: "more_out v c c' \<Longrightarrow> more_out v c' c'' \<Longrightarrow> more_out v c c''"
  by (auto simp: more_out_def)

lemma same_more: "same_out v c c' \<Longrightarrow> more_out v c c'"
  by (simp add: same_out_def more_out_def)

lemma same_out_trans: "same_out v c c' \<Longrightarrow> same_out v c' c'' \<Longrightarrow> same_out v c c''"
  by (simp add: same_out_def)

lemma drain_reader_ok:
  assumes "rustls_laws ops v"
  shows "\<exists>c'. drain_reader ops c sink = Some (c', sink @ avail v c) \<and> avail v c' = [] \<and>
    (\<forall>x. yields v c x = avail v c @ yields v c' x) \<and> same_out v c c' \<and> settled v c' = settled v c"
proof (induction "length (avail v c)" arbitrary: c sink rule: less_induct)
  case less
  obtain r c1 where r: "plain_read ops c (16 * 1024) = (r, c1)" by fastforce
  note law = plain_read_law [OF assms _ r, simplified]
  show ?case
  proof (cases r)
    case (Inl e)
    with r law show ?thesis by (subst drain_reader.simps) auto
  next
    case (Inr bs)
    show ?thesis
    proof (cases "bs = []")
      case True
      with r Inr law show ?thesis by (subst drain_reader.simps) auto
    next
      case False
      with Inr law have "length (avail v c1) < length (avail v c)" by simp
      from less [OF this, of "sink @ bs"] r Inr False law show ?thesis
        by (subst drain_reader.simps) (auto intro: same_out_trans)
    qed
  qed
qed

text \<open>A chunk of ciphertext is decrypted completely; no byte of it and of the plaintext is lost.\<close>

lemma tls_feed_ok:
  assumes "rustls_laws ops v" and "\<And>c. fst (process_new_packets ops c)" and "rest \<noteq> []"
  shows "\<exists>c' got. tls_feed ops c rest sink = Some (c', Some (sink @ got)) \<and> settled v c' \<and> avail v c' = [] \<and>
    (\<forall>x. yields v c (rest @ x) = got @ yields v c' x) \<and> more_out v c c'"
  using assms(3)
proof (induction "2 * length rest + (if settled v c \<and> avail v c = [] then 0 else 1)" arbitrary: c rest sink
    rule: less_induct)
  case less
  obtain r c1 where r: "read_tls ops c rest = (r, c1)" by fastforce
  note law1 = read_tls_law [OF assms(1) r]
  obtain c2 where c2: "process_new_packets ops c1 = (True, c2)"
    using assms(2) [of c1] by (cases "process_new_packets ops c1") auto
  note law2 = process_law [OF assms(1) c2]
  obtain c3 where c3: "drain_reader ops c2 sink = Some (c3, sink @ avail v c2)" "avail v c3 = []"
      "\<forall>x. yields v c2 x = avail v c2 @ yields v c3 x" "same_out v c2 c3" "settled v c3 = settled v c2"
    using drain_reader_ok [OF assms(1)] by blast
  have out: "more_out v c c3"
    using law1 law2 c3(4) by (blast intro: more_out_trans same_more)
  have idle3: "settled v c3 \<and> avail v c3 = []" using law2 c3(2,5) by simp
  have y2: "yields v c2 = yields v c1" using law2 by blast
  note step = r c2 c3(1)
  consider (err) e where "r = Inl e" | (closed) "r = Inr 0" | (all) k where "r = Inr k" "0 < k" "length rest \<le> k"
    | (part) k where "r = Inr k" "0 < k" "k < length rest"
    by (metis sum.exhaust gr0I not_le_imp_less)
  then show ?case
  proof cases
    case err
    have "2 * length rest + (if settled v c3 \<and> avail v c3 = [] then 0 else 1) <
        2 * length rest + (if settled v c \<and> avail v c = [] then 0 else (1 :: nat))"
      using law1 err idle3 by auto
    from less.hyps [OF this less.prems, of "sink @ avail v c2"] obtain c' got where
        g: "tls_feed ops c3 rest (sink @ avail v c2) = Some (c', Some ((sink @ avail v c2) @ got))"
        "settled v c'" "avail v c' = []" "\<forall>x. yields v c3 (rest @ x) = got @ yields v c' x" "more_out v c3 c'"
      by blast
    have "tls_feed ops c rest sink = tls_feed ops c3 rest (sink @ avail v c2)"
      using step err by (subst tls_feed.simps) simp
    moreover have "yields v c (rest @ x) = (avail v c2 @ got) @ yields v c' x" for x
    proof -
      have "yields v c (rest @ x) = avail v c2 @ yields v c3 (rest @ x)"
        using c3(3) [rule_format, of "rest @ x"] y2 law1 [unfolded err sum.case] by metis
      then show ?thesis using g(4) [rule_format, of x] by simp
    qed
    ultimately show ?thesis
      using g(1-3) more_out_trans [OF out g(5)] by (intro exI [of _ c'] exI [of _ "avail v c2 @ got"]) simp
  next
    case closed
    have "yields v c (rest @ x) = avail v c2 @ yields v c3 x" for x
      using c3(3) [rule_format, of x] y2 law1 [unfolded closed sum.case] less.prems by (metis drop_0)
    moreover have "tls_feed ops c rest sink = Some (c3, Some (sink @ avail v c2))"
      using step closed by (subst tls_feed.simps) simp
    ultimately show ?thesis using idle3 out by blast
  next
    case (all k)
    have "yields v c (rest @ x) = avail v c2 @ yields v c3 x" for x
      using c3(3) [rule_format, of x] y2 law1 [unfolded all(1) sum.case] all(3) by (metis append_Nil drop_all)
    moreover have "tls_feed ops c rest sink = Some (c3, Some (sink @ avail v c2))"
      using step all by (subst tls_feed.simps) simp
    ultimately show ?thesis using idle3 out by blast
  next
    case (part k)
    have "2 * length (drop k rest) + (if settled v c3 \<and> avail v c3 = [] then 0 else 1) <
        2 * length rest + (if settled v c \<and> avail v c = [] then 0 else (1 :: nat))"
      using part idle3 by auto
    from less.hyps [OF this, of "sink @ avail v c2"] part obtain c' got where
        g: "tls_feed ops c3 (drop k rest) (sink @ avail v c2) = Some (c', Some ((sink @ avail v c2) @ got))"
        "settled v c'" "avail v c' = []" "\<forall>x. yields v c3 (drop k rest @ x) = got @ yields v c' x" "more_out v c3 c'"
      by auto
    have "tls_feed ops c rest sink = tls_feed ops c3 (drop k rest) (sink @ avail v c2)"
      using step part by (subst tls_feed.simps) simp
    moreover have "yields v c (rest @ x) = (avail v c2 @ got) @ yields v c' x" for x
    proof -
      have "yields v c (rest @ x) = avail v c2 @ yields v c3 (drop k rest @ x)"
        using c3(3) [rule_format, of "drop k rest @ x"] y2 law1 [unfolded part(1) sum.case] by metis
      then show ?thesis using g(4) [rule_format, of x] by simp
    qed
    ultimately show ?thesis
      using g(1-3) more_out_trans [OF out g(5)] by (intro exI [of _ c'] exI [of _ "avail v c2 @ got"]) simp
  qed
qed


section \<open>The reader between the writer's frames\<close>

lemma in_order_more:
  "in_order v sh \<Longrightarrow> more_out v (t_conn sh) c' \<Longrightarrow> in_order v (sh\<lparr>t_conn := c'\<rparr>)"
  by (auto simp: in_order_def more_out_def simp flip: append_assoc)

lemma flush_control_ok:
  assumes "rustls_laws ops v" and "in_order v sh"
  shows "\<exists>sh'. flush_control ops b sh = Some sh' \<and> in_order v sh' \<and> t_writing sh' = t_writing sh \<and>
    same_in v (t_conn sh) (t_conn sh') \<and> taken v (t_conn sh') = taken v (t_conn sh)"
  using write_pending_ok [OF assms, of None] assms(2) by (auto simp: flush_control_def)

text \<open>The frames that the writer sends in rounds \<open>i\<close> to \<open>n - 1\<close>.\<close>

definition sends :: "(nat \<Rightarrow> bytes list \<times> bytes list) \<Rightarrow> nat \<Rightarrow> nat \<Rightarrow> bytes list" where
  "sends sched i n = concat (map (\<lambda>j. fst (sched j) @ snd (sched j)) [i..<n])"

lemma sends_Suc: "i < n \<Longrightarrow> sends sched i n = fst (sched i) @ snd (sched i) @ sends sched (Suc i) n"
  by (simp add: sends_def upt_conv_Cons)

lemma sends_self [simp]: "sends sched i i = []"
  by (simp add: sends_def)

lemma tls_chunk_ok:
  assumes "rustls_laws ops v" and "\<And>c. fst (process_new_packets ops c)" and "raw \<noteq> []"
    and "in_order v sh" and "t_writing sh"
  shows "\<exists>sh' got. tls_chunk ops act raw sh = Some (sh', Some got) \<and> in_order v sh' \<and> t_writing sh' \<and>
    settled v (t_conn sh') \<and> avail v (t_conn sh') = [] \<and>
    (\<forall>x. yields v (t_conn sh) (raw @ x) = got @ yields v (t_conn sh') x) \<and>
    taken v (t_conn sh') = taken v (t_conn sh) @ concat (fst act @ snd act)"
proof -
  obtain sh1 where sh1: "writer_sends ops (fst act) sh = Some sh1" "in_order v sh1" "t_writing sh1"
      "same_in v (t_conn sh) (t_conn sh1)" "taken v (t_conn sh1) = taken v (t_conn sh) @ concat (fst act)"
    using writer_sends_ok [OF assms(1,4,5)] by blast
  obtain c1 got where c1: "tls_feed ops (t_conn sh1) raw [] = Some (c1, Some got)" "settled v c1" "avail v c1 = []"
      "\<forall>x. yields v (t_conn sh1) (raw @ x) = got @ yields v c1 x" "more_out v (t_conn sh1) c1"
    using tls_feed_ok [OF assms(1-3), of "t_conn sh1" "[]"] by auto
  let ?sh1 = "sh1\<lparr>t_conn := c1\<rparr>"
  have "in_order v ?sh1" "t_writing ?sh1" using in_order_more [OF sh1(2) c1(5)] sh1(3) by simp_all
  from writer_sends_ok [OF assms(1) this, of "snd act"] obtain sh2 where
      sh2: "writer_sends ops (snd act) ?sh1 = Some sh2" "in_order v sh2" "t_writing sh2"
      "same_in v c1 (t_conn sh2)" "taken v (t_conn sh2) = taken v c1 @ concat (snd act)"
    by auto
  obtain sh3 where sh3: "flush_control ops (wants_write ops c1) sh2 = Some sh3" "in_order v sh3"
      "t_writing sh3 = t_writing sh2" "same_in v (t_conn sh2) (t_conn sh3)" "taken v (t_conn sh3) = taken v (t_conn sh2)"
    using flush_control_ok [OF assms(1) sh2(2)] by blast
  have "tls_chunk ops act raw sh = Some (sh3, Some got)"
    using sh1(1) c1(1) sh2(1) sh3(1) by (simp add: tls_chunk_def)
  moreover have "same_in v c1 (t_conn sh3)" using same_in_trans [OF sh2(4) sh3(4)] .
  moreover have "taken v c1 = taken v (t_conn sh1)" using c1(5) by (simp add: more_out_def)
  ultimately show ?thesis
    using sh1(4,5) c1(2-4) sh2(3,5) sh3(2,3,5) by (auto simp: same_in_def)
qed

text \<open>A socket on which bytes keep arriving until its end.\<close>

definition stream_gapless :: "stream \<Rightarrow> bool" where
  "stream_gapless s \<longleftrightarrow> list_all (\<lambda>(d, ev). case ev of Arrive _ \<Rightarrow> True | Stall _ \<Rightarrow> False) (inbound s)"

lemma gapless_read:
  assumes "stream_gapless s" and "stream_read s n = (r, s')"
  shows "stream_gapless s' \<and> (\<exists>bs. r = Inr bs)"
proof -
  have "read_script es n t = (r, es', t') \<Longrightarrow>
      list_all (\<lambda>(d, ev). case ev of Arrive _ \<Rightarrow> True | Stall _ \<Rightarrow> False) es \<Longrightarrow>
      list_all (\<lambda>(d, ev). case ev of Arrive _ \<Rightarrow> True | Stall _ \<Rightarrow> False) es' \<and> (\<exists>bs. r = Inr bs)" for es es' t t'
    by (induction es n t rule: read_script.induct) (auto split: if_splits)
  with assms show ?thesis by (elim stream_read_cases) (auto simp: stream_gapless_def)
qed

lemma tls_reader_loop_ok:
  assumes "rustls_laws ops v" and "\<And>c. fst (process_new_packets ops c)"
    and "stream_gapless rs" and "in_order v sh" and "t_writing sh" and "room k = None"
    and "settled v (t_conn sh)" and "avail v (t_conn sh) = []" and "next_frame (buf d) = None"
  shows "\<exists>sh' n. tls_reader_loop ops sched i rs sh d k peer = Some (sh', k\<lparr>sent := sent k @
      received peer (fst (split_frames (buf d @ yields v (t_conn sh) (stream_pend rs))))\<rparr>) \<and>
    in_order v sh' \<and> i \<le> n \<and> taken v (t_conn sh') = taken v (t_conn sh) @ concat (sends sched i n)"
  using assms(3-)
proof (induction "stream_steps rs" arbitrary: rs sh d k i rule: less_induct)
  case less
  obtain r rs1 where r: "stream_read rs (16 * 1024) = (r, rs1)" by fastforce
  then obtain raw where raw: "r = Inr raw" and gap: "stream_gapless rs1"
    using gapless_read [OF less.prems(1)] by blast
  show ?case
  proof (cases "raw = []")
    case True
    then have "stream_pend rs = []" using tcp.rd_eof r raw by simp
    then have "yields v (t_conn sh) (stream_pend rs) = []" using drained_law [OF assms(1)] less.prems by simp
    moreover have "split_frames (buf d) = ([], buf d)" using less.prems(7) by (simp add: split_frames_None)
    ultimately show ?thesis
      using r raw True less.prems(2) by (subst tls_reader_loop.simps) (auto intro!: exI [of _ i])
  next
    case False
    obtain sh1 got where sh1: "tls_chunk ops (sched i) raw sh = Some (sh1, Some got)" "in_order v sh1" "t_writing sh1"
        "settled v (t_conn sh1)" "avail v (t_conn sh1) = []"
        "\<forall>x. yields v (t_conn sh) (raw @ x) = got @ yields v (t_conn sh1) x"
        "taken v (t_conn sh1) = taken v (t_conn sh) @ concat (fst (sched i) @ snd (sched i))"
      using tls_chunk_ok [OF assms(1,2) False less.prems(2,3)] by blast
    let ?d = "(extend_from d got)\<lparr>buf := snd (split_frames (buf (extend_from d got)))\<rparr>"
    let ?k = "k\<lparr>sent := sent k @ received peer (fst (split_frames (buf d @ got)))\<rparr>"
    have fwd: "forward_frames (extend_from d got) k peer = (True, ?d, ?k)"
      using forward_frames_alive [OF less.prems(4)] by (simp add: extend_from_def)
    have lt: "stream_steps rs1 < stream_steps rs" using tcp.rd_progress [OF r] raw False by simp
    have pend: "stream_pend rs = raw @ stream_pend rs1" using tcp.rd_ok r raw by simp
    from less.hyps [OF lt gap sh1(2,3) _ sh1(4,5), of ?k ?d "Suc i"] less.prems(4)
    obtain sh' n where g: "tls_reader_loop ops sched (Suc i) rs1 sh1 ?d ?k peer = Some (sh', ?k\<lparr>sent := sent ?k @
        received peer (fst (split_frames (buf ?d @ yields v (t_conn sh1) (stream_pend rs1))))\<rparr>)"
        "in_order v sh'" "Suc i \<le> n" "taken v (t_conn sh') = taken v (t_conn sh1) @ concat (sends sched (Suc i) n)"
      by (auto simp: split_frames_rest)
    have "fst (split_frames (buf d @ yields v (t_conn sh) (stream_pend rs))) =
        fst (split_frames (buf d @ got)) @
        fst (split_frames (snd (split_frames (buf d @ got)) @ yields v (t_conn sh1) (stream_pend rs1)))"
      using split_frames_append [of "buf d @ got" "yields v (t_conn sh1) (stream_pend rs1)"]
        sh1(6) [rule_format, of "stream_pend rs1"] by (simp add: pend)
    moreover have "tls_reader_loop ops sched i rs sh d k peer = tls_reader_loop ops sched (Suc i) rs1 sh1 ?d ?k peer"
      using r raw False sh1(1) fwd by (subst tls_reader_loop.simps) simp
    ultimately show ?thesis
      using g sh1(7) sends_Suc [of i n sched]
      by (intro exI [of _ sh'] exI [of _ n]) (simp add: extend_from_def)
  qed
qed

lemma tls_reader_ok:
  assumes "rustls_laws ops v" and "\<And>c. fst (process_new_packets ops c)"
    and "stream_gapless rs" and "in_order v sh" and "t_writing sh" and "room k = None"
    and "settled v (t_conn sh)"
  shows "\<exists>sh' n. tls_reader ops sched rs sh d k peer = Some (sh', k\<lparr>sent := sent k @
      received peer (fst (split_frames (buf d @ yields v (t_conn sh) (stream_pend rs))))\<rparr>) \<and>
    in_order v sh' \<and> taken v (t_conn sh') = taken v (t_conn sh) @ concat (sends sched 0 n)"
proof -
  let ?y = "yields v (t_conn sh) (stream_pend rs)"
  let ?d1 = "d\<lparr>buf := snd (split_frames (buf d))\<rparr>"
  let ?k1 = "k\<lparr>sent := sent k @ received peer (fst (split_frames (buf d)))\<rparr>"
  obtain sh1 where sh1: "writer_sends ops (fst (sched 0)) sh = Some sh1" "in_order v sh1" "t_writing sh1"
      "same_in v (t_conn sh) (t_conn sh1)" "taken v (t_conn sh1) = taken v (t_conn sh) @ concat (fst (sched 0))"
    using writer_sends_ok [OF assms(1,4,5)] by blast
  obtain c1 where c1: "drain_reader ops (t_conn sh1) [] = Some (c1, avail v (t_conn sh1))" "avail v c1 = []"
      "\<forall>x. yields v (t_conn sh1) x = avail v (t_conn sh1) @ yields v c1 x" "same_out v (t_conn sh1) c1"
      "settled v c1 = settled v (t_conn sh1)"
    using drain_reader_ok [OF assms(1), of "t_conn sh1" "[]"] by auto
  let ?sh1 = "sh1\<lparr>t_conn := c1\<rparr>"
  have "in_order v ?sh1" "t_writing ?sh1" using in_order_more [OF sh1(2) same_more [OF c1(4)]] sh1(3) by simp_all
  from writer_sends_ok [OF assms(1) this, of "snd (sched 0)"] obtain sh2 where
      sh2: "writer_sends ops (snd (sched 0)) ?sh1 = Some sh2" "in_order v sh2" "t_writing sh2"
      "same_in v c1 (t_conn sh2)" "taken v (t_conn sh2) = taken v c1 @ concat (snd (sched 0))"
    by auto
  obtain sh3 where sh3: "flush_control ops (wants_write ops c1) sh2 = Some sh3" "in_order v sh3"
      "t_writing sh3 = t_writing sh2" "same_in v (t_conn sh2) (t_conn sh3)" "taken v (t_conn sh3) = taken v (t_conn sh2)"
    using flush_control_ok [OF assms(1) sh2(2)] by blast
  let ?d2 = "extend_from ?d1 (avail v (t_conn sh))"
  let ?d3 = "?d2\<lparr>buf := snd (split_frames (buf ?d2))\<rparr>"
  let ?k2 = "?k1\<lparr>sent := sent ?k1 @ received peer (fst (split_frames (buf ?d2)))\<rparr>"
  have same: "same_in v c1 (t_conn sh3)" using same_in_trans [OF sh2(4) sh3(4)] .
  have drain: "drain_plaintext ops (snd (sched 0)) sh1 ?d1 = Some (sh3, ?d2)"
    using c1(1) sh2(1) sh3(1) sh1(4) by (simp add: drain_plaintext_def same_in_def)
  have "t_writing sh3" "settled v (t_conn sh3)" "avail v (t_conn sh3) = []" "room ?k2 = None"
    using sh2(3) sh3(3) same sh1(4) c1(2,5) assms(6,7) by (auto simp: same_in_def)
  from tls_reader_loop_ok [OF assms(1-3) sh3(2) this(1,4,2,3), of ?d3 sched 1 peer]
  obtain sh' n where g: "tls_reader_loop ops sched 1 rs sh3 ?d3 ?k2 peer = Some (sh', ?k2\<lparr>sent := sent ?k2 @
      received peer (fst (split_frames (buf ?d3 @ yields v (t_conn sh3) (stream_pend rs))))\<rparr>)"
      "in_order v sh'" "1 \<le> n" "taken v (t_conn sh') = taken v (t_conn sh3) @ concat (sends sched 1 n)"
    by (auto simp: split_frames_rest)
  have y: "?y = avail v (t_conn sh) @ yields v (t_conn sh3) (stream_pend rs)"
    using c1(3) sh1(4) same by (simp add: same_in_def)
  have "tls_reader ops sched rs sh d k peer = tls_reader_loop ops sched 1 rs sh3 ?d3 ?k2 peer"
    using assms(6) sh1(1) drain by (simp add: tls_reader_def forward_frames_alive)
  moreover have "fst (split_frames (buf d @ ?y)) = fst (split_frames (buf d)) @ fst (split_frames (buf ?d2)) @
      fst (split_frames (buf ?d3 @ yields v (t_conn sh3) (stream_pend rs)))"
    using split_frames_append [of "buf d" ?y] split_frames_append [of "buf ?d2" "yields v (t_conn sh3) (stream_pend rs)"]
    by (simp add: y extend_from_def)
  moreover have "taken v (t_conn sh') = taken v (t_conn sh) @ concat (sends sched 0 n)"
    using g(3,4) sh1(5) sh2(5) sh3(5) c1(4) sends_Suc [of 0 n sched] by (simp add: same_out_def)
  ultimately show ?thesis using g(1,2) by (intro exI [of _ sh'] exI [of _ n]) simp
qed


section \<open>Sessions\<close>

context timed_stream
begin

lemma read_one_byte_ok:
  assumes "idle_only s" and "horizon s < deadline" and "pend s = b # rest"
  shows "\<exists>s'. read_one_byte rd now s deadline = Some (Some b, s') \<and> idle_only s' \<and> pend s' = rest \<and>
    horizon s' \<le> horizon s \<and> now s \<le> now s'"
  using assms
proof (induction "steps s" arbitrary: s rule: less_induct)
  case less
  obtain r t where rd: "rd s 1 = (r, t)" by fastforce
  have t: "idle_only t" "horizon t \<le> horizon s" "now s \<le> now t"
    using idle_rd [OF less.prems(1) rd] horizon_rd [OF rd] now_rd [OF rd] by simp_all
  show ?case
  proof (cases r)
    case (Inl e)
    have tick: "is_idle_tick e" using idle_err less.prems(1) rd Inl by blast
    have "steps t < steps s" using rd_progress [OF rd] Inl by simp
    moreover have "pend t = b # rest" using rd_err rd Inl less.prems(3) by simp
    moreover have "now t < deadline" using now_horizon [of t] t(2) less.prems(2) by linarith
    ultimately have "\<exists>s'. read_one_byte rd now t deadline = Some (Some b, s') \<and> idle_only s' \<and> pend s' = rest \<and>
        horizon s' \<le> horizon t \<and> now t \<le> now s'"
      and "read_one_byte rd now s deadline = read_one_byte rd now t deadline"
      using less.hyps [of t] t less.prems(2) rd Inl tick by (auto simp: read_one_byte.simps [of rd now s])
    with t show ?thesis by (metis order_trans)
  next
    case (Inr bs)
    have "pend s = bs @ pend t" "length bs \<le> 1" using rd_ok [OF rd [unfolded Inr]] by simp_all
    moreover have "bs \<noteq> []" using rd_eof [of s 1 t] rd Inr less.prems(3) by force
    ultimately have "pend s = bs @ pend t" "length bs \<le> 1" "bs \<noteq> []" .
    then have "bs = [b]" "pend t = rest" using less.prems(3) by (cases bs; simp)+
    with rd Inr t show ?thesis by (subst read_one_byte.simps) simp
  qed
qed

end

lemma read_one_byte_faults:
  "read_one_byte stream_read clock s deadline = Some p \<Longrightarrow> wfaults (snd p) = wfaults s"
proof (induction "stream_steps s" arbitrary: s rule: less_induct)
  case less
  obtain r t where rd: "stream_read s 1 = (r, t)" by fastforce
  note f = stream_read_frame [OF rd]
  show ?case
  proof (cases "\<exists>e. r = Inl e \<and> is_idle_tick e \<and> clock t < deadline")
    case True
    then have "read_one_byte stream_read clock t deadline = Some p"
      using less.prems rd by (subst (asm) read_one_byte.simps) auto
    moreover have "stream_steps t < stream_steps s" using stream_read_err rd True by blast
    ultimately show ?thesis using less.hyps f by simp
  next
    case False
    with less.prems rd f show ?thesis
      by (subst (asm) read_one_byte.simps) (auto split: sum.splits if_splits)
  qed
qed

text \<open>Taking the \<open>StreamOwned\<close> apart gives a connection that yields what the stream still had, over
  a socket that carried this connection's ciphertext only.\<close>

definition reclaims :: "'c tls_view \<Rightarrow> (stream \<Rightarrow> 'c \<times> stream) \<Rightarrow> bool" where
  "reclaims v reclaim \<longleftrightarrow> (\<forall>s conn sock. reclaim s = (conn, sock) \<longrightarrow>
     stream_gapless sock \<and> wfaults sock = [] \<and> outbound sock @ outq v conn = made v conn \<and>
     settled v conn \<and> yields v conn (stream_pend sock) = stream_pend s)"

lemma tls_handshake_done_ok:
  assumes "rustls_laws ops v" and "\<And>c. fst (process_new_packets ops c)" and "reclaims v reclaim"
    and "room k = None" and "answer k = Some True"
  shows "\<exists>sh conn n. tls_handshake_done ops reclaim (True, True) sched s d k peer =
      Some (k\<lparr>fresh := fresh k + 2, sent := sent k @ ConnectionUp peer (fresh k) (Suc (fresh k)) #
        received peer (fst (split_frames (buf d @ stream_pend s))) @ [ConnectionDown peer]\<rparr>, Some sh) \<and>
    fst (reclaim s) = conn \<and> in_order v sh \<and> taken v (t_conn sh) = taken v conn @ concat (sends sched 0 n)"
proof -
  obtain conn sock where rc: "reclaim s = (conn, sock)" by fastforce
  have c: "stream_gapless sock" "settled v conn" "yields v conn (stream_pend sock) = stream_pend s"
    "in_order v \<lparr>t_conn = conn, t_sock = sock, t_writing = True\<rparr>"
    using assms(3) rc by (auto simp: reclaims_def in_order_def)
  let ?k1 = "k\<lparr>fresh := fresh k + 2, sent := sent k @ [ConnectionUp peer (fresh k) (Suc (fresh k))]\<rparr>"
  have "room ?k1 = None" using assms(4) by simp
  from tls_reader_ok [OF assms(1,2) c(1,4) _ this, of sched d peer] c(2,3)
  obtain sh n where "tls_reader ops sched sock \<lparr>t_conn = conn, t_sock = sock, t_writing = True\<rparr> d ?k1 peer =
      Some (sh, ?k1\<lparr>sent := sent ?k1 @ received peer (fst (split_frames (buf d @ stream_pend s)))\<rparr>)"
      "in_order v sh" "taken v (t_conn sh) = taken v conn @ concat (sends sched 0 n)"
    by auto
  with rc register_accepted [OF assms(4,5), of peer] assms(4) show ?thesis
    by (auto simp: tls_handshake_done_def intro!: exI [of _ n])
qed


section \<open>Properties\<close>



text \<open>A connection without encryption, for concrete runs: it takes at most four bytes of plaintext at
  a time.\<close>

record null_conn =
  n_fed :: bytes
  n_plain :: bytes
  n_out :: bytes
  n_made :: bytes
  n_taken :: bytes

definition null_ops :: "null_conn tls_ops" where
  "null_ops = \<lparr>read_tls = \<lambda>c ys. (Inr (length ys), c\<lparr>n_fed := n_fed c @ ys\<rparr>),
     process_new_packets = \<lambda>c. (True, c\<lparr>n_plain := n_plain c @ n_fed c, n_fed := []\<rparr>),
     plain_read = \<lambda>c n. if n_plain c = [] then (Inl WouldBlock, c)
       else (Inr (take n (n_plain c)), c\<lparr>n_plain := drop n (n_plain c)\<rparr>),
     plain_write = \<lambda>c bs. (Inr (min 4 (length bs)), c\<lparr>n_out := n_out c @ take 4 bs,
       n_made := n_made c @ take 4 bs, n_taken := n_taken c @ take 4 bs\<rparr>),
     wants_write = \<lambda>c. n_out c \<noteq> [],
     write_tls = \<lambda>c. (Inr (n_out c), c\<lparr>n_out := []\<rparr>)\<rparr>"

definition null_view :: "null_conn tls_view" where
  "null_view = \<lparr>yields = \<lambda>c x. n_plain c @ n_fed c @ x, avail = n_plain, outq = n_out, made = n_made,
     taken = n_taken, settled = \<lambda>c. n_fed c = []\<rparr>"

definition null_reclaim :: "stream \<Rightarrow> null_conn \<times> stream" where
  "null_reclaim s = (\<lparr>n_fed = [], n_plain = [], n_out = [], n_made = outbound s, n_taken = []\<rparr>,
     s\<lparr>inbound := [(0, Arrive (stream_pend s))], wfaults := []\<rparr>)"

lemma null_laws: "rustls_laws null_ops null_view"
  unfolding rustls_laws_def rustls_reads_def rustls_writes_def
  by (auto simp: null_ops_def null_view_def same_in_def same_out_def more_out_def min_def)

lemma null_reclaims: "reclaims null_view null_reclaim"
  by (auto simp: reclaims_def null_reclaim_def null_view_def stream_gapless_def stream_pend_def)



section \<open>Order on the wire\<close>

text \<open>
  The two threads at the granularity of their locks: a thread acquires the lock of the writing
  half, encrypts under the lock of the connection, and then writes to the socket with that lock
  released, while the reader may lock the connection and decrypt at any time.  The log lists the
  frames in the order in which they were encrypted.
\<close>

datatype tls_thread = Reader | Writer

record 'c tls_sys =
  sy_conn :: 'c
  sy_sock :: stream
  sy_holder :: "(tls_thread \<times> (bytes option + bytes)) option"
    \<comment> \<open>who holds the writing half: about to encrypt a frame, or about to write ciphertext\<close>
  sy_log :: "bytes list"

inductive tls_step :: "'c tls_ops \<Rightarrow> 'c tls_sys \<Rightarrow> 'c tls_sys \<Rightarrow> bool" for ops where
  acquire: "sy_holder st = None \<Longrightarrow> tls_step ops st (st\<lparr>sy_holder := Some (t, Inl frame)\<rparr>)"
| encrypt: "sy_holder st = Some (t, Inl frame) \<Longrightarrow>
    encrypt_pending ops (sy_conn st) frame = Some (Inr (), c, cipher) \<Longrightarrow>
    tls_step ops st (st\<lparr>sy_conn := c, sy_holder := Some (t, Inr cipher),
      sy_log := sy_log st @ (case frame of None \<Rightarrow> [] | Some f \<Rightarrow> [f])\<rparr>)"
| put: "sy_holder st = Some (t, Inr cipher) \<Longrightarrow> stream_write_all (sy_sock st) cipher = (Inr (), w) \<Longrightarrow>
    tls_step ops st (st\<lparr>sy_sock := w, sy_holder := None\<rparr>)"
| decrypt: "(\<forall>x. sy_holder st \<noteq> Some (Reader, x)) \<Longrightarrow> raw \<noteq> [] \<Longrightarrow>
    tls_feed ops (sy_conn st) raw [] = Some (c, Some txt) \<Longrightarrow> tls_step ops st (st\<lparr>sy_conn := c\<rparr>)"

inductive tls_runs :: "'c tls_ops \<Rightarrow> 'c tls_sys \<Rightarrow> 'c tls_sys \<Rightarrow> bool" for ops st where
  none: "tls_runs ops st st"
| step: "tls_runs ops st st' \<Longrightarrow> tls_step ops st' st'' \<Longrightarrow> tls_runs ops st st''"

text \<open>A call of \<open>write_pending\<close> is such a sequence of steps.\<close>

lemma write_pending_runs:
  assumes "write_pending ops frame sh = Some (Inr (), sh')" and "wfaults (t_sock sh) = []"
  shows "tls_runs ops \<lparr>sy_conn = t_conn sh, sy_sock = t_sock sh, sy_holder = None, sy_log = l\<rparr>
    \<lparr>sy_conn = t_conn sh', sy_sock = t_sock sh', sy_holder = None,
     sy_log = l @ (case frame of None \<Rightarrow> [] | Some f \<Rightarrow> [f])\<rparr>"
proof -
  obtain c cipher where e: "encrypt_pending ops (t_conn sh) frame = Some (Inr (), c, cipher)"
      "sh' = sh\<lparr>t_conn := c, t_sock := (t_sock sh)\<lparr>outbound := outbound (t_sock sh) @ cipher\<rparr>\<rparr>"
    using assms
    by (auto simp: write_pending_def Let_def stream_write_all_def split: option.splits sum.splits if_splits)
  let ?s0 = "\<lparr>sy_conn = t_conn sh, sy_sock = t_sock sh, sy_holder = None, sy_log = l\<rparr>"
  let ?s1 = "?s0\<lparr>sy_holder := Some (Writer, Inl frame)\<rparr>"
  let ?s2 = "?s1\<lparr>sy_conn := c, sy_holder := Some (Writer, Inr cipher),
    sy_log := sy_log ?s1 @ (case frame of None \<Rightarrow> [] | Some f \<Rightarrow> [f])\<rparr>"
  let ?s3 = "?s2\<lparr>sy_sock := (t_sock sh)\<lparr>outbound := outbound (t_sock sh) @ cipher\<rparr>, sy_holder := None\<rparr>"
  have "tls_step ops ?s0 ?s1" by (rule tls_step.acquire) simp
  moreover have "tls_step ops ?s1 ?s2" by (rule tls_step.encrypt) (use e(1) in simp_all)
  moreover have "tls_step ops ?s2 ?s3" by (rule tls_step.put) (use assms(2) in \<open>simp_all add: stream_write_all_def\<close>)
  ultimately have "tls_runs ops ?s0 ?s3" by (meson tls_runs.intros)
  then show ?thesis using e(2) by simp
qed

definition on_wire :: "'c tls_view \<Rightarrow> 'c tls_sys \<Rightarrow> bytes" where
  "on_wire v st = outbound (sy_sock st) @ (case sy_holder st of Some (t, Inr cipher) \<Rightarrow> cipher | _ \<Rightarrow> []) @
     outq v (sy_conn st)"

lemma tls_step_order:
  assumes "tls_step ops st st'" and "rustls_laws ops v" and "\<And>c. fst (process_new_packets ops c)"
    and "on_wire v st = made v (sy_conn st)" and "taken v (sy_conn st) = base @ concat (sy_log st)"
  shows "on_wire v st' = made v (sy_conn st') \<and> taken v (sy_conn st') = base @ concat (sy_log st')"
  using assms(1)
proof cases
  case (encrypt t frame c cipher)
  with encrypt_pending_ok [OF assms(2), of "sy_conn st" frame] assms(4,5) show ?thesis
    by (auto simp: on_wire_def simp flip: append_assoc split: option.splits)
next
  case (put t cipher w)
  then show ?thesis
    using assms(4,5) stream_write_all_ok [of "sy_sock st" cipher "()" w] by (simp add: on_wire_def)
next
  case (decrypt raw c plain)
  with tls_feed_ok [OF assms(2,3), of raw "sy_conn st" "[]"] have "more_out v (sy_conn st) c" by auto
  with decrypt(1) assms(4,5) show ?thesis
    by (auto simp: on_wire_def more_out_def simp flip: append_assoc)
qed (use assms(4,5) in \<open>simp_all add: on_wire_def\<close>)



end
