(* ===== verification/Conn_Loops.thy ===== *)
theory Conn_Loops
  imports Tls_Session
begin

text \<open>
  The threads that make connections (\<open>rust-lib-sync/src/conn.rs\<close>): \<open>handle_connection\<close>, which
  every connection runs on, the accept loop of a bound socket, and the connect loop with its
  reconnection delay.

  What these loops take from outside is explicit: the \<open>rustls\<close> constructors are the record
  \<open>tls_env\<close>, one TCP connection with its environment is the record \<open>conn_env\<close>, a listener is the
  list of the connections that will arrive with their times, and the connect loop gets the
  outcomes of its attempts one by one.  The shutdown flag is set once, by \<open>close\<close>; it is the time
  at which that happens, if it does.
\<close>

section \<open>Acceptors, connectors and wraps\<close>

datatype 'srv acceptor = AcceptPlain | AcceptTls 'srv

datatype ('cli, 'name) connector = ConnectPlain | ConnectTls 'cli 'name

datatype ('srv, 'cli, 'name) wrap = WrapPlain | TlsServer 'srv | TlsClient 'cli 'name

fun wrap_accept :: "'srv acceptor \<Rightarrow> ('srv, 'cli, 'name) wrap" where
  "wrap_accept AcceptPlain = WrapPlain"
| "wrap_accept (AcceptTls cfg) = TlsServer cfg"

fun wrap_connect :: "('cli, 'name) connector \<Rightarrow> ('srv, 'cli, 'name) wrap" where
  "wrap_connect ConnectPlain = WrapPlain"
| "wrap_connect (ConnectTls cfg name) = TlsClient cfg name"


section \<open>One connection\<close>

text \<open>The \<open>rustls\<close> crate: the constructors of connections, which may fail, their operations, the
  decrypted stream of a \<open>StreamOwned\<close> over a socket, and taking it apart again.\<close>

record ('srv, 'cli, 'name, 'c) tls_env =
  server_connection :: "'srv \<Rightarrow> 'c option"
  client_connection :: "'cli \<Rightarrow> 'name \<Rightarrow> 'c option"
  connection_ops :: "'c tls_ops"
  stream_owned :: "'c \<Rightarrow> stream \<Rightarrow> stream"
  stream_parts :: "stream \<Rightarrow> 'c \<times> stream"

text \<open>One TCP connection: its descriptor, its stream, whether the calls of \<open>try_clone\<close> succeed in
  \<open>handle_connection\<close>, in the plain session and in the TLS session, the schedule of the TLS writer,
  and what the other threads do to the registry while the session runs.\<close>

record conn_env =
  ce_sock :: chan
  ce_raw :: stream
  ce_clone :: bool
  ce_split :: bool
  ce_halves :: "bool \<times> bool"
  ce_sched :: "nat \<Rightarrow> bytes list \<times> bytes list"
  ce_during :: "registry \<Rightarrow> registry"

definition wrapped_session :: "('srv, 'cli, 'name, 'c) tls_env \<Rightarrow> conn_env \<Rightarrow> ('srv, 'cli, 'name) wrap \<Rightarrow>
    broker_link \<Rightarrow> identity \<Rightarrow> bool \<Rightarrow> broker_link option" where
  "wrapped_session te ce w k me sniff =
     (case w of
        WrapPlain \<Rightarrow> map_option fst (plain_or_ws_session (ce_split ce) (ce_raw ce) k me sniff)
      | TlsServer cfg \<Rightarrow>
          (case server_connection te cfg of
             Some c \<Rightarrow>
               map_option fst (tls_session (connection_ops te) (stream_parts te) (ce_halves ce)
                 (ce_sched ce) (stream_owned te c (ce_raw ce)) k me sniff)
           | None \<Rightarrow> Some k)
      | TlsClient cfg name \<Rightarrow>
          (case client_connection te cfg name of
             Some c \<Rightarrow>
               map_option fst (tls_session (connection_ops te) (stream_parts te) (ce_halves ce)
                 (ce_sched ce) (stream_owned te c (ce_raw ce)) k me False)
           | None \<Rightarrow> Some k))"

definition handle_connection :: "('srv, 'cli, 'name, 'c) tls_env \<Rightarrow> conn_env \<Rightarrow> ('srv, 'cli, 'name) wrap \<Rightarrow>
    broker_link \<Rightarrow> identity \<Rightarrow> registry \<Rightarrow> bool \<Rightarrow> (broker_link \<times> registry) option" where
  "handle_connection te ce w k me reg sniff =
     (if \<not> ce_clone ce then Some (k, reg)
      else case reg_register (ce_sock ce) reg of (reg_id, reg1) \<Rightarrow>
        map_option (\<lambda>k'. (k', reg_deregister reg_id (ce_during ce reg1)))
          (wrapped_session te ce w k me sniff))"


section \<open>The accept loop\<close>

text \<open>The time at which the shutdown flag is set, if ever.\<close>

type_synonym shutdown_flag = "nat option"

definition is_shut :: "shutdown_flag \<Rightarrow> nat \<Rightarrow> bool" where
  "is_shut flag now = (case flag of None \<Rightarrow> False | Some t \<Rightarrow> t \<le> now)"

text \<open>A non-blocking listener: the connections with their times of arrival, in order, and the calls
  of \<open>accept\<close> that fail for another reason than that no connection is waiting.\<close>

record listener =
  backlog :: "(nat \<times> conn_env) list"
  afaults :: "error_kind option list"

definition listener_accept :: "nat \<Rightarrow> listener \<Rightarrow> conn_env io_result \<times> listener" where
  "listener_accept now l =
     (case afaults l of
        Some e # fs \<Rightarrow> (Inl e, l\<lparr>afaults := fs\<rparr>)
      | _ \<Rightarrow>
          let l1 = l\<lparr>afaults := tl (afaults l)\<rparr>
          in case backlog l of
               (t, ce) # rest \<Rightarrow>
                 if t \<le> now then (Inr ce, l1\<lparr>backlog := rest\<rparr>) else (Inl WouldBlock, l1)
             | [] \<Rightarrow> (Inl WouldBlock, l1))"

text \<open>
  The loop returns the handlers it spawned, each with the time of its start, and the time at
  which it stops accepting.  The handlers run \<open>handle_connection\<close> with sniffing on threads of
  their own; the loop joins them at the end.
\<close>

partial_function (option) accept_connections :: "shutdown_flag \<Rightarrow> listener \<Rightarrow> nat \<Rightarrow> (nat \<times> conn_env) list \<Rightarrow>
    ((nat \<times> conn_env) list \<times> nat) option" where
  "accept_connections flag l now handlers =
     (if is_shut flag now then Some (handlers, now)
      else case listener_accept now l of (r, l') \<Rightarrow>
        (case r of
           Inr ce \<Rightarrow> accept_connections flag l' now (handlers @ [(now, ce)])
         | Inl e \<Rightarrow> accept_connections flag l' (now + ACCEPT_POLL) handlers))"

text \<open>A handler has its own clones of the command sender and of the registry, and \<open>links\<close> gives the
  broker's side of each connection.  The result holds what each handler did with its link.\<close>

definition accept_loop :: "('srv, 'cli, 'name, 'c) tls_env \<Rightarrow> shutdown_flag \<Rightarrow> listener \<Rightarrow> 'srv acceptor \<Rightarrow>
    (nat \<Rightarrow> broker_link) \<Rightarrow> identity \<Rightarrow> (nat \<Rightarrow> registry) \<Rightarrow> nat \<Rightarrow> (broker_link option list \<times> nat) option" where
  "accept_loop te flag l a links me regs now =
     (case accept_connections flag l now [] of
        None \<Rightarrow> None
      | Some (handlers, t) \<Rightarrow>
          Some (map (\<lambda>(i, (_, ce)). map_option fst
                  (handle_connection te ce (wrap_accept a) (links i) me (regs i) True))
                (enumerate 0 handlers), t))"


section \<open>The connect loop\<close>

function sleep_with_shutdown :: "shutdown_flag \<Rightarrow> nat \<Rightarrow> nat \<Rightarrow> nat \<Rightarrow> nat" where
  "sleep_with_shutdown flag dur start now =
     (if now - start < dur then
        if is_shut flag now then now else sleep_with_shutdown flag dur start (now + 20)
      else now)"
  by pat_completeness auto
termination
  by (relation "measure (\<lambda>(flag, dur, start, now). start + dur - now)") auto

declare sleep_with_shutdown.simps [simp del]

text \<open>One attempt to connect: how long \<open>connect_timeout\<close> takes, the connection if it succeeds, how the
  broker answers and feeds its session, and how long the session lasts.\<close>

record attempt =
  at_took :: nat
  at_conn :: "conn_env option"
  at_answer :: "bool option"
  at_feed :: writer_rx
  at_lasts :: nat

definition run_attempt :: "('srv, 'cli, 'name, 'c) tls_env \<Rightarrow> ('cli, 'name) connector \<Rightarrow> identity \<Rightarrow> attempt \<Rightarrow>
    broker_link \<Rightarrow> registry \<Rightarrow> nat \<Rightarrow> (broker_link \<times> registry \<times> nat) option" where
  "run_attempt te c me a k reg now =
     (case at_conn a of
        None \<Rightarrow> Some (k, reg, now + at_took a)
      | Some ce \<Rightarrow>
          map_option (\<lambda>(k', reg'). (k', reg', now + at_took a + at_lasts a))
            (handle_connection te ce (wrap_connect c) (k\<lparr>answer := at_answer a, feed_rx := at_feed a\<rparr>) me reg False))"

text \<open>\<open>delay i\<close> is what the \<open>i\<close>-th call of the reconnection strategy returns; the result counts the
  attempts.\<close>

partial_function (option) connect_loop :: "('srv, 'cli, 'name, 'c) tls_env \<Rightarrow> shutdown_flag \<Rightarrow>
    ('cli, 'name) connector \<Rightarrow> identity \<Rightarrow> (nat \<Rightarrow> nat) \<Rightarrow> (nat \<Rightarrow> attempt) \<Rightarrow> nat \<Rightarrow> broker_link \<Rightarrow> registry \<Rightarrow>
    nat \<Rightarrow> (nat \<times> broker_link \<times> registry \<times> nat) option" where
  "connect_loop te flag c me delay attempts i k reg now =
     (if is_shut flag now then Some (i, k, reg, now)
      else case run_attempt te c me (attempts i) k reg now of
        None \<Rightarrow> None
      | Some (k1, reg1, t) \<Rightarrow>
          if is_shut flag t then Some (Suc i, k1, reg1, t)
          else connect_loop te flag c me delay attempts (Suc i) k1 reg1
                 (sleep_with_shutdown flag (delay i) t t))"


section \<open>Sleeping and the shutdown flag\<close>

lemma is_shut_simps [simp]: "is_shut None now = False" "is_shut (Some t) now = (t \<le> now)"
  by (simp_all add: is_shut_def)

text \<open>A sleep runs for its time, rounded up by less than a tick, unless shutdown cuts it short at the
  next tick.\<close>

lemma sleep_with_shutdown_bounds:
  assumes "sleep_with_shutdown flag dur start now = t" and "start \<le> now" and "now < start + dur + 20"
  shows "now \<le> t \<and> t < start + dur + 20 \<and> (\<not> is_shut flag t \<longrightarrow> start + dur \<le> t) \<and>
    (\<forall>s. flag = Some s \<longrightarrow> t \<le> max now (s + 19))"
  using assms
proof (induction flag dur start now rule: sleep_with_shutdown.induct)
  case (1 flag dur start now)
  show ?case
  proof (cases "now - start < dur \<and> \<not> is_shut flag now")
    case False
    with 1(2-) show ?thesis by (subst (asm) sleep_with_shutdown.simps) (auto split: if_splits)
  next
    case True
    with 1(2) have "sleep_with_shutdown flag dur start (now + 20) = t"
      by (subst (asm) sleep_with_shutdown.simps) simp
    moreover have "now < start + dur" using True 1(3) by linarith
    ultimately have "now + 20 \<le> t \<and> t < start + dur + 20 \<and> (\<not> is_shut flag t \<longrightarrow> start + dur \<le> t) \<and>
        (\<forall>s. flag = Some s \<longrightarrow> t \<le> max (now + 20) (s + 19))"
      using 1(1) True 1(3) by simp
    with True show ?thesis by (auto simp: max_def split: if_splits)
  qed
qed

lemma sleep_progress: "0 < dur \<Longrightarrow> \<not> is_shut flag now \<Longrightarrow> now < sleep_with_shutdown flag dur now now"
  using sleep_with_shutdown_bounds [OF refl, of now "now + 20" dur flag]
  by (subst sleep_with_shutdown.simps) (cases "dur \<le> 20"; simp add: sleep_with_shutdown.simps)


section \<open>What the broker sees of a connection\<close>

text \<open>
  A session sends the broker nothing, or a registration under a fresh pair of channels, then
  envelopes of the peer it registered, and at most one notice at the end.
\<close>

definition session_log :: "chan \<Rightarrow> command list \<Rightarrow> bool" where
  "session_log c log \<longleftrightarrow> log = [] \<or>
     (\<exists>peer es. is_id peer \<and> (log = ConnectionUp peer c (Suc c) # map (Received peer) es \<or>
        log = ConnectionUp peer c (Suc c) # map (Received peer) es @ [ConnectionDown peer]))"

definition forwards :: "identity \<Rightarrow> broker_link \<Rightarrow> broker_link \<Rightarrow> bool" where
  "forwards peer k k' \<longleftrightarrow> fresh k' = fresh k \<and> (\<exists>es. sent k' = sent k @ map (Received peer) es)"

definition logs :: "broker_link \<Rightarrow> broker_link \<Rightarrow> bool" where
  "logs k k' \<longleftrightarrow> (\<exists>log. sent k' = sent k @ log \<and> session_log (fresh k) log \<and> fresh k \<le> fresh k' \<and>
     (log \<noteq> [] \<longrightarrow> fresh k' = fresh k + 2))"

lemma forwards_refl [simp]: "forwards peer k k"
  by (simp add: forwards_def)

lemma forwards_trans [trans]: "forwards peer k k1 \<Longrightarrow> forwards peer k1 k2 \<Longrightarrow> forwards peer k k2"
  unfolding forwards_def by (metis append.assoc map_append)

lemma logs_refl [simp]: "logs k k"
  by (simp add: logs_def session_log_def)

lemma offer_forwards: "forwards peer k (snd (offer (received peer fs) k))"
  by (auto simp: forwards_def offer_def received_def take_map split: option.split)

lemma forward_frames_forwards:
  "forward_frames d k peer = (ok, d', k') \<Longrightarrow> forwards peer k k' \<and> (ok \<longrightarrow> next_frame (buf d') = None)"
  by (drule forward_frames_offer) (metis (no_types, lifting) offer_forwards snd_conv split_frames_rest
      frame_decoder.select_convs(1) frame_decoder.surjective frame_decoder.update_convs(1))

lemma register_logs:
  assumes "register k peer = (r, k1)" and "is_id peer"
  shows "case r of None \<Rightarrow> logs k k1
    | Some _ \<Rightarrow> sent k1 = sent k @ [ConnectionUp peer (fresh k) (Suc (fresh k))] \<and> fresh k1 = fresh k + 2"
  using assms by (auto simp: register_def Let_def cmd_send_def logs_def session_log_def
      split: option.splits nat.splits bool.splits)

lemma session_logs:
  assumes "register k peer = (Some rx, k1)" and "is_id peer" and "forwards peer k1 k2"
  shows "logs k k2" and "logs k (snd (cmd_send (ConnectionDown peer) k2))"
proof -
  obtain es where k2: "sent k2 = sent k @ ConnectionUp peer (fresh k) (Suc (fresh k)) # map (Received peer) es"
      "fresh k2 = fresh k + 2"
    using register_logs [OF assms(1,2)] assms(3) by (auto simp: forwards_def)
  then show "logs k k2" using assms(2) by (auto simp: logs_def session_log_def)
  from k2 show "logs k (snd (cmd_send (ConnectionDown peer) k2))"
    using assms(2) by (auto simp: logs_def session_log_def cmd_send_def split: option.split nat.split)
qed

lemma plain_reader_forwards: "plain_reader s k peer = Some (k', s') \<Longrightarrow> forwards peer k k'"
  by (drule plain_reader_prefix) (auto simp: offer_forwards)

lemma read_hello_id:
  "read_hello stream_read clock s d = Some (Some peer, d', s') \<Longrightarrow> 0 < chunk_len d \<Longrightarrow> is_id peer"
  unfolding read_hello_def by (drule (1) tcp.read_hello_loop_sound) (auto dest: hello_peer_id)

lemma plain_session_logs:
  assumes "plain_session cc s k me = Some (k', s', w)"
  shows "logs k k'"
proof (cases "k' = k")
  case False
  with assms obtain s1 d s2 peer r k1 where h: "read_hello stream_read clock s1 decoder_new = Some (Some peer, d, s2)"
    and r: "register k peer = (r, k1)"
    and out: "r = None \<and> k' = k1 \<or> (\<exists>rx ok d1 k2 k3 s3. r = Some rx \<and> forward_frames d k1 peer = (ok, d1, k2) \<and>
      plain_reader s2 k2 peer = Some (k3, s3) \<and> k' = snd (cmd_send (ConnectionDown peer) k3))"
    by (fastforce simp: plain_session_def Let_def split: if_splits option.splits prod.splits sum.splits)
  have "is_id peer" using read_hello_id [OF h] by (simp add: decoder_new_def)
  with out r show ?thesis
    by (auto dest: register_logs session_logs(2) forward_frames_forwards plain_reader_forwards intro: forwards_trans)
qed simp

lemma ws_session_logs:
  assumes "ws_session s first k me deadline = Some (k', s')"
  shows "logs k k'"
proof (cases "k' = k")
  case False
  with assms obtain w1 d w2 peer r k1 where
      h: "ws_read_hello ws_read ws_now w1 decoder_new deadline = Some (Some peer, d, w2)"
    and r: "register k peer = (r, k1)"
    and out: "r = None \<and> k' = k1 \<or> (\<exists>rx ok d1 k2. r = Some rx \<and> forward_frames d k1 peer = (ok, d1, k2) \<and>
      (\<not> ok \<and> k' = snd (cmd_send (ConnectionDown peer) k2) \<or>
       ok \<and> (\<exists>down k3 w3. ws_loop w2 d1 k2 peer rx (ws_now w2) (ws_now w2) = (down, k3, w3) \<and>
         k' = (if down then snd (cmd_send (ConnectionDown peer) k3) else k3))))"
    by (fastforce simp: ws_session_def split: if_splits option.splits prod.splits sum.splits)
  obtain f where "hello_peer f = Some peer"
    using ws.ws_read_hello_sound [OF h] by (auto simp: decoder_new_def)
  then have "is_id peer" by (rule hello_peer_id)
  moreover have "forwards peer k1 k3" if fw: "forward_frames d k1 peer = (True, d1, k2)"
      and lp: "ws_loop w2 d1 k2 peer rx (ws_now w2) (ws_now w2) = (down, k3, w3)" for d1 k2 rx down k3 w3
  proof -
    have "forwards peer k1 k2" and none: "next_frame (buf d1) = None"
      using forward_frames_forwards [OF fw] by auto
    moreover have "forwards peer k2 k3" using ws_loop_prefix [OF lp none] by (auto simp: offer_forwards)
    ultimately show ?thesis by (blast intro: forwards_trans)
  qed
  ultimately show ?thesis using out r
    by (auto dest!: forward_frames_forwards dest: register_logs intro: session_logs split: if_splits)
qed simp

lemma tls_reader_loop_forwards:
  "tls_reader_loop ops sched i rs sh d k peer = Some p \<Longrightarrow> forwards peer k (snd p)"
proof (induction ops sched i rs sh d k peer p rule: tls_reader_loop.raw_induct [rotated 1, consumes 1])
  case (1 loop ops sched i rs sh d k peer p)
  show ?case
  proof (cases "snd p = k")
    case False
    with 1(2) obtain pt rs' sh1 ok d1 k1 where "forward_frames (extend_from d pt) k peer = (ok, d1, k1)"
      "\<not> ok \<and> snd p = k1 \<or> loop ops sched (Suc i) rs' sh1 d1 k1 peer = Some p"
      by (fastforce split: if_splits option.splits prod.splits sum.splits)
    then show ?thesis
      using 1(1) [of ops sched "Suc i"] by (metis forward_frames_forwards forwards_trans)
  qed simp
qed

lemma tls_reader_forwards:
  assumes "tls_reader ops sched rs sh d k peer = Some (sh', k')"
  shows "forwards peer k k'"
proof -
  from assms obtain ok d1 k1 where fw: "forward_frames d k peer = (ok, d1, k1)"
    and "k' = k1 \<or> (\<exists>d2 ok2 d3 k2 sh2. forward_frames d2 k1 peer = (ok2, d3, k2) \<and>
      (k' = k2 \<or> tls_reader_loop ops sched 1 rs sh2 d3 k2 peer = Some (sh', k')))"
    by (fastforce simp: tls_reader_def split: if_splits option.splits prod.splits)
  then show ?thesis
    by (auto dest!: forward_frames_forwards tls_reader_loop_forwards intro: forwards_trans)
qed

lemma tls_session_logs:
  assumes "tls_session ops reclaim clones sched s k me sniff = Some (k', sh)"
  shows "logs k k'"
proof (cases "k' = k")
  case False
  show ?thesis
  proof (cases "sniff \<and> (\<exists>s'. read_one_byte stream_read clock s (clock s + HEARTBEAT_TIMEOUT) = Some (Some 0x47, s'))")
    case True
    with assms show ?thesis by (auto simp: tls_session_def intro: ws_session_logs)
  next
    case raw: False
    with assms False obtain d d' s2 s3 peer where d: "d = decoder_new \<or> d = extend_from decoder_new [0x00]"
        and h: "read_hello stream_read clock s2 d = Some (Some peer, d', s3)"
        and out: "tls_handshake_done ops reclaim clones sched s3 d' k peer = Some (k', sh)"
      by (fastforce simp: tls_session_def Let_def split: if_splits option.splits prod.splits sum.splits)
    have "is_id peer" using read_hello_id [OF h] d by (auto simp: decoder_new_def extend_from_def)
    with out show ?thesis
      by (auto simp: tls_handshake_done_def dest!: tls_reader_forwards dest: register_logs intro: session_logs
          split: if_splits option.splits prod.splits)
  qed
qed simp


lemma plain_session_returns: "\<exists>k' s' w. plain_session cc s k me = Some (k', s', w)"
proof -
  obtain r s1 where w: "write_frame stream_write_all s (hello me) = (r, s1)" by fastforce
  obtain h d s2 where h: "read_hello stream_read clock s1 decoder_new = Some (h, d, s2)"
    using read_hello_returns by blast
  have [simp]: "plain_reader s2 k2 peer \<noteq> None" for k2 peer using plain_reader_returns [of s2 k2 peer] by auto
  from w h have "plain_session cc s k me \<noteq> None"
    by (cases r; cases h) (simp_all add: plain_session_def Let_def split: prod.split option.split)
  then show ?thesis by auto
qed

lemma ws_session_returns: "\<exists>k' s'. ws_session s first k me deadline = Some (k', s')"
proof (cases "\<exists>w s1. accept_upgrade s first deadline = (Inr (Some w), s1)")
  case True
  then obtain w s1 where w: "accept_upgrade s first deadline = (Inr (Some w), s1)" by blast
  obtain r w1 where w1: "write_frame ws_write_all w (hello me) = (r, w1)" by fastforce
  obtain h d w2 where "ws_read_hello ws_read ws_now w1 decoder_new deadline = Some (h, d, w2)"
    using ws.ws_read_hello_returns by blast
  with w w1 show ?thesis
    by (cases r; cases h) (auto simp: ws_session_def split: prod.split option.split)
qed (auto simp: ws_session_def split: prod.split sum.split option.split)

lemma plain_or_ws_session_returns: "\<exists>k' s' w. plain_or_ws_session cc s k me sniff = Some (k', s', w)"
proof -
  obtain b s1 where "peek_first_byte s (clock s + HEARTBEAT_TIMEOUT) = (b, s1)" by fastforce
  moreover obtain k1 s2 where "ws_session s1 None k me (clock s + HEARTBEAT_TIMEOUT) = Some (k1, s2)"
    using ws_session_returns by blast
  ultimately show ?thesis
    using plain_session_returns by (cases b) (auto simp: plain_or_ws_session_def Let_def)
qed

lemma plain_or_ws_session_logs: "plain_or_ws_session cc s k me sniff = Some (k', s', w) \<Longrightarrow> logs k k'"
  by (auto simp: plain_or_ws_session_def Let_def intro: plain_session_logs ws_session_logs
      split: if_splits prod.splits option.splits)

lemma wrapped_session_logs: "wrapped_session te ce w k me sniff = Some k' \<Longrightarrow> logs k k'"
  by (auto simp: wrapped_session_def intro: plain_or_ws_session_logs tls_session_logs
      split: wrap.splits option.splits)

lemma handle_connection_logs: "handle_connection te ce w k me reg sniff = Some (k', reg') \<Longrightarrow> logs k k'"
  by (auto simp: handle_connection_def intro: wrapped_session_logs split: if_splits prod.splits)

lemma handle_plain_returns: "\<exists>k' reg'. handle_connection te ce WrapPlain k me reg sniff = Some (k', reg')"
  using plain_or_ws_session_returns [of "ce_split ce" "ce_raw ce" k me sniff]
  by (auto simp: handle_connection_def wrapped_session_def split: prod.split)



section \<open>Accepting\<close>

definition fault_delay :: "listener \<Rightarrow> nat" where
  "fault_delay l = ACCEPT_POLL * length (filter (\<lambda>f. f \<noteq> None) (afaults l))"

text \<open>When a connection that arrives at \<open>a\<close> is accepted at the latest: at the next poll, plus the sleeps
  of failing calls.\<close>

definition accepted_by :: "nat \<Rightarrow> listener \<Rightarrow> nat \<Rightarrow> nat" where
  "accepted_by now l a = max (a + (ACCEPT_POLL - 1)) now + fault_delay l"

lemma listener_accept_cases:
  obtains (accepted) a ce rest where "backlog l = (a, ce) # rest" "a \<le> now"
      "listener_accept now l = (Inr ce, \<lparr>backlog = rest, afaults = tl (afaults l)\<rparr>)"
      "fault_delay \<lparr>backlog = rest, afaults = tl (afaults l)\<rparr> = fault_delay l"
  | (idle) e where "\<And>a ce rest. backlog l = (a, ce) # rest \<Longrightarrow> now < a"
      "listener_accept now l = (Inl e, \<lparr>backlog = backlog l, afaults = tl (afaults l)\<rparr>)"
      "fault_delay \<lparr>backlog = backlog l, afaults = tl (afaults l)\<rparr> = fault_delay l"
  | (fault) e where "listener_accept now l = (Inl e, \<lparr>backlog = backlog l, afaults = tl (afaults l)\<rparr>)"
      "fault_delay l = ACCEPT_POLL + fault_delay \<lparr>backlog = backlog l, afaults = tl (afaults l)\<rparr>"
proof (cases "\<exists>e fs. afaults l = Some e # fs")
  case True
  then show thesis by (cases l) (auto simp: listener_accept_def fault_delay_def intro: fault)
next
  case False
  then have keep: "fault_delay \<lparr>backlog = b, afaults = tl (afaults l)\<rparr> = fault_delay l" for b
    by (cases "afaults l") (auto simp: fault_delay_def)
  show thesis
  proof (cases "\<exists>a ce rest. backlog l = (a, ce) # rest \<and> a \<le> now")
    case True
    with False keep show thesis
      by (cases l) (auto simp: listener_accept_def Let_def split: list.splits option.splits intro: accepted)
  next
    case late: False
    with False have "listener_accept now l = (Inl WouldBlock, \<lparr>backlog = backlog l, afaults = tl (afaults l)\<rparr>)"
      by (cases l) (auto simp: listener_accept_def Let_def split: list.split option.split)
    moreover have "now < a" if "backlog l = (a, ce) # rest" for a ce rest using late that by (meson not_le)
    ultimately show thesis using keep by (intro idle [of WouldBlock]) auto
  qed
qed

text \<open>What the loop does from now on: it stops at the first poll after \<open>t\<close>, has spawned a handler for an
  initial part of the connections, each in time, and left out only those that came too late.\<close>

definition serves :: "nat \<Rightarrow> nat \<Rightarrow> listener \<Rightarrow> (nat \<times> conn_env) list \<Rightarrow> nat \<Rightarrow> bool" where
  "serves t now l hs T \<longleftrightarrow> t \<le> T \<and> T \<le> max now (t + (ACCEPT_POLL - 1)) \<and> length hs \<le> length (backlog l) \<and>
    list_all2 (\<lambda>(a, ce) (s, ce'). ce' = ce \<and> a \<le> s \<and> now \<le> s \<and> s < t \<and> s \<le> accepted_by now l a)
      (take (length hs) (backlog l)) hs \<and>
    (\<forall>(a, ce) \<in> set (drop (length hs) (backlog l)). t \<le> accepted_by now l a)"

lemma serves_later:
  assumes "serves t (now + ACCEPT_POLL) l' hs T" and "backlog l' = backlog l" and "now < t"
    and le: "\<And>a ce. (a, ce) \<in> set (backlog l) \<Longrightarrow> accepted_by (now + ACCEPT_POLL) l' a \<le> accepted_by now l a"
  shows "serves t now l hs T"
proof -
  have "list_all2 (\<lambda>(a, ce) (s, ce'). ce' = ce \<and> a \<le> s \<and> now \<le> s \<and> s < t \<and> s \<le> accepted_by now l a)
      (take (length hs) (backlog l)) hs"
    using assms(1) [unfolded serves_def assms(2)]
    by (elim conjE list.rel_mono_strong)
      (auto dest!: in_set_takeD dest: le split: prod.splits intro: order_trans)
  moreover have "\<forall>(a, ce) \<in> set (drop (length hs) (backlog l)). t \<le> accepted_by now l a"
    using assms(1) [unfolded serves_def assms(2)] by (auto dest!: bspec dest: in_set_dropD le intro: order_trans)
  ultimately show ?thesis using assms(1-3) by (auto simp: serves_def ACCEPT_POLL_def)
qed

lemma serves_next:
  assumes "serves t now l' hs T" and "backlog l = (a, ce) # backlog l'" and "a \<le> now" and "now < t"
    and "fault_delay l' = fault_delay l"
  shows "serves t now l ((now, ce) # hs) T"
  using assms by (auto simp: serves_def accepted_by_def)

lemma accept_connections_serves:
  assumes "sorted (map fst (backlog l))"
  shows "\<exists>hs T. accept_connections (Some t) l now acc = Some (acc @ hs, T) \<and> serves t now l hs T"
  using assms
proof (induction "length (backlog l) + (t - now)" arbitrary: l now acc rule: less_induct)
  case less
  have poll: "ACCEPT_POLL = 50" by (simp add: ACCEPT_POLL_def)
  show ?case
  proof (cases "t \<le> now")
    case True
    then show ?thesis
      by (subst accept_connections.simps) (auto simp: serves_def accepted_by_def max_def)
  next
    case False
    let ?l = "\<lambda>b. \<lparr>backlog = b, afaults = tl (afaults l)\<rparr>"
    have sleep: ?thesis if e: "listener_accept now l = (Inl e, ?l (backlog l))"
      and le: "\<And>a ce. (a, ce) \<in> set (backlog l) \<Longrightarrow>
        accepted_by (now + ACCEPT_POLL) (?l (backlog l)) a \<le> accepted_by now l a" for e
    proof -
      have "length (backlog (?l (backlog l))) + (t - (now + ACCEPT_POLL)) < length (backlog l) + (t - now)"
        using False poll by simp
      from less.hyps [OF this] less.prems obtain hs T where
        "accept_connections (Some t) (?l (backlog l)) (now + ACCEPT_POLL) acc = Some (acc @ hs, T)"
        "serves t (now + ACCEPT_POLL) (?l (backlog l)) hs T" by fastforce
      moreover from this(2) have "serves t now l hs T" by (rule serves_later) (use le False in auto)
      ultimately show ?thesis using False e by (subst accept_connections.simps) auto
    qed
    from listener_accept_cases [of l now] show ?thesis
    proof cases
      case (accepted a ce rest)
      have "length (backlog (?l rest)) + (t - now) < length (backlog l) + (t - now)" using accepted(1) by simp
      from less.hyps [OF this, of "acc @ [(now, ce)]"] less.prems accepted(1) obtain hs T where
        "accept_connections (Some t) (?l rest) now (acc @ [(now, ce)]) = Some ((acc @ [(now, ce)]) @ hs, T)"
        "serves t now (?l rest) hs T" by fastforce
      moreover from this(2) have "serves t now l ((now, ce) # hs) T"
        by (rule serves_next) (use accepted False in auto)
      ultimately show ?thesis using False accepted(3) by (subst accept_connections.simps) auto
    next
      case (idle e)
      have later: "now < a" if "(a, ce) \<in> set (backlog l)" for a ce
        using idle(1) less.prems that by (cases "backlog l") fastforce+
      show ?thesis by (rule sleep [OF idle(2)]) (use later idle(3) in \<open>force simp: accepted_by_def poll\<close>)
    next
      case (fault e)
      then show ?thesis by (intro sleep) (auto simp: accepted_by_def poll)
    qed
  qed
qed



definition demo_conn :: conn_env where
  "demo_conn = \<lparr>ce_sock = 7, ce_raw = \<lparr>inbound = [(5, Arrive [0x50])], outbound = [], wfaults = [], ffaults = [],
     clock = 0\<rparr>, ce_clone = True, ce_split = True, ce_halves = (True, True), ce_sched = (\<lambda>_. ([], [])),
     ce_during = id\<rparr>"

definition demo_link :: "bool option \<Rightarrow> broker_link" where
  "demo_link r = \<lparr>sent = [], room = None, answer = r, feed_rx = \<lparr>queue = [], hangup = 30000\<rparr>, fresh = 0\<rparr>"

definition demo_env :: "(unit, unit, unit, null_conn) tls_env" where
  "demo_env = \<lparr>server_connection = (\<lambda>_. None), client_connection = (\<lambda>_ _. None), connection_ops = null_ops,
     stream_owned = (\<lambda>_ s. s), stream_parts = null_reclaim\<rparr>"




section \<open>Reconnecting\<close>

definition spent :: "attempt \<Rightarrow> nat" where
  "spent a = at_took a + (case at_conn a of None \<Rightarrow> 0 | Some _ \<Rightarrow> at_lasts a)"

text \<open>The timing of the attempts: \<open>ts\<close> are their starting times, all before shutdown at \<open>t\<close>, the next one
  after the delay, and \<open>T\<close> is the time at which the loop ends.\<close>

fun retries :: "nat \<Rightarrow> (nat \<Rightarrow> nat) \<Rightarrow> (nat \<Rightarrow> attempt) \<Rightarrow> nat \<Rightarrow> nat \<Rightarrow> nat list \<Rightarrow> nat \<Rightarrow> bool" where
  "retries t delay attempts i now [] T \<longleftrightarrow> t \<le> now \<and> T = now"
| "retries t delay attempts i now (s # ts) T \<longleftrightarrow> s = now \<and> now < t \<and>
     (let e = now + spent (attempts i)
      in if t \<le> e then ts = [] \<and> T = e
         else \<exists>next. e < next \<and> next < e + delay i + 20 \<and> next \<le> t + 19 \<and> (next < t \<longrightarrow> e + delay i \<le> next) \<and>
           retries t delay attempts (Suc i) next ts T)"

text \<open>The sessions of successive attempts use channels of their own.\<close>

fun sessions :: "chan \<Rightarrow> command list list \<Rightarrow> bool" where
  "sessions c [] \<longleftrightarrow> True"
| "sessions c (log # ls) \<longleftrightarrow> session_log c log \<and>
     (\<exists>c'. c \<le> c' \<and> (log \<noteq> [] \<longrightarrow> c' = c + 2) \<and> sessions c' ls)"

lemma run_attempt_plain:
  obtains k' reg' where "run_attempt te ConnectPlain me a k reg now = Some (k', reg', now + spent a)" and "logs k k'"
proof (cases "at_conn a")
  case None
  with that show thesis by (simp add: run_attempt_def spent_def)
next
  case (Some ce)
  let ?k = "k\<lparr>answer := at_answer a, feed_rx := at_feed a\<rparr>"
  obtain k' reg' where h: "handle_connection te ce WrapPlain ?k me reg False = Some (k', reg')"
    using handle_plain_returns by blast
  have "logs k k'" using handle_connection_logs [OF h] by (simp add: logs_def)
  with h Some that show thesis by (simp add: run_attempt_def spent_def add.assoc)
qed

lemma connect_loop_retries_from:
  assumes "\<And>i. 0 < delay i"
  shows "\<exists>k' reg' T ts ls. connect_loop te (Some t) ConnectPlain me delay attempts i k reg now =
      Some (i + length ts, k', reg', T) \<and> retries t delay attempts i now ts T \<and>
    length ls = length ts \<and> sent k' = sent k @ concat ls \<and> sessions (fresh k) ls"
proof (induction "t - now" arbitrary: i k reg now rule: less_induct)
  case less
  show ?case
  proof (cases "t \<le> now")
    case True
    then show ?thesis by (subst connect_loop.simps) (auto intro!: exI [of _ "[]"])
  next
    case False
    let ?e = "now + spent (attempts i)" and ?next = "sleep_with_shutdown (Some t) (delay i)"
    obtain k1 reg1 where a: "run_attempt te ConnectPlain me (attempts i) k reg now = Some (k1, reg1, ?e)"
      and "logs k k1" by (rule run_attempt_plain)
    then obtain log where log: "sent k1 = sent k @ log" "session_log (fresh k) log" "fresh k \<le> fresh k1"
        "log \<noteq> [] \<longrightarrow> fresh k1 = fresh k + 2" by (auto simp: logs_def)
    show ?thesis
    proof (cases "t \<le> ?e")
      case True
      have "sessions (fresh k) [log]" using log by auto
      moreover have "connect_loop te (Some t) ConnectPlain me delay attempts i k reg now = Some (i + 1, k1, reg1, ?e)"
        using True False a by (subst connect_loop.simps) simp
      ultimately show ?thesis using True False log(1)
        by (intro exI [of _ k1] exI [of _ reg1] exI [of _ ?e] exI [of _ "[now]"] exI [of _ "[log]"])
          (simp del: sessions.simps)
    next
      case early: False
      let ?n = "?next ?e ?e"
      have n: "?e < ?n" using assms early by (intro sleep_progress) auto
      with early have "t - ?n < t - now" by simp
      from less [OF this, of "Suc i" k1 reg1] obtain k' reg' T ts ls where IH:
        "connect_loop te (Some t) ConnectPlain me delay attempts (Suc i) k1 reg1 ?n = Some (Suc i + length ts, k', reg', T)"
        "retries t delay attempts (Suc i) ?n ts T" "length ls = length ts" "sent k' = sent k1 @ concat ls"
        "sessions (fresh k1) ls" by blast
      have "retries t delay attempts i now (now # ts) T"
        using IH(2) n False early sleep_with_shutdown_bounds [OF refl, of ?e ?e "delay i" "Some t"]
        by (auto simp: Let_def intro!: exI [of _ ?n])
      moreover have "connect_loop te (Some t) ConnectPlain me delay attempts i k reg now =
          Some (i + length (now # ts), k', reg', T)"
        using False early a IH(1) by (subst connect_loop.simps) simp
      moreover have "sent k' = sent k @ concat (log # ls)" "sessions (fresh k) (log # ls)"
        using IH(4,5) log by auto
      ultimately show ?thesis using IH(3) by (metis length_Cons)
    qed
  qed
qed


lemma retries_end: "retries t delay attempts i now ts T \<Longrightarrow> now \<le> t + 19 \<Longrightarrow>
    t \<le> T \<and> (T \<le> t + 19 \<or> ts \<noteq> [] \<and> T = last ts + spent (attempts (i + length ts - 1))) \<and> list_all (\<lambda>s. s < t) ts"
proof (induction ts arbitrary: i now)
  case (Cons s ts)
  show ?case
  proof (cases "t \<le> now + spent (attempts i)")
    case False
    with Cons.prems(1) obtain nx where "nx \<le> t + 19" "retries t delay attempts (Suc i) nx ts T"
      by (auto simp: Let_def)
    from Cons.IH [OF this(2,1)] Cons.prems(1) show ?thesis by (cases ts) auto
  qed (use Cons.prems in \<open>auto simp: Let_def\<close>)
qed simp

text \<open>C21. The connect loop reconnects for the life of the socket and ends with it: for any outcomes of its
  attempts it makes one attempt after the other, each followed by a pause of the reconnection delay
  rounded up by less than a tick, until shutdown; it starts no attempt after that and ends within a
  tick, or with the attempt or session that was under way; and the broker sees one well-formed
  session per attempt, in order, each on channels of its own.\<close>

theorem connect_loop_retries:
  assumes "\<And>i. 0 < delay i" and "now \<le> t"
  shows "\<exists>k' reg' T ts ls. connect_loop te (Some t) ConnectPlain me delay attempts 0 k reg now =
      Some (length ts, k', reg', T) \<and> retries t delay attempts 0 now ts T \<and> list_all (\<lambda>s. s < t) ts \<and>
    t \<le> T \<and> (T < t + 20 \<or> ts \<noteq> [] \<and> T = last ts + spent (attempts (length ts - 1))) \<and>
    length ls = length ts \<and> sent k' = sent k @ concat ls \<and> sessions (fresh k) ls"
proof -
  obtain k' reg' T ts ls where "connect_loop te (Some t) ConnectPlain me delay attempts 0 k reg now =
      Some (length ts, k', reg', T)" and r: "retries t delay attempts 0 now ts T"
    "length ls = length ts" "sent k' = sent k @ concat ls" "sessions (fresh k) ls"
    using connect_loop_retries_from [where delay = delay and i = 0] assms(1) by (metis add_0)
  then show ?thesis using retries_end [OF r(1)] assms(2)
    by (intro exI [of _ k'] exI [of _ reg'] exI [of _ T] exI [of _ ts] exI [of _ ls]) auto
qed

theorem connect_loop_retries_witness:
  "\<exists>n k' reg' T. connect_loop demo_env (Some 250) ConnectPlain (replicate 16 5) (\<lambda>_. 100)
      (\<lambda>i. \<lparr>at_took = 3, at_conn = (if i = 1 then Some demo_conn else None), at_answer = None,
            at_feed = \<lparr>queue = [], hangup = 0\<rparr>, at_lasts = 4\<rparr>) 0 (demo_link None) registry_new 0 =
      Some (n, k', reg', T) \<and> 250 \<le> T"
proof -
  let ?a = "\<lambda>i :: nat. \<lparr>at_took = 3, at_conn = (if i = 1 then Some demo_conn else None), at_answer = None,
            at_feed = \<lparr>queue = [], hangup = 0\<rparr>, at_lasts = 4\<rparr>"
  show ?thesis
    using connect_loop_retries [of "\<lambda>_. 100" 0 250 demo_env "replicate 16 5" ?a "demo_link None" registry_new] by auto
qed

end
