(* ===== verification/Socket.thy ===== *)
theory Socket
  imports Conn_Loops
begin

text \<open>
  The public API of the synchronous crate (\<open>rust-lib-sync/src/lib.rs\<close>): the builder, the socket and
  its operations.

  The record \<open>inner\<close> has the fields of the Rust struct.  Of the command channel it holds the
  commands that were sent and not yet taken by the broker, and of the broker's thread its state
  and whether it still runs.  The receiving side is a record of its own, \<open>recv_rx\<close>: the messages
  that the broker will send with their times, the time at which it drops its sender, if it does,
  and the time from which the mutex around the receiver is free.

  The operating system's answers to binding and to resolving an address are arguments, and so are
  the random UUIDs and the parser of server names of \<open>rustls\<close>.
\<close>

datatype error = Io error_kind | Closed | BadAddress | InvalidServerName

type_synonym 'a result = "error + 'a"


section \<open>The builder\<close>

record socket_builder =
  sb_send_mode :: SendMode
  sb_delivery :: DeliveryGuarantee
  sb_identity :: "identity option"
  sb_reconnect_delay :: "nat \<Rightarrow> nat"   \<comment> \<open>what the \<open>i\<close>-th call of the closure returns, in milliseconds\<close>

definition builder :: socket_builder where
  "builder = \<lparr>sb_send_mode = RoundRobin, sb_delivery = AtMostOnce, sb_identity = None,
     sb_reconnect_delay = (\<lambda>_. 100)\<rparr>"

definition set_send_mode :: "SendMode \<Rightarrow> socket_builder \<Rightarrow> socket_builder" where
  "set_send_mode mode b = b\<lparr>sb_send_mode := mode\<rparr>"

definition set_delivery_guarantee :: "DeliveryGuarantee \<Rightarrow> socket_builder \<Rightarrow> socket_builder" where
  "set_delivery_guarantee guarantee b = b\<lparr>sb_delivery := guarantee\<rparr>"

definition set_identity :: "identity \<Rightarrow> socket_builder \<Rightarrow> socket_builder" where
  "set_identity i b = b\<lparr>sb_identity := Some i\<rparr>"

definition set_reconnect_delay :: "(nat \<Rightarrow> nat) \<Rightarrow> socket_builder \<Rightarrow> socket_builder" where
  "set_reconnect_delay f b = b\<lparr>sb_reconnect_delay := f\<rparr>"

text \<open>The threads of a socket besides the broker.\<close>

datatype ('srv, 'cli, 'name, 'addr) thread =
    AcceptLoop 'addr "'srv acceptor"
  | ConnectLoop 'addr "('cli, 'name) connector"

record ('srv, 'cli, 'name, 'addr) inner =
  in_identity :: identity
  in_reconnect_delay :: "nat \<Rightarrow> nat"
  in_cmds :: "command list"
  in_broker :: broker
  in_running :: bool          \<comment> \<open>the broker's thread has not ended\<close>
  in_shutdown :: bool
  in_registry :: registry
  in_threads :: "('srv, 'cli, 'name, 'addr) thread list"
  in_joinable :: bool         \<comment> \<open>\<open>broker_thread\<close> still holds the handle\<close>
  in_closed :: bool

definition build :: "identity \<Rightarrow> bytes \<Rightarrow> socket_builder \<Rightarrow> ('srv, 'cli, 'name, 'addr) inner" where
  "build fresh_id uuid b =
     \<lparr>in_identity = (case sb_identity b of Some i \<Rightarrow> i | None \<Rightarrow> fresh_id),
      in_reconnect_delay = sb_reconnect_delay b, in_cmds = [],
      in_broker = broker_new (sb_send_mode b) (sb_delivery b) uuid, in_running = True,
      in_shutdown = False, in_registry = registry_new, in_threads = [], in_joinable = True, in_closed = False\<rparr>"

definition socket_new :: "identity \<Rightarrow> bytes \<Rightarrow> ('srv, 'cli, 'name, 'addr) inner" where
  "socket_new fresh_id uuid = build fresh_id uuid builder"

definition sock_identity :: "('srv, 'cli, 'name, 'addr) inner \<Rightarrow> identity" where
  "sock_identity s = in_identity s"


section \<open>Binding and connecting\<close>

definition bind_with :: "'addr io_result \<Rightarrow> 'addr io_result \<Rightarrow> 'srv acceptor \<Rightarrow>
    ('srv, 'cli, 'name, 'addr) inner \<Rightarrow> 'addr result \<times> ('srv, 'cli, 'name, 'addr) inner" where
  "bind_with listening local_addr a s =
     (case listening of
        Inl e \<Rightarrow> (Inl (Io e), s)
      | Inr addr \<Rightarrow>
          (case local_addr of
             Inl e \<Rightarrow> (Inl (Io e), s)
           | Inr l \<Rightarrow> (Inr l, s\<lparr>in_threads := in_threads s @ [AcceptLoop addr a]\<rparr>)))"

definition bind :: "'addr io_result \<Rightarrow> 'addr io_result \<Rightarrow>
    ('srv, 'cli, 'name, 'addr) inner \<Rightarrow> 'addr result \<times> ('srv, 'cli, 'name, 'addr) inner" where
  "bind listening local_addr = bind_with listening local_addr AcceptPlain"

definition bind_tls :: "'addr io_result \<Rightarrow> 'addr io_result \<Rightarrow> 'srv \<Rightarrow>
    ('srv, 'cli, 'name, 'addr) inner \<Rightarrow> 'addr result \<times> ('srv, 'cli, 'name, 'addr) inner" where
  "bind_tls listening local_addr cfg = bind_with listening local_addr (AcceptTls cfg)"

definition connect_with :: "'addr list io_result \<Rightarrow> ('cli, 'name) connector \<Rightarrow>
    ('srv, 'cli, 'name, 'addr) inner \<Rightarrow> unit result \<times> ('srv, 'cli, 'name, 'addr) inner" where
  "connect_with addrs c s =
     (if in_closed s then (Inl Closed, s)
      else case addrs of
             Inl e \<Rightarrow> (Inl (Io e), s)
           | Inr [] \<Rightarrow> (Inl BadAddress, s)
           | Inr (resolved # _) \<Rightarrow> (Inr (), s\<lparr>in_threads := in_threads s @ [ConnectLoop resolved c]\<rparr>))"

definition connect :: "'addr list io_result \<Rightarrow>
    ('srv, 'cli, 'name, 'addr) inner \<Rightarrow> unit result \<times> ('srv, 'cli, 'name, 'addr) inner" where
  "connect addrs = connect_with addrs ConnectPlain"

definition connect_tls :: "(string \<Rightarrow> 'name option) \<Rightarrow> 'addr list io_result \<Rightarrow> string \<Rightarrow> 'cli \<Rightarrow>
    ('srv, 'cli, 'name, 'addr) inner \<Rightarrow> unit result \<times> ('srv, 'cli, 'name, 'addr) inner" where
  "connect_tls parse_name addrs server_name cfg s =
     (case parse_name server_name of
        None \<Rightarrow> (Inl InvalidServerName, s)
      | Some name \<Rightarrow> connect_with addrs (ConnectTls cfg name) s)"


section \<open>Sending\<close>

definition sock_command :: "command \<Rightarrow> ('srv, 'cli, 'name, 'addr) inner \<Rightarrow> bool \<times> ('srv, 'cli, 'name, 'addr) inner" where
  "sock_command c s = (if in_running s then (True, s\<lparr>in_cmds := in_cmds s @ [c]\<rparr>) else (False, s))"

definition dispatch :: "identity option \<Rightarrow> bytes \<Rightarrow>
    ('srv, 'cli, 'name, 'addr) inner \<Rightarrow> unit result \<times> ('srv, 'cli, 'name, 'addr) inner" where
  "dispatch target p s =
     (case sock_command (Send target p) s of (ok, s') \<Rightarrow> (if ok then Inr () else Inl Closed, s'))"

definition send :: "bytes \<Rightarrow> ('srv, 'cli, 'name, 'addr) inner \<Rightarrow> unit result \<times> ('srv, 'cli, 'name, 'addr) inner" where
  "send p = dispatch None p"

definition send_to :: "identity \<Rightarrow> bytes \<Rightarrow> ('srv, 'cli, 'name, 'addr) inner \<Rightarrow> unit result \<times> ('srv, 'cli, 'name, 'addr) inner" where
  "send_to i p = dispatch (Some i) p"

text \<open>The broker's thread takes the next command; at \<open>Close\<close> it ends, and the channel goes with it.\<close>

definition broker_turn :: "('srv, 'cli, 'name, 'addr) inner \<Rightarrow> ('srv, 'cli, 'name, 'addr) inner" where
  "broker_turn s =
     (if \<not> in_running s then s
      else case in_cmds s of
             [] \<Rightarrow> s
           | c # cs \<Rightarrow>
               if c = Close
               then s\<lparr>in_running := False, in_cmds := [],
                      in_broker := (in_broker s)\<lparr>timer_tx := timers_drop (timer_tx (in_broker s))\<rparr>\<rparr>
               else s\<lparr>in_cmds := cs, in_broker := handle_command c (in_broker s)\<rparr>)"


section \<open>Closing\<close>

text \<open>The steps of \<open>close\<close> in their order; the last one takes the handles that are joined then.\<close>

definition close_swap :: "('srv, 'cli, 'name, 'addr) inner \<Rightarrow> bool \<times> ('srv, 'cli, 'name, 'addr) inner" where
  "close_swap s = (in_closed s, s\<lparr>in_closed := True\<rparr>)"

definition close_flag :: "('srv, 'cli, 'name, 'addr) inner \<Rightarrow> ('srv, 'cli, 'name, 'addr) inner" where
  "close_flag s = s\<lparr>in_shutdown := True\<rparr>"

definition close_send :: "('srv, 'cli, 'name, 'addr) inner \<Rightarrow> ('srv, 'cli, 'name, 'addr) inner" where
  "close_send s = snd (sock_command Close s)"

definition close_sockets :: "('srv, 'cli, 'name, 'addr) inner \<Rightarrow> chan list" where
  "close_sockets s = reg_shutdown_all (in_registry s)"

definition close_take :: "('srv, 'cli, 'name, 'addr) inner \<Rightarrow>
    ('srv, 'cli, 'name, 'addr) thread list \<times> ('srv, 'cli, 'name, 'addr) inner" where
  "close_take s = (in_threads s, s\<lparr>in_threads := [], in_joinable := False\<rparr>)"

text \<open>
  A whole call.  While it waits for the threads they go on: \<open>late\<close> are the commands that they still
  send, behind the \<open>Close\<close>, and \<open>leave\<close> is what they do to the registry as they end; joining the
  broker's thread means that the broker runs until it takes the \<open>Close\<close>.  The result has the
  sockets that were shut down and the threads that were joined.
\<close>

definition close :: "command list \<Rightarrow> (registry \<Rightarrow> registry) \<Rightarrow> ('srv, 'cli, 'name, 'addr) inner \<Rightarrow>
    (chan list \<times> ('srv, 'cli, 'name, 'addr) thread list) \<times> ('srv, 'cli, 'name, 'addr) inner" where
  "close late leave s =
     (case close_swap s of (was_closed, s1) \<Rightarrow>
        if was_closed then (([], []), s1)
        else
          let s2 = close_send (close_flag s1);
              socks = close_sockets s2;
              (threads, s3) = close_take s2;
              s4 = s3\<lparr>in_registry := leave (in_registry s3)\<rparr>
          in ((socks, threads),
              if in_running s4
              then s4\<lparr>in_broker := run (in_cmds s4 @ late) (in_broker s4), in_cmds := [], in_running := False\<rparr>
              else s4))"


section \<open>Receiving\<close>

record recv_rx =
  rx_items :: "(nat \<times> identity \<times> bytes) list"
  rx_gone :: "nat option"
  rx_free :: nat

text \<open>\<open>Receiver::recv\<close> behind the mutex: the lock is taken when it is free, and held while waiting.
  \<^term>\<open>None\<close> means that the call waits for ever.\<close>

definition recv_identity :: "nat \<Rightarrow> recv_rx \<Rightarrow> ((identity \<times> bytes) option \<times> nat \<times> recv_rx) option" where
  "recv_identity now r =
     (let start = max now (rx_free r)
      in case rx_items r of
           (t, m) # rest \<Rightarrow> Some (Some m, max start t, r\<lparr>rx_items := rest, rx_free := max start t\<rparr>)
         | [] \<Rightarrow>
             (case rx_gone r of
                None \<Rightarrow> None
              | Some g \<Rightarrow> Some (None, max start g, r\<lparr>rx_free := max start g\<rparr>)))"

definition recv :: "nat \<Rightarrow> recv_rx \<Rightarrow> (bytes option \<times> nat \<times> recv_rx) option" where
  "recv now r = map_option (\<lambda>(m, t, r'). (map_option snd m, t, r')) (recv_identity now r)"

definition recv_within :: "nat \<Rightarrow> nat \<Rightarrow> recv_rx \<Rightarrow> bytes option \<times> nat \<times> recv_rx" where
  "recv_within timeout now r =
     (let start = max now (rx_free r); limit = start + timeout
      in case rx_items r of
           (t, (_, p)) # rest \<Rightarrow>
             if t \<le> limit then (Some p, max start t, r\<lparr>rx_items := rest, rx_free := max start t\<rparr>)
             else (None, limit, r\<lparr>rx_free := limit\<rparr>)
         | [] \<Rightarrow>
             let t = (case rx_gone r of None \<Rightarrow> limit | Some g \<Rightarrow> min limit (max start g))
             in (None, t, r\<lparr>rx_free := t\<rparr>))"

text \<open>The iterators call \<open>recv\<close> until it returns nothing; \<open>got\<close> is what they yielded so far.\<close>

partial_function (option) identity_messages :: "nat \<Rightarrow> recv_rx \<Rightarrow> (identity \<times> bytes) list \<Rightarrow>
    ((identity \<times> bytes) list \<times> nat) option" where
  "identity_messages now r got =
     (case recv_identity now r of
        None \<Rightarrow> None
      | Some (None, t, r') \<Rightarrow> Some (got, t)
      | Some (Some m, t, r') \<Rightarrow> identity_messages t r' (got @ [m]))"

partial_function (option) messages :: "nat \<Rightarrow> recv_rx \<Rightarrow> bytes list \<Rightarrow> (bytes list \<times> nat) option" where
  "messages now r got =
     (case recv now r of
        None \<Rightarrow> None
      | Some (None, t, r') \<Rightarrow> Some (got, t)
      | Some (Some p, t, r') \<Rightarrow> messages t r' (got @ [p]))"


section \<open>The messages come out in order and end with the socket\<close>

lemma identity_messages_all:
  assumes "rx_gone r = Some g" and "list_all (\<lambda>(t, _). t \<le> g) (rx_items r)"
  shows "identity_messages now r got = Some (got @ map snd (rx_items r), max g (max now (rx_free r)))"
  using assms
proof (induction "rx_items r" arbitrary: r now got)
  case Nil
  then show ?case by (subst identity_messages.simps) (simp add: recv_identity_def Let_def max.commute)
next
  case (Cons x xs)
  obtain t m where x: "x = (t, m)" by (rule prod.exhaust)
  let ?t = "max (max now (rx_free r)) t"
  let ?r = "r\<lparr>rx_items := xs, rx_free := ?t\<rparr>"
  have "identity_messages ?t ?r (got @ [m]) = Some ((got @ [m]) @ map snd xs, max g (max ?t ?t))"
    using Cons.hyps(1) [of ?r ?t "got @ [m]"] Cons.hyps(2) [symmetric] Cons.prems by simp
  moreover have "t \<le> g" using Cons.prems(2) Cons.hyps(2) [symmetric] x by simp
  ultimately show ?case
    using Cons.hyps(2) [symmetric] x
    by (subst identity_messages.simps) (simp add: recv_identity_def Let_def max_def)
qed

lemma messages_identity:
  "messages now r (map snd got) = map_option (\<lambda>(ms, t). (map snd ms, t)) (identity_messages now r got)"
proof (induction "rx_items r" arbitrary: r now got)
  case Nil
  then show ?case
    by (subst messages.simps, subst identity_messages.simps)
      (simp add: recv_def recv_identity_def Let_def split: option.split)
next
  case (Cons x xs)
  obtain t m where x: "x = (t, m)" by (rule prod.exhaust)
  let ?t = "max (max now (rx_free r)) t"
  have "messages ?t (r\<lparr>rx_items := xs, rx_free := ?t\<rparr>) (map snd (got @ [m])) = map_option (\<lambda>(ms, t). (map snd ms, t))
      (identity_messages ?t (r\<lparr>rx_items := xs, rx_free := ?t\<rparr>) (got @ [m]))"
    by (rule Cons.hyps(1)) simp
  then show ?case
    using Cons.hyps(2) [symmetric] x
    by (subst messages.simps, subst identity_messages.simps) (simp add: recv_def recv_identity_def Let_def)
qed


text \<open>The receiving side: once the broker drops its sender, the blocking iterators yield exactly the
  messages that it sent, with their senders and in their order, and then end; none is lost when
  the socket closes before it is read.\<close>

theorem messages_complete:
  assumes "rx_gone r = Some g" and "list_all (\<lambda>(t, _). t \<le> g) (rx_items r)"
  shows "identity_messages now r [] = Some (map snd (rx_items r), max g (max now (rx_free r))) \<and>
    messages now r [] = Some (map (snd \<circ> snd) (rx_items r), max g (max now (rx_free r)))"
  using identity_messages_all [OF assms, of now "[]"] messages_identity [of now r "[]"] by simp

theorem messages_complete_witness:
  "messages 5 \<lparr>rx_items = [(3, replicate 16 1, [7]), (9, replicate 16 2, [8, 9])], rx_gone = Some 20, rx_free = 0\<rparr> [] =
    Some ([[7], [8, 9]], 20)"
  using messages_complete [of "\<lparr>rx_items = [(3, replicate 16 1, [7]), (9, replicate 16 2, [8, 9])],
      rx_gone = Some 20, rx_free = 0\<rparr>" 20 5]
  by simp

lemma recv_within_time:
  assumes "recv_within d now r = (x, t, r')"
  shows "max now (rx_free r) \<le> t \<and> t \<le> max now (rx_free r) + d"
proof (cases "rx_items r")
  case Nil
  with assms show ?thesis by (auto simp: recv_within_def Let_def split: option.splits)
next
  case (Cons y ys)
  obtain u i p where "y = (u, i, p)" by (cases y)
  with assms Cons show ?thesis by (auto simp: recv_within_def Let_def split: if_splits)
qed

lemma recv_identity_holds: "recv_identity now r = Some (m, t, r') \<Longrightarrow> rx_free r' = t"
  by (auto simp: recv_identity_def Let_def split: list.splits option.splits)

text \<open>\<open>recv_timeout\<close> keeps its timeout only when no other thread receives: with the mutex around the
  receiver free it returns within the timeout, but while another thread waits in \<open>recv\<close>, which holds
  the mutex until it returns, it waits for that one, however short the timeout.\<close>

theorem recv_timeout_waits_for_lock:
  assumes "recv_identity now r = Some (m, t1, r1)"
  shows "(let (x, t2, r2) = recv_within d now' r1 in t1 \<le> t2 \<and> t2 \<le> max now' t1 + d) \<and>
    (let (y, t3, r3) = recv_within d now' r in rx_free r \<le> now' \<longrightarrow> t3 \<le> now' + d)"
proof -
  obtain x t2 r2 y t3 r3 where w: "recv_within d now' r1 = (x, t2, r2)" "recv_within d now' r = (y, t3, r3)"
    by (cases "recv_within d now' r1"; cases "recv_within d now' r") auto
  with recv_within_time [OF w(1)] recv_within_time [OF w(2)] recv_identity_holds [OF assms] show ?thesis
    by (simp add: max_def split: if_splits)
qed

theorem recv_timeout_waits_for_lock_witness:
  "let r = \<lparr>rx_items = [(60000, replicate 16 1, [7])], rx_gone = None, rx_free = 0\<rparr> in
    case recv_identity 0 r of
      Some (_, t1, r1) \<Rightarrow> (let (x, t2, r2) = recv_within 10 5 r1 in 60000 \<le> t2) | None \<Rightarrow> False"
proof -
  let ?r = "\<lparr>rx_items = [(60000, replicate 16 1, [7])], rx_gone = None, rx_free = 0\<rparr>"
  have "recv_identity 0 ?r = Some (Some (replicate 16 1, [7]), 60000, ?r\<lparr>rx_items := [], rx_free := 60000\<rparr>)"
    by (simp add: recv_identity_def)
  from recv_timeout_waits_for_lock [OF this, of 10 5] this show ?thesis by (auto simp: Let_def)
qed


section \<open>A closed socket\<close>

lemma run_close: "Close \<notin> set cs \<Longrightarrow> run (cs @ Close # late) b =
    (let b' = fold handle_command cs b in b'\<lparr>timer_tx := timers_drop (timer_tx b')\<rparr>)"
  by (induction cs arbitrary: b) (auto simp: Let_def)

text \<open>C35. Closing a socket is graceful, final and idempotent.  Everything sent before the call is handled
  by the broker, in order, before it stops, and nothing after it; the call shuts down every registered
  socket and joins every thread.  Afterwards sending and connecting report that the socket is closed
  and change nothing, and a second call does nothing; only \<open>bind\<close> still succeeds.\<close>

theorem close_final:
  assumes "\<not> in_closed s" and "in_running s" and "Close \<notin> set (in_cmds s)" and "close late leave s = (out, s')"
  shows "out = (reg_shutdown_all (in_registry s), in_threads s) \<and> in_threads s' = [] \<and>
    in_broker s' = (let b = fold handle_command (in_cmds s) (in_broker s) in b\<lparr>timer_tx := timers_drop (timer_tx b)\<rparr>) \<and>
    send p s' = (Inl Closed, s') \<and> send_to i p s' = (Inl Closed, s') \<and> connect addrs s' = (Inl Closed, s') \<and>
    connect_tls parse addrs name cfg s' = (Inl (if parse name = None then InvalidServerName else Closed), s') \<and>
    close late' leave' s' = (([], []), s') \<and> fst (bind (Inr a) (Inr l) s') = Inr l"
  using assms
  by (auto simp: close_def close_swap_def close_flag_def close_send_def close_sockets_def close_take_def
      sock_command_def Let_def run_close send_def send_to_def dispatch_def connect_def connect_with_def
      connect_tls_def bind_def bind_with_def split: option.split)

theorem close_final_witness:
  "let s = snd (send [7] (build (replicate 16 1) (replicate 16 2) (set_send_mode Publish builder)));
       (out, s') = close [Send None [8]] id (s :: (unit, unit, unit, nat) inner)
   in buffer (in_broker s') = [(None, [7])] \<and> send [9] s' = (Inl Closed, s') \<and> close [] id s' = (([], []), s')"
proof -
  let ?s = "snd (send [7] (build (replicate 16 1) (replicate 16 2) (set_send_mode Publish builder))) :: (unit, unit, unit, nat) inner"
  obtain out s' where c: "close [Send None [8]] id ?s = (out, s')" by fastforce
  have s: "\<not> in_closed ?s" "in_running ?s" "in_cmds ?s = [Send None [7]]" "conns (in_broker ?s) = []" "buffer (in_broker ?s) = []"
    by (simp_all add: send_def dispatch_def sock_command_def build_def broker_new_def)
  then have "Close \<notin> set (in_cmds ?s)" by simp
  from close_final [OF s(1,2) this c, of "[9]"] s c show ?thesis
    by (auto simp: Let_def handle_command_def handle_send_def split: prod.splits)
qed

end
