(* ===== verification/Agent_Args.thy ===== *)
theory Agent_Args
  imports Socket
begin

text \<open>
  The command line of the conformance agents (\<open>conformance_agent.rs\<close> in the examples of both crates): the
  flags as a hash map, the configuration that an agent reads from it, and the parts of Rust's
  standard library for this: \<open>str\<close> as its UTF-8 bytes, slices of it at character boundaries,
  \<open>from_str_radix\<close> with its overflow check, and decimal formatting.

  The number of seconds of \<open>--linger\<close> is kept as text: floating point numbers are not modelled.
\<close>

section \<open>Text\<close>

definition is_char_boundary :: "bytes \<Rightarrow> nat \<Rightarrow> bool" where
  "is_char_boundary s i \<longleftrightarrow> i = 0 \<or> i = length s \<or> (i < length s \<and> \<not> is_cont (s ! i))"

text \<open>\<open>s.get(a..b)\<close>.\<close>

definition str_get :: "bytes \<Rightarrow> nat \<Rightarrow> nat \<Rightarrow> bytes option" where
  "str_get s a b =
     (if a \<le> b \<and> is_char_boundary s a \<and> is_char_boundary s b then Some (take (b - a) (drop a s)) else None)"

definition strip_prefix :: "bytes \<Rightarrow> bytes \<Rightarrow> bytes option" where
  "strip_prefix p s = (if take (length p) s = p then Some (drop (length p) s) else None)"

definition to_digit :: "nat \<Rightarrow> u8 \<Rightarrow> nat option" where
  "to_digit radix b =
     (let c = unat b;
          d = (if 48 \<le> c \<and> c \<le> 57 then c - 48
               else if 97 \<le> c \<and> c \<le> 122 then c - 87
               else if 65 \<le> c \<and> c \<le> 90 then c - 55
               else radix)
      in if d < radix then Some d else None)"

fun digits_value :: "nat \<Rightarrow> nat \<Rightarrow> nat \<Rightarrow> bytes \<Rightarrow> nat option" where
  "digits_value radix bits acc [] = Some acc"
| "digits_value radix bits acc (b # bs) =
     (case to_digit radix b of
        None \<Rightarrow> None
      | Some d \<Rightarrow> if acc * radix + d < 2 ^ bits then digits_value radix bits (acc * radix + d) bs else None)"

text \<open>The unsigned instances of \<open>from_str_radix\<close>; \<open>parse\<close> is the one with radix 10.\<close>

definition from_str_radix :: "nat \<Rightarrow> nat \<Rightarrow> bytes \<Rightarrow> nat option" where
  "from_str_radix radix bits s =
     (if s = [] \<or> s = ascii ''+'' \<or> s = ascii ''-'' then None
      else digits_value radix bits 0 (if take 1 s = ascii ''+'' then drop 1 s else s))"

fun decimal :: "nat \<Rightarrow> bytes" where
  "decimal n = (if n < 10 then [word_of_nat (48 + n)] else decimal (n div 10) @ [word_of_nat (48 + n mod 10)])"

declare decimal.simps [simp del]


section \<open>The flags\<close>

fun flags_into :: "(bytes, bytes) hmap \<Rightarrow> bytes list \<Rightarrow> (bytes, bytes) hmap" where
  "flags_into m [] = m"
| "flags_into m (key # it) =
     (case strip_prefix (ascii ''--'') key of
        None \<Rightarrow> flags_into m it
      | Some name \<Rightarrow>
          (case it of
             [] \<Rightarrow> m
           | v # it' \<Rightarrow> flags_into (hm_insert name v m) it'))"

text \<open>\<open>argv\<close> starts with the name of the program.\<close>

definition parse_args :: "bytes list \<Rightarrow> (bytes, bytes) hmap" where
  "parse_args argv = flags_into [] (drop 1 argv)"

definition arg :: "(bytes, bytes) hmap \<Rightarrow> string \<Rightarrow> bytes \<Rightarrow> bytes" where
  "arg args key dflt = (case hm_get args (ascii key) of Some v \<Rightarrow> v | None \<Rightarrow> dflt)"

definition parse_identity :: "bytes \<Rightarrow> identity" where
  "parse_identity hex =
     map (\<lambda>i. case str_get hex (i * 2) (i * 2 + 2) of
                Some byte \<Rightarrow> (case from_str_radix 16 8 byte of Some v \<Rightarrow> word_of_nat v | None \<Rightarrow> 0)
              | None \<Rightarrow> 0) [0..<16]"

record agent_config =
  ag_role :: bytes
  ag_host :: bytes
  ag_port :: u16
  ag_behavior :: bytes
  ag_count :: usize
  ag_prefix :: bytes
  ag_linger :: bytes
  ag_send_mode :: SendMode
  ag_delivery :: DeliveryGuarantee
  ag_identity :: "identity option"
  ag_tls :: bool

definition agent_config_of :: "(bytes, bytes) hmap \<Rightarrow> agent_config" where
  "agent_config_of args =
     \<lparr>ag_role = arg args ''role'' (ascii ''connect''),
      ag_host = arg args ''host'' (ascii ''127.0.0.1''),
      ag_port = (case from_str_radix 10 16 (arg args ''port'' (ascii ''25000'')) of Some n \<Rightarrow> word_of_nat n | None \<Rightarrow> 25000),
      ag_behavior = arg args ''behavior'' (ascii ''sink''),
      ag_count = (case from_str_radix 10 64 (arg args ''count'' (ascii ''10'')) of Some n \<Rightarrow> word_of_nat n | None \<Rightarrow> 10),
      ag_prefix = arg args ''prefix'' (ascii ''m''),
      ag_linger = arg args ''linger'' (ascii ''1.0''),
      ag_send_mode = (if arg args ''send-mode'' (ascii ''roundrobin'') = ascii ''publish'' then Publish else RoundRobin),
      ag_delivery = (if arg args ''delivery'' (ascii ''at-most-once'') = ascii ''at-least-once'' then AtLeastOnce else AtMostOnce),
      ag_identity = map_option parse_identity (hm_get args (ascii ''identity'')),
      ag_tls = (arg args ''tls'' (ascii ''false'') = ascii ''true'')\<rparr>"

text \<open>The asynchronous agent looks the flags up one by one.\<close>

definition a_agent_config_of :: "(bytes, bytes) hmap \<Rightarrow> agent_config" where
  "a_agent_config_of args =
     \<lparr>ag_role = (case hm_get args (ascii ''role'') of Some v \<Rightarrow> v | None \<Rightarrow> ascii ''connect''),
      ag_host = (case hm_get args (ascii ''host'') of Some v \<Rightarrow> v | None \<Rightarrow> ascii ''127.0.0.1''),
      ag_port = (case Option.bind (hm_get args (ascii ''port'')) (from_str_radix 10 16) of
                   Some n \<Rightarrow> word_of_nat n | None \<Rightarrow> 25000),
      ag_behavior = (case hm_get args (ascii ''behavior'') of Some v \<Rightarrow> v | None \<Rightarrow> ascii ''sink''),
      ag_count = (case Option.bind (hm_get args (ascii ''count'')) (from_str_radix 10 64) of
                    Some n \<Rightarrow> word_of_nat n | None \<Rightarrow> 10),
      ag_prefix = (case hm_get args (ascii ''prefix'') of Some v \<Rightarrow> v | None \<Rightarrow> ascii ''m''),
      ag_linger = (case hm_get args (ascii ''linger'') of Some v \<Rightarrow> v | None \<Rightarrow> ascii ''1.0''),
      ag_send_mode = (if hm_get args (ascii ''send-mode'') = Some (ascii ''publish'') then Publish else RoundRobin),
      ag_delivery = (if hm_get args (ascii ''delivery'') = Some (ascii ''at-least-once'') then AtLeastOnce else AtMostOnce),
      ag_identity = map_option parse_identity (hm_get args (ascii ''identity'')),
      ag_tls = (case hm_get args (ascii ''tls'') of Some v \<Rightarrow> v = ascii ''true'' | None \<Rightarrow> False)\<rparr>"


section \<open>Numbers\<close>

lemma unat_digit: "d < 10 \<Longrightarrow> unat (word_of_nat (48 + d) :: u8) = 48 + d"
  by (simp add: unat_of_nat del: of_nat_add)

lemma to_digit_decimal: "d < 10 \<Longrightarrow> to_digit 10 (word_of_nat (48 + d)) = Some d"
  unfolding to_digit_def Let_def by (simp only: unat_digit) simp

lemma digits_value_append:
  "digits_value r k acc (xs @ ys) = Option.bind (digits_value r k acc xs) (\<lambda>a. digits_value r k a ys)"
  by (induction xs arbitrary: acc) (auto split: option.split)

lemma decimal_value: "n < 2 ^ k \<Longrightarrow> digits_value 10 k 0 (decimal n) = Some n"
proof (induction n rule: decimal.induct)
  case (1 n)
  show ?case
  proof (cases "n < 10")
    case True
    with 1 to_digit_decimal [of n] show ?thesis by (subst decimal.simps) simp
  next
    case False
    have "n div 10 < 2 ^ k" using 1(2) by (meson div_le_dividend le_less_trans)
    with 1(1) [OF False] have "digits_value 10 k 0 (decimal (n div 10)) = Some (n div 10)" .
    moreover have "n div 10 * 10 + n mod 10 = n" by simp
    ultimately show ?thesis using 1(2) False to_digit_decimal [of "n mod 10"]
      by (subst decimal.simps) (simp add: digits_value_append)
  qed
qed

lemma decimal_digit: "b \<in> set (decimal n) \<Longrightarrow> \<exists>d < 10. b = word_of_nat (48 + d)"
proof (induction n rule: decimal.induct)
  case (1 n)
  from 1(2) show ?case
    by (subst (asm) decimal.simps) (cases "n < 10"; use 1(1) mod_less_divisor [of 10 n] in \<open>fastforce simp del: mod_less_divisor\<close>)
qed

lemma decimal_ne [simp]: "decimal n \<noteq> []"
  by (subst decimal.simps) simp

lemma decimal_plain: "decimal n \<noteq> ascii ''+''" "decimal n \<noteq> ascii ''-''" "take 1 (decimal n) \<noteq> ascii ''+''"
proof -
  have digit: "word_of_nat (48 + d) \<noteq> (43 :: u8) \<and> word_of_nat (48 + d) \<noteq> (45 :: u8)" if "d < 10" for d
  proof -
    have "unat (43 :: u8) = 43" "unat (45 :: u8) = 45" by simp_all
    with unat_digit [OF that] show ?thesis by (intro conjI notI) (metis numeral_le_iff le_add1 semiring_norm)+
  qed
  have "hd (decimal n) \<in> set (decimal n)" by simp
  from decimal_digit [OF this] digit have "hd (decimal n) \<noteq> 43" "hd (decimal n) \<noteq> 45" by auto
  then show "decimal n \<noteq> ascii ''+''" "decimal n \<noteq> ascii ''-''" "take 1 (decimal n) \<noteq> ascii ''+''"
    by (cases "decimal n"; simp add: ascii_def)+
qed

lemma parse_decimal: "n < 2 ^ k \<Longrightarrow> from_str_radix 10 k (decimal n) = Some n"
  using decimal_plain [of n] by (simp add: from_str_radix_def decimal_value)

lemma decimal_inj: "decimal m = decimal n \<longleftrightarrow> m = n"
proof
  let ?k = "m + n"
  assume eq: "decimal m = decimal n"
  have "?k < 2 ^ ?k" by (rule less_exp)
  then have "m < 2 ^ ?k" "n < 2 ^ ?k" by linarith+
  then have "Some m = Some n" using eq parse_decimal by metis
  then show "m = n" by simp
qed simp


section \<open>Identities in hexadecimal\<close>

definition hex_digit :: "nat \<Rightarrow> u8" where
  "hex_digit d = word_of_nat (if d < 10 then 48 + d else 87 + d)"

definition hex_of :: "bytes \<Rightarrow> bytes" where
  "hex_of bs = concat (map (\<lambda>b. [hex_digit (unat b div 16), hex_digit (unat b mod 16)]) bs)"

lemma unat_hex_digit: "d < 16 \<Longrightarrow> unat (hex_digit d) = (if d < 10 then 48 + d else 87 + d)"
  by (simp add: hex_digit_def unat_of_nat del: of_nat_add)

lemma to_digit_hex: "d < 16 \<Longrightarrow> to_digit 16 (hex_digit d) = Some d"
  by (simp add: to_digit_def unat_hex_digit Let_def)

lemma hex_digit_plain: "d < 16 \<Longrightarrow> hex_digit d \<noteq> 43 \<and> \<not> is_cont (hex_digit d)"
proof -
  assume d: "d < 16"
  have "unat (43 :: u8) = 43" "unat (0x80 :: u8) = 128" by simp_all
  with unat_hex_digit [OF d] d show ?thesis
    by (auto simp: is_cont_def word_le_nat_alt dest: arg_cong [of _ _ unat] split: if_splits)
qed

lemma nibbles: "unat (b :: u8) div 16 < 16" "unat b mod 16 < 16"
proof -
  have "unat b < 256" using unsigned_less [of b] by simp
  then show "unat b div 16 < 16" "unat b mod 16 < 16" by auto
qed

lemma parse_hex_byte: "from_str_radix 16 8 [hex_digit (unat b div 16), hex_digit (unat b mod 16)] = Some (unat (b :: u8))"
proof -
  have b: "unat b < 256" using unsigned_less [of b] by simp
  note d = nibbles [of b]
  have "unat b div 16 * 16 + unat b mod 16 = unat b" by simp
  with b d to_digit_hex [OF d(1)] to_digit_hex [OF d(2)] hex_digit_plain [OF d(1)] show ?thesis
    by (simp add: from_str_radix_def ascii_def)
qed

lemma hex_of_slice:
  "i < length bs \<Longrightarrow> take 2 (drop (i * 2) (hex_of bs)) = [hex_digit (unat (bs ! i) div 16), hex_digit (unat (bs ! i) mod 16)]"
proof (induction bs arbitrary: i)
  case (Cons b bs)
  then show ?case by (cases i) (auto simp: hex_of_def)
qed simp

lemma hex_of_length: "length (hex_of bs) = 2 * length bs"
  by (induction bs) (simp_all add: hex_of_def)

lemma hex_of_boundary: "i \<le> 2 * length bs \<Longrightarrow> is_char_boundary (hex_of bs) i"
proof -
  have "\<forall>c \<in> set (hex_of bs). \<not> is_cont c" by (auto simp: hex_of_def hex_digit_plain nibbles)
  moreover assume "i \<le> 2 * length bs"
  ultimately show ?thesis unfolding is_char_boundary_def hex_of_length [symmetric] by (meson le_neq_implies_less nth_mem)
qed

lemma parse_identity_hex: "is_id i \<Longrightarrow> parse_identity (hex_of i) = i"
proof (rule nth_equalityI)
  assume i: "is_id i"
  then show "length (parse_identity (hex_of i)) = length i" by (simp add: parse_identity_def is_id_def)
  fix n assume "n < length (parse_identity (hex_of i))"
  then have n: "n < length i" "n < 16" using i by (simp_all add: parse_identity_def is_id_def)
  have "str_get (hex_of i) (n * 2) (n * 2 + 2) = Some [hex_digit (unat (i ! n) div 16), hex_digit (unat (i ! n) mod 16)]"
    using n hex_of_slice [OF n(1)] hex_of_boundary [of _ i] by (simp add: str_get_def)
  with n parse_hex_byte [of "i ! n"] show "parse_identity (hex_of i) ! n = i ! n" by (simp add: parse_identity_def)
qed


section \<open>Flags\<close>

definition flags_of :: "(bytes \<times> bytes) list \<Rightarrow> bytes list" where
  "flags_of kvs = concat (map (\<lambda>(k, v). [ascii ''--'' @ k, v]) kvs)"

lemma flags_into_of:
  "hm_get (flags_into m (flags_of kvs)) k = (case map_of (rev kvs) k of Some v \<Rightarrow> Some v | None \<Rightarrow> hm_get m k)"
proof (induction kvs arbitrary: m)
  case (Cons kv kvs)
  obtain n v where kv: "kv = (n, v)" by (rule prod.exhaust)
  have "flags_into m (flags_of (kv # kvs)) = flags_into (hm_insert n v m) (flags_of kvs)"
    by (simp add: kv flags_of_def strip_prefix_def)
  with Cons.IH show ?case by (simp add: kv hm.get_insert map_add_def map_of_append split: option.split)
qed (simp add: flags_of_def)

lemma parse_flags: "hm_get (parse_args (prog # flags_of kvs)) k = map_of (rev kvs) k"
  by (simp add: parse_args_def flags_into_of hm.get_empty split: option.split)

lemma ascii_inj [simp]: "ascii s = ascii t \<longleftrightarrow> s = t"
proof -
  have "unat (of_char c :: u8) = of_char c" for c
  proof -
    have "unat (word_of_nat (of_char c) :: u8) = of_char c" by (simp add: unat_of_nat del: of_nat_of_char)
    then show ?thesis by (simp only: of_nat_of_char)
  qed
  then have "inj (of_char :: char \<Rightarrow> u8)" by (metis (mono_tags) injI of_char_eq_iff)
  then show ?thesis by (simp add: ascii_def inj_map_eq_map)
qed

text \<open>The two agents read the same configuration.\<close>

lemma agent_configs_agree: "a_agent_config_of args = agent_config_of args"
proof -
  have "from_str_radix 10 16 (ascii ''25000'') = Some 25000" "from_str_radix 10 64 (ascii ''10'') = Some 10"
    by (simp_all add: from_str_radix_def ascii_def to_digit_def)
  then show ?thesis by (simp add: a_agent_config_of_def agent_config_of_def arg_def split: option.split)
qed

text \<open>An empty value of \<open>--identity\<close> does not mean a generated identity: it is the identity of zeros.\<close>

lemma empty_identity_is_zero:
  "ag_identity (agent_config_of (parse_args [prog, ascii ''--identity'', []])) = Some (replicate 16 0)"
proof -
  have "parse_args [prog, ascii ''--identity'', []] = parse_args (prog # flags_of [(ascii ''identity'', [])])"
    by (simp add: flags_of_def ascii_def)
  moreover have "parse_identity [] = replicate 16 0"
    by (simp add: parse_identity_def str_get_def is_char_boundary_def map_replicate_const)
  ultimately show ?thesis by (simp add: agent_config_of_def parse_flags)
qed

text \<open>A configuration as flags.\<close>

definition config_flags :: "agent_config \<Rightarrow> (bytes \<times> bytes) list" where
  "config_flags c =
     [(ascii ''role'', ag_role c), (ascii ''host'', ag_host c), (ascii ''port'', decimal (unat (ag_port c))),
      (ascii ''behavior'', ag_behavior c), (ascii ''count'', decimal (unat (ag_count c))),
      (ascii ''prefix'', ag_prefix c), (ascii ''linger'', ag_linger c),
      (ascii ''send-mode'', ascii (if ag_send_mode c = Publish then ''publish'' else ''roundrobin'')),
      (ascii ''delivery'', ascii (if ag_delivery c = AtLeastOnce then ''at-least-once'' else ''at-most-once'')),
      (ascii ''tls'', ascii (if ag_tls c then ''true'' else ''false''))] @
     (case ag_identity c of None \<Rightarrow> [] | Some i \<Rightarrow> [(ascii ''identity'', hex_of i)])"

text \<open>C40. The command line of the conformance agents is faithful: for every configuration, with any texts and
  any 16-byte identity, the flags that spell it out, port and count in decimal and the identity in
  hexadecimal, are read back as exactly this configuration, by both agents; the two agents read the
  same configuration from any flags; of a flag given twice the later value counts; and an empty
  identity is not a generated one but the identity of zeros.\<close>

theorem agent_command_line:
  assumes "ag_identity c = None \<or> is_id (the (ag_identity c))"
  shows "agent_config_of (parse_args (prog # flags_of (config_flags c))) = c \<and>
    a_agent_config_of (parse_args (prog # flags_of (config_flags c))) = c \<and>
    a_agent_config_of args = agent_config_of args \<and>
    hm_get (parse_args (prog # flags_of kvs)) k = map_of (rev kvs) k \<and>
    ag_identity (agent_config_of (parse_args [prog, ascii ''--identity'', []])) = Some (replicate 16 0)"
proof -
  have "unat (ag_port c) < 2 ^ 16" "unat (ag_count c) < 2 ^ 64"
    using unsigned_less [of "ag_port c", where 'a = nat] unsigned_less [of "ag_count c", where 'a = nat] by simp_all
  note nums = parse_decimal [OF this(1)] parse_decimal [OF this(2)]
  have modes: "ag_send_mode c \<noteq> Publish \<longleftrightarrow> ag_send_mode c = RoundRobin" "ag_delivery c \<noteq> AtLeastOnce \<longleftrightarrow> ag_delivery c = AtMostOnce"
    by (cases "ag_send_mode c"; simp) (cases "ag_delivery c"; simp)
  have ids: "parse_identity (hex_of i) = i" if "ag_identity c = Some i" for i using assms that by (simp add: parse_identity_hex)
  have "agent_config_of (parse_args (prog # flags_of (config_flags c))) = c"
    by (rule agent_config.equality)
      (auto simp: agent_config_of_def arg_def parse_flags config_flags_def nums ids modes split: option.split)
  then show ?thesis by (simp add: agent_configs_agree parse_flags empty_identity_is_zero)
qed

definition demo_config :: agent_config where
  "demo_config = \<lparr>ag_role = ascii ''bind'', ag_host = ascii ''127.0.0.1'', ag_port = 25001, ag_behavior = ascii ''source'',
     ag_count = 3, ag_prefix = ascii ''--m'', ag_linger = ascii ''0.5'', ag_send_mode = RoundRobin,
     ag_delivery = AtLeastOnce, ag_identity = Some (replicate 16 0xA7), ag_tls = False\<rparr>"

theorem agent_command_line_witness:
  "agent_config_of (parse_args (ascii ''agent'' # flags_of (config_flags demo_config))) = demo_config"
  using agent_command_line [of demo_config] by (simp add: demo_config_def is_id_def)

end
