(* ===== verification/Broker_Delivery.thy ===== *)
theory Broker_Delivery
  imports Broker
begin

text \<open>
  What the synchronous broker promises its clients: how each send mode distributes messages,
  that messages sent while nobody is connected are flushed in order, that every
  at-least-once message stays accounted for until it is acknowledged or its retries are used
  up, and that resending stops.
\<close>

section \<open>Channels of connected peers\<close>

lemma chan_inj:
  assumes "conn_inv b" and "hm_get (conns b) i = Some c" and "hm_get (conns b) j = Some c"
  shows "i = j"
proof -
  have "(i, c) \<in> set (conns b)" "(j, c) \<in> set (conns b)"
    using assms(2,3) by (auto dest: hm_get_in_set)
  moreover have "inj_on snd (set (conns b))"
    using assms(1) by (simp add: conn_inv_def distinct_map)
  ultimately show ?thesis by (metis inj_onD prod.inject snd_conv)
qed

lemma connected_get: "i \<in> hm_keys (conns b) \<Longrightarrow> \<exists>c. hm_get (conns b) i = Some c"
  by (auto simp: hm.keys_get)

lemma order_get:
  assumes "conn_inv b" and "j < length (order b)"
  obtains c where "hm_get (conns b) (order b ! j) = Some c"
proof -
  have "order b ! j \<in> hm_keys (conns b)"
    using assms by (auto simp: conn_inv_def)
  then show ?thesis using connected_get that by blast
qed

lemma order_empty_iff: "conn_inv b \<Longrightarrow> order b = [] \<longleftrightarrow> conns b = []"
  by (metis conn_inv_def hm_keys_empty_iff set_empty2)

text \<open>The frame in which a message sent now goes out.\<close>

definition out_frame :: "identity option \<Rightarrow> bytes \<Rightarrow> broker \<Rightarrow> bytes" where
  "out_frame t p b =
     (if tracked t b then data_req (salt b @ u64_to_be_bytes (next_id b)) p else data p)"

lemma transmit_route:
  "\<exists>b'. transmit t p r b = route t (out_frame t p b) b' \<and> writers b' = writers b \<and>
     conns b' = conns b \<and> order b' = order b \<and> rr_cursor b' = rr_cursor b \<and>
     send_mode b' = send_mode b"
  unfolding transmit_def out_frame_def tracked_def next_msg_id_def Let_def
  by (auto intro!: exI)

lemma writers_route_to:
  "hm_get (conns b) i = Some c \<Longrightarrow>
   writers (route (Some i) f b) = (writers b)(c := writers b c @ [f])"
  by (simp add: route_def tx_send_def)

lemma writers_route_absent:
  "hm_get (conns b) i = None \<Longrightarrow> writers (route (Some i) f b) = writers b"
  by (simp add: route_def)

lemma writers_route_publish:
  assumes "conn_inv b" and "send_mode b = Publish"
  shows "writers (route None f b) =
    (\<lambda>c. if c \<in> snd ` set (conns b) then writers b c @ [f] else writers b c)"
proof -
  have "distinct (map snd (conns b))" using assms(1) by (simp add: conn_inv_def)
  then show ?thesis
    using assms(2) by (auto simp: route_def fold_tx_send count_list_distinct fun_eq_iff)
qed

lemma writers_route_robin:
  assumes "conn_inv b" and "send_mode b = RoundRobin" and "conns b \<noteq> []"
    and "hm_get (conns b) (order b ! (unat (rr_cursor b) mod length (order b))) = Some c"
  shows "writers (route None f b) = (writers b)(c := writers b c @ [f])"
  using assms order_empty_iff [OF assms(1)]
  by (simp add: route_def next_round_robin_def tx_send_def)

lemma rr_cursor_route:
  assumes "conn_inv b" and "conns b \<noteq> []"
  shows "rr_cursor (route None f b) =
    (if send_mode b = RoundRobin then rr_cursor b + 1 else rr_cursor b)"
  using assms order_empty_iff [OF assms(1)]
  by (simp add: route_def next_round_robin_def fold_tx_send split: SendMode.split option.split)

lemma rr_cursor_route_to: "rr_cursor (route (Some i) f b) = rr_cursor b"
  by (simp add: route_def split: option.split)

lemma conn_inv_cong:
  "conn_inv b \<Longrightarrow> conns b' = conns b \<Longrightarrow> order b' = order b \<Longrightarrow> buffer b' = buffer b \<Longrightarrow>
   conn_inv b'"
  by (simp add: conn_inv_def)

lemma conn_inv_transmit: "conn_inv b \<Longrightarrow> conn_inv (transmit t p r b)"
  by (erule conn_inv_cong) simp_all

lemma transmit_robin:
  assumes "conn_inv b" and "send_mode b = RoundRobin" and "conns b \<noteq> []"
    and "hm_get (conns b) (order b ! (unat (rr_cursor b) mod length (order b))) = Some c"
  shows "writers (transmit None p r b) = (writers b)(c := writers b c @ [out_frame None p b])"
    and "rr_cursor (transmit None p r b) = rr_cursor b + 1"
proof -
  obtain b' where b': "transmit None p r b = route None (out_frame None p b) b'"
    "writers b' = writers b" "conns b' = conns b" "order b' = order b"
    "rr_cursor b' = rr_cursor b" "send_mode b' = send_mode b"
    using transmit_route by blast
  have "buffer b' = buffer b" using b'(1) transmit_fields(6) [of None p r b] by simp
  with assms(1) b' have "conn_inv b'" by (elim conn_inv_cong) simp_all
  with assms b' show "writers (transmit None p r b) = (writers b)(c := writers b c @ [out_frame None p b])"
    and "rr_cursor (transmit None p r b) = rr_cursor b + 1"
    by (simp_all add: writers_route_robin rr_cursor_route)
qed

lemma transmit_to:
  "writers (transmit (Some i) p r b) =
   (case hm_get (conns b) i of
      None \<Rightarrow> writers b
    | Some c \<Rightarrow> (writers b)(c := writers b c @ [out_frame (Some i) p b]))"
proof -
  obtain b' where "transmit (Some i) p r b = route (Some i) (out_frame (Some i) p b) b'"
    "writers b' = writers b" "conns b' = conns b"
    using transmit_route by blast
  then show ?thesis by (simp add: writers_route_to writers_route_absent split: option.split)
qed

lemma transmit_publish:
  assumes "conn_inv b" and "send_mode b = Publish"
  shows "transmit None p r b =
    b\<lparr>writers := \<lambda>c. if c \<in> snd ` set (conns b) then writers b c @ [data p] else writers b c\<rparr>"
proof -
  have "distinct (map snd (conns b))" using assms(1) by (simp add: conn_inv_def)
  then show ?thesis
    using assms(2)
    by (auto simp: transmit_def route_def fold_tx_send count_list_distinct fun_eq_iff
        intro!: arg_cong [where f = "\<lambda>w. b\<lparr>writers := w\<rparr>"])
qed


section \<open>Round robin\<close>

abbreviation send_all :: "bytes list \<Rightarrow> broker \<Rightarrow> broker" where
  "send_all ps b \<equiv> fold (handle_send None) ps b"

text \<open>The frame of the \<open>n\<close>-th message sent from now on.\<close>

definition nth_frame :: "broker \<Rightarrow> nat \<Rightarrow> bytes \<Rightarrow> bytes" where
  "nth_frame b n p =
     (if delivery b = AtLeastOnce
      then data_req (salt b @ u64_to_be_bytes (next_id b + word_of_nat n)) p else data p)"

lemma send_all_fields:
  assumes "conns b \<noteq> []"
  shows "conns (send_all ps b) = conns b" "order (send_all ps b) = order b"
    "buffer (send_all ps b) = buffer b" "send_mode (send_all ps b) = send_mode b"
    "delivery (send_all ps b) = delivery b" "salt (send_all ps b) = salt b"
    "tracked None b \<Longrightarrow> next_id (send_all ps b) = next_id b + word_of_nat (length ps)"
  using assms
  by (induction ps arbitrary: b) (simp_all add: handle_send_connected tracked_def add.assoc)

lemma send_all_robin:
  assumes inv: "conn_inv b" and mode: "send_mode b = RoundRobin" and ne: "conns b \<noteq> []"
    and nowrap: "unat (rr_cursor b) + length ps < 2 ^ 64"
    and chan: "\<And>j. j < length (order b) \<Longrightarrow> hm_get (conns b) (order b ! j) = Some (ch j)"
  shows "unat (rr_cursor (send_all ps b)) = unat (rr_cursor b) + length ps \<and>
    (\<forall>j < length (order b). writers (send_all ps b) (ch j) = writers b (ch j) @
      map (\<lambda>n. nth_frame b n (ps ! n))
        (filter (\<lambda>n. (unat (rr_cursor b) + n) mod length (order b) = j) [0..<length ps]))"
  using nowrap
proof (induction ps rule: rev_induct)
  case Nil
  then show ?case by simp
next
  case (snoc p ps)
  let ?b = "send_all ps b" and ?k = "length (order b)" and ?c = "unat (rr_cursor b)"
  let ?j = "(?c + length ps) mod ?k"
  have k: "0 < ?k" using order_empty_iff [OF inv] ne by simp
  then have jk: "?j < ?k" by simp
  from snoc have IH: "unat (rr_cursor ?b) = ?c + length ps"
    "\<And>j. j < ?k \<Longrightarrow> writers ?b (ch j) = writers b (ch j) @
      map (\<lambda>n. nth_frame b n (ps ! n)) (filter (\<lambda>n. (?c + n) mod ?k = j) [0..<length ps])"
    by auto
  note fields = send_all_fields [OF ne, of ps]
  have invb: "conn_inv ?b" using inv fields by (elim conn_inv_cong) simp_all
  have frame: "out_frame None p ?b = nth_frame b (length ps) p"
    using fields mode by (simp add: out_frame_def nth_frame_def tracked_def)
  have get: "hm_get (conns ?b) (order ?b ! (unat (rr_cursor ?b) mod length (order ?b))) = Some (ch ?j)"
    using chan [OF jk] fields IH(1) by simp
  have w: "writers (send_all (ps @ [p]) b) = (writers ?b)(ch ?j := writers ?b (ch ?j) @ [nth_frame b (length ps) p])"
    and c: "rr_cursor (send_all (ps @ [p]) b) = rr_cursor ?b + 1"
    using transmit_robin [OF invb _ _ get] fields mode ne frame
    by (simp_all add: handle_send_connected)
  have inj: "ch j \<noteq> ch ?j" if "j < ?k" "j \<noteq> ?j" for j
    using chan_inj [OF inv, of "order b ! j" "ch j" "order b ! ?j"] chan that jk inv
    by (auto simp: conn_inv_def nth_eq_iff_index_eq)
  have "unat (rr_cursor ?b + 1) = ?c + length ps + 1"
    using IH(1) snoc.prems by (simp add: unat_word_ariths)
  moreover have "writers (send_all (ps @ [p]) b) (ch j) = writers b (ch j) @
      map (\<lambda>n. nth_frame b n ((ps @ [p]) ! n))
        (filter (\<lambda>n. (?c + n) mod ?k = j) [0..<length (ps @ [p])])" if j: "j < ?k" for j
  proof -
    have "map (\<lambda>n. nth_frame b n ((ps @ [p]) ! n)) (filter (\<lambda>n. (?c + n) mod ?k = j) [0..<length ps]) =
        map (\<lambda>n. nth_frame b n (ps ! n)) (filter (\<lambda>n. (?c + n) mod ?k = j) [0..<length ps])"
      by (intro map_cong refl) (auto simp: nth_append)
    with IH(2) [OF j] inj [OF j] w show ?thesis
      by (cases "j = ?j") simp_all
  qed
  ultimately show ?case using c by simp
qed

text \<open>Every residue is hit equally often, up to one.\<close>

lemma residue_shift:
  fixes c k j i :: nat
  assumes "j < k"
  shows "(c + i) mod k = j \<longleftrightarrow> (i + (c + (k - j))) mod k = 0"
proof -
  let ?x = "(c + i) mod k"
  have "i + (c + (k - j)) = (c + i) + (k - j)" by simp
  then have "(i + (c + (k - j))) mod k = (?x + (k - j)) mod k"
    by (simp only: mod_add_left_eq)
  moreover have "(?x + (k - j)) mod k = 0 \<longleftrightarrow> ?x = j"
  proof
    assume 0: "(?x + (k - j)) mod k = 0"
    have x: "?x < k" using assms by simp
    show "?x = j"
    proof (cases "?x < j")
      case True
      then have "?x + (k - j) < k" "0 < ?x + (k - j)" using assms by auto
      with 0 show ?thesis by simp
    next
      case False
      then have "?x + (k - j) = k + (?x - j)" using assms by simp
      with 0 have "(?x - j) mod k = 0" by simp
      with x False show ?thesis by simp
    qed
  next
    assume "?x = j"
    with assms show "(?x + (k - j)) mod k = 0" by simp
  qed
  ultimately show ?thesis by simp
qed

lemma multiples_count:
  fixes k e n :: nat
  assumes "0 < k"
  shows "length (filter (\<lambda>i. (i + e) mod k = 0) [0..<n]) + (e + k - 1) div k = (n + e + k - 1) div k"
proof (induction n)
  case 0
  then show ?case by simp
next
  case (Suc n)
  obtain m where m: "n + e + k = Suc m" using assms by (cases "n + e + k") auto
  have "Suc m mod k = (n + e) mod k" by (simp flip: m)
  then have "Suc m div k = (if (n + e) mod k = 0 then Suc (m div k) else m div k)"
    by (simp add: div_Suc)
  with Suc m show ?case by simp
qed

lemma residue_count:
  fixes c k j n :: nat
  assumes "j < k"
  shows "n div k \<le> length (filter (\<lambda>i. (c + i) mod k = j) [0..<n])"
    and "length (filter (\<lambda>i. (c + i) mod k = j) [0..<n]) \<le> n div k + 1"
proof -
  let ?e = "c + (k - j)"
  let ?x = "?e + k - 1" and ?l = "length (filter (\<lambda>i. (c + i) mod k = j) [0..<n])"
  have k: "0 < k" using assms by simp
  have "?l + ?x div k = (n + ?x) div k"
    using multiples_count [OF k, of ?e n] k by (simp add: residue_shift [OF assms] add.assoc)
  also have "\<dots> = n div k + ?x div k + (n mod k + ?x mod k) div k"
    by (rule div_add1_eq)
  finally have "?l = n div k + (n mod k + ?x mod k) div k" by simp
  moreover have "n mod k + ?x mod k < 2 * k"
    using k by (simp add: add_strict_mono mult_2)
  then have "(n mod k + ?x mod k) div k < 2" by (rule less_mult_imp_div_less)
  ultimately show "n div k \<le> ?l" and "?l \<le> n div k + 1" by simp_all
qed


section \<open>Flushing the buffer to the first peer\<close>

definition addressed_to :: "identity \<Rightarrow> identity option \<times> bytes \<Rightarrow> bool" where
  "addressed_to i x \<longleftrightarrow> fst x = None \<or> fst x = Some i"

lemma transmit_single:
  assumes "conn_inv b" and "conns b = [(i, w)]" and "delivery b = AtMostOnce"
  shows "writers (transmit t p r b) =
    (if addressed_to i (t, p) then (writers b)(w := writers b w @ [data p]) else writers b)"
proof -
  have "set (order b) = {i}" "distinct (order b)"
    using assms(1,2) by (auto simp: conn_inv_def hm_keys_def)
  then have "length (order b) = 1" using distinct_card [of "order b"] by simp
  with \<open>set (order b) = {i}\<close> have ord: "order b = [i]"
    by (cases "order b") simp_all
  have get: "hm_get (conns b) j = (if j = i then Some w else None)" for j
    by (simp add: assms(2) hm_get_def)
  show ?thesis
  proof (cases t)
    case (Some j)
    then show ?thesis
      using assms(3) by (auto simp: transmit_to get addressed_to_def out_frame_def tracked_def)
  next
    case None
    show ?thesis
    proof (cases "send_mode b")
      case RoundRobin
      with None assms ord get transmit_robin(1) [OF assms(1) RoundRobin, of w p r] show ?thesis
        by (simp add: addressed_to_def out_frame_def tracked_def)
    next
      case Publish
      with None assms transmit_publish [OF assms(1) Publish, of p r] show ?thesis
        by (auto simp: addressed_to_def)
    qed
  qed
qed

lemma flush_single:
  assumes "conn_inv b" and "conns b = [(i, w)]" and "delivery b = AtMostOnce"
  shows "writers (flush xs b) =
    (writers b)(w := writers b w @ map (data \<circ> snd) (filter (addressed_to i) xs))"
  using assms
proof (induction xs arbitrary: b)
  case Nil
  then show ?case by simp
next
  case (Cons x xs)
  obtain t p where x: "x = (t, p)" by (cases x)
  let ?b = "transmit t p MAX_RETRIES b"
  have "writers (flush xs ?b) =
      (writers ?b)(w := writers ?b w @ map (data \<circ> snd) (filter (addressed_to i) xs))"
    using Cons.prems by (intro Cons.IH) (simp_all add: conn_inv_transmit)
  then show ?case
    using Cons.prems by (auto simp: x flush_Cons transmit_single fun_eq_iff)
qed

lemma offline_sends:
  "conns b = [] \<Longrightarrow>
   fold (\<lambda>(t, p). handle_send t p) xs b = b\<lparr>buffer := buffer b @ xs\<rparr>"
  by (induction xs arbitrary: b) (auto simp: handle_send_def)

lemma conn_inv_offline: "conn_inv b \<Longrightarrow> conns b = [] \<Longrightarrow> conn_inv (b\<lparr>buffer := xs\<rparr>)"
  by (simp add: conn_inv_def)

lemma flush_on_connect:
  assumes "conn_inv b" and "conns b = []" and "delivery b = AtMostOnce" and "is_id i"
  shows "writers (handle_up i w a b) =
    (writers b)(w := writers b w @ map (data \<circ> snd) (filter (addressed_to i) (buffer b)))"
    and "buffer (handle_up i w a b) = []"
proof -
  let ?b = "b\<lparr>conns := hm_insert i w (conns b), order := order b @ [i],
      accepts := accepts b @ [(a, True)], buffer := []\<rparr>"
  have up: "handle_up i w a b = flush (buffer b) ?b"
    by (rule handle_up_new) (simp add: assms(2) hm_simps)
  have "conn_inv ?b"
    using ci.inv_connect [OF assms(1) _ assms(4), of w "accepts b @ [(a, True)]"] assms(2)
    by (simp add: hm_simps)
  moreover have "conns ?b = [(i, w)]" by (simp add: assms(2) hm_insert_def)
  ultimately show "writers (handle_up i w a b) =
      (writers b)(w := writers b w @ map (data \<circ> snd) (filter (addressed_to i) (buffer b)))"
    and "buffer (handle_up i w a b) = []"
    using assms(3) flush_single [of ?b i w "buffer b"] flush_fields(6) [of ?b "buffer b"]
    by (simp_all add: up)
qed


section \<open>At-least-once messages are accounted for\<close>

text \<open>The messages that wait in the buffer or for an acknowledgement.\<close>

definition inflight :: "broker \<Rightarrow> (identity option \<times> bytes) multiset" where
  "inflight b =
     image_mset (\<lambda>(m, pm). (p_identity pm, p_data pm)) (mset (pending b)) + mset (buffer b)"

text \<open>The number of transmissions that the pending messages may still make.\<close>

definition resend_budget :: "broker \<Rightarrow> nat" where
  "resend_budget b = sum_list (map (\<lambda>(m, pm). unat (p_retries pm) + 1) (pending b))"

definition reliable :: "broker \<Rightarrow> bool" where
  "reliable b \<longleftrightarrow> delivery b = AtLeastOnce \<and> send_mode b = RoundRobin"

lemma tracked_reliable [simp]: "reliable b \<Longrightarrow> tracked t b"
  by (simp add: reliable_def tracked_def)

lemma reliable_transmit [simp]: "reliable (transmit t p r b) = reliable b"
  by (simp add: reliable_def)

lemma arms_transmit: "arms (transmit t p r b) = (if tracked t b then Suc (arms b) else arms b)"
  by (simp add: arms_def)

lemma pending_transmit_fresh:
  assumes "pend_inv b" and "arms b < 2 ^ 64" and "tracked t b"
  shows "pending (transmit t p r b) = pending b @
    [(salt b @ u64_to_be_bytes (next_id b), \<lparr>p_identity = t, p_data = p, p_retries = r\<rparr>)]"
  using assms by (simp add: hm_insert_new pend_inv_fresh)

lemma inflight_transmit:
  assumes "pend_inv b" and "arms b < 2 ^ 64" and "tracked t b"
  shows "inflight (transmit t p r b) = add_mset (t, p) (inflight b)"
  unfolding inflight_def pending_transmit_fresh [OF assms] by simp

lemma arms_flush:
  "conns b \<noteq> [] \<Longrightarrow> reliable b \<Longrightarrow> arms (flush xs b) = arms b + length xs"
  by (induction xs arbitrary: b) (auto simp: flush_Cons arms_transmit)

lemma inflight_flush:
  assumes "pend_inv b" and "conns b \<noteq> []" and "reliable b" and "arms b + length xs \<le> 2 ^ 64"
  shows "inflight (flush xs b) = mset xs + inflight b"
  using assms
proof (induction xs arbitrary: b)
  case Nil
  then show ?case by simp
next
  case (Cons x xs)
  obtain t p where x: "x = (t, p)" by (cases x)
  have "inflight (flush xs (transmit t p MAX_RETRIES b)) =
      mset xs + inflight (transmit t p MAX_RETRIES b)"
    using Cons.prems by (intro Cons.IH) (simp_all add: pend_inv_transmit arms_transmit)
  then show ?case
    using Cons.prems by (simp add: x flush_Cons inflight_transmit)
qed

lemma inflight_forget:
  assumes "pend_inv b" and "hm_get (pending b) m = Some pm"
  shows "inflight b = add_mset (p_identity pm, p_data pm)
    (inflight (b\<lparr>pending := hm_remove m (pending b)\<rparr>))"
  using mset_hm_remove [OF _ assms(2)] assms(1)
  by (simp add: inflight_def pend_inv_def)

lemma budget_forget:
  assumes "pend_inv b" and "hm_get (pending b) m = Some pm"
  shows "resend_budget b = unat (p_retries pm) + 1 +
    resend_budget (b\<lparr>pending := hm_remove m (pending b)\<rparr>)"
proof -
  let ?f = "\<lambda>(m :: msg_id, pm). unat (p_retries pm) + 1"
  have "resend_budget b = sum_mset (image_mset ?f (mset (pending b)))"
    by (simp add: resend_budget_def sum_mset_sum_list flip: mset_map)
  also have "\<dots> = unat (p_retries pm) + 1 +
      sum_mset (image_mset ?f (mset (hm_remove m (pending b))))"
    using mset_hm_remove [OF _ assms(2)] assms(1) by (simp add: pend_inv_def)
  finally show ?thesis
    by (simp add: resend_budget_def sum_mset_sum_list flip: mset_map)
qed

lemma budget_transmit:
  assumes "pend_inv b" and "arms b < 2 ^ 64" and "tracked t b"
  shows "resend_budget (transmit t p r b) = resend_budget b + unat r + 1"
  unfolding resend_budget_def pending_transmit_fresh [OF assms] by simp

lemma handle_resend_pending:
  assumes "hm_get (pending b) m = Some pm"
  shows "handle_resend m b =
    (let b1 = b\<lparr>pending := hm_remove m (pending b)\<rparr>
     in if p_retries pm = 0 then b1
        else if conns b = [] then b1\<lparr>buffer := buffer b @ [(p_identity pm, p_data pm)]\<rparr>
        else transmit (p_identity pm) (p_data pm) (p_retries pm - 1) b1)"
  using assms by (simp add: handle_resend_def Let_def)

lemma pending_tracked:
  "pend_inv b \<Longrightarrow> hm_get (pending b) m = Some pm \<Longrightarrow> tracked (p_identity pm) b"
  by (auto simp: pend_inv_def dest!: hm_get_in_set)

lemma inflight_resend:
  assumes inv: "pend_inv b" and pm: "hm_get (pending b) m = Some pm"
    and ids: "arms (handle_resend m b) \<le> 2 ^ 64"
  shows "inflight (handle_resend m b) =
    (if p_retries pm = 0 then inflight b - {#(p_identity pm, p_data pm)#} else inflight b)"
proof -
  let ?b = "b\<lparr>pending := hm_remove m (pending b)\<rparr>"
  have f: "inflight b = add_mset (p_identity pm, p_data pm) (inflight ?b)"
    by (rule inflight_forget [OF inv pm])
  have t: "tracked (p_identity pm) ?b"
    using pending_tracked [OF inv pm] by (simp add: tracked_def)
  consider "p_retries pm = 0" | "p_retries pm \<noteq> 0" "conns b = []"
    | "p_retries pm \<noteq> 0" "conns b \<noteq> []" by blast
  then show ?thesis
  proof cases
    case 3
    have "handle_resend m b = transmit (p_identity pm) (p_data pm) (p_retries pm - 1) ?b"
      using 3 by (simp add: handle_resend_pending [OF pm] Let_def)
    moreover from this ids t have "arms ?b < 2 ^ 64" by (simp add: arms_transmit)
    ultimately show ?thesis
      using 3 f t by (simp add: inflight_transmit [OF pend_inv_forget [OF inv]])
  qed (simp_all add: handle_resend_pending [OF pm] Let_def f, simp add: inflight_def)
qed


lemma inflight_command:
  assumes inv: "conn_inv b" "pend_inv b" and rel: "reliable b" and ok: "command_ok cmd b"
    and ids: "arms (handle_command cmd b) \<le> 2 ^ 64"
  shows "inflight (handle_command cmd b) =
    (case cmd of
       Send t p \<Rightarrow> add_mset (t, p) (inflight b)
     | Received i (Ack m) \<Rightarrow>
         (case hm_get (pending b) m of
            None \<Rightarrow> inflight b
          | Some pm \<Rightarrow> inflight b - {#(p_identity pm, p_data pm)#})
     | ResendTimeout m \<Rightarrow>
         (case hm_get (pending b) m of
            None \<Rightarrow> inflight b
          | Some pm \<Rightarrow>
              if p_retries pm = 0 then inflight b - {#(p_identity pm, p_data pm)#}
              else inflight b)
     | _ \<Rightarrow> inflight b)"
proof (cases cmd)
  case (Send t p)
  show ?thesis
  proof (cases "conns b = []")
    case True
    with Send show ?thesis by (simp add: handle_command_def handle_send_def inflight_def)
  next
    case False
    then have eq: "handle_command cmd b = transmit t p MAX_RETRIES b"
      by (simp add: Send handle_command_def handle_send_connected)
    with ids rel have "arms b < 2 ^ 64" by (simp add: arms_transmit)
    with eq rel Send inv(2) show ?thesis by (simp add: inflight_transmit)
  qed
next
  case (ConnectionUp i w a)
  show ?thesis
  proof (cases "hm_get (conns b) i")
    case None
    let ?b = "b\<lparr>conns := hm_insert i w (conns b), order := order b @ [i],
      accepts := accepts b @ [(a, True)], buffer := []\<rparr>"
    have eq: "handle_command cmd b = flush (buffer b) ?b"
      by (simp add: ConnectionUp handle_command_def handle_up_new [OF None])
    have inv': "pend_inv ?b" using inv(2) by (elim pend_inv_cong) simp_all
    have rel': "reliable ?b" using rel by (simp add: reliable_def)
    have "arms ?b + length (buffer b) \<le> 2 ^ 64" using ids rel' by (simp add: eq arms_flush)
    then have "inflight (flush (buffer b) ?b) = mset (buffer b) + inflight ?b"
      using inv' rel' by (intro inflight_flush) simp_all
    also have "\<dots> = inflight b" by (simp add: inflight_def add.commute)
    finally have "inflight (handle_command cmd b) = inflight b" by (simp add: eq)
    then show ?thesis by (simp add: ConnectionUp)
  next
    case (Some c)
    with ConnectionUp show ?thesis by (simp add: handle_command_def handle_up_def inflight_def)
  qed
next
  case (ConnectionDown i)
  then show ?thesis by (simp add: handle_command_def handle_down_def inflight_def)
next
  case (Received i e)
  show ?thesis
  proof (cases e)
    case (Ack m)
    show ?thesis
    proof (cases "hm_get (pending b) m")
      case None
      with Received Ack show ?thesis by (simp add: handle_command_def handle_received_def)
    next
      case (Some pm)
      have "inflight (b\<lparr>pending := hm_remove m (pending b), timer_tx := x\<rparr>) =
          inflight (b\<lparr>pending := hm_remove m (pending b)\<rparr>)" for x
        by (simp add: inflight_def)
      with Received Ack Some inflight_forget [OF inv(2) Some] show ?thesis
        by (simp add: handle_command_def handle_received_def)
    qed
  qed (use Received in \<open>simp_all add: handle_command_def handle_received_def inflight_def\<close>)
next
  case (ResendTimeout m)
  show ?thesis
  proof (cases "hm_get (pending b) m")
    case None
    with ResendTimeout show ?thesis by (simp add: handle_command_def handle_resend_def)
  next
    case (Some pm)
    with ResendTimeout inflight_resend [OF inv(2) Some] ids show ?thesis
      by (simp add: handle_command_def)
  qed
next
  case Close
  with ok show ?thesis by (simp add: command_ok_def)
qed


section \<open>Resending stops\<close>

text \<open>How many of a sequence of timeouts find their message still pending.\<close>

fun hits :: "msg_id list \<Rightarrow> broker \<Rightarrow> nat" where
  "hits [] b = 0"
| "hits (m # ms) b =
     (if hm_get (pending b) m = None then 0 else 1) + hits ms (handle_resend m b)"

lemma budget_resend:
  assumes inv: "pend_inv b" and ne: "conns b \<noteq> []" and pm: "hm_get (pending b) m = Some pm"
    and ids: "arms b < 2 ^ 64"
  shows "Suc (resend_budget (handle_resend m b)) = resend_budget b"
    and "arms (handle_resend m b) = (if p_retries pm = 0 then arms b else Suc (arms b))"
    and "conns (handle_resend m b) = conns b" and "pend_inv (handle_resend m b)"
proof -
  let ?b = "b\<lparr>pending := hm_remove m (pending b)\<rparr>"
  have t: "tracked (p_identity pm) ?b"
    using pending_tracked [OF inv pm] by (simp add: tracked_def)
  have arms: "arms ?b = arms b" by (simp add: arms_def)
  show "pend_inv (handle_resend m b)"
    using pi.inv_command [OF inv, of "ResendTimeout m"]
    by (simp add: handle_command_def command_ok_def)
  show "conns (handle_resend m b) = conns b"
    using ne by (simp add: handle_resend_pending [OF pm] Let_def)
  show "arms (handle_resend m b) = (if p_retries pm = 0 then arms b else Suc (arms b))"
    using ne t by (simp add: handle_resend_pending [OF pm] Let_def arms_transmit arms)
  have "resend_budget b = unat (p_retries pm) + 1 + resend_budget ?b"
    by (rule budget_forget [OF inv pm])
  moreover have "resend_budget (handle_resend m b) =
      (if p_retries pm = 0 then resend_budget ?b
       else resend_budget ?b + unat (p_retries pm - 1) + 1)"
    using ne budget_transmit [OF pend_inv_forget [OF inv] _ t] ids arms
    by (simp add: handle_resend_pending [OF pm] Let_def)
  moreover have "p_retries pm \<noteq> 0 \<Longrightarrow> Suc (unat (p_retries pm - 1)) = unat (p_retries pm)"
    by (simp add: unat_minus_one unat_eq_zero Suc_pred [OF unat_pos])
  ultimately show "Suc (resend_budget (handle_resend m b)) = resend_budget b"
    by (cases "p_retries pm = 0") auto
qed

lemma hits_bound:
  assumes "pend_inv b" and "conns b \<noteq> []" and "arms b + resend_budget b \<le> 2 ^ 64"
  shows "hits ms b \<le> resend_budget b"
  using assms
proof (induction ms arbitrary: b)
  case Nil
  then show ?case by simp
next
  case (Cons m ms)
  show ?case
  proof (cases "hm_get (pending b) m")
    case None
    then have "handle_resend m b = b" by (simp add: handle_resend_def)
    with Cons None show ?thesis by simp
  next
    case (Some pm)
    have pos: "0 < resend_budget b"
      using budget_forget [OF Cons.prems(1) Some] by simp
    then have ids: "arms b < 2 ^ 64" using Cons.prems(3) by simp
    note step = budget_resend [OF Cons.prems(1,2) Some ids]
    have "hits ms (handle_resend m b) \<le> resend_budget (handle_resend m b)"
      using Cons.prems step by (intro Cons.IH) (auto split: if_splits)
    with Some step(1) show ?thesis by simp
  qed
qed


section \<open>Message ids\<close>

fun issue :: "nat \<Rightarrow> broker \<Rightarrow> msg_id list \<times> broker" where
  "issue 0 b = ([], b)"
| "issue (Suc n) b =
     (let (m, b1) = next_msg_id b; (ms, b2) = issue n b1 in (m # ms, b2))"

lemma issue_ids:
  "fst (issue n b) = map (\<lambda>k. salt b @ u64_to_be_bytes (next_id b + word_of_nat k)) [0..<n]"
proof (induction n arbitrary: b)
  case 0
  then show ?case by simp
next
  case (Suc n)
  have "[0..<Suc n] = 0 # map Suc [0..<n]" by (simp add: upt_conv_Cons map_Suc_upt del: upt_Suc)
  with Suc [of "b\<lparr>next_id := next_id b + 1\<rparr>"] show ?case
    by (simp add: next_msg_id_def case_prod_beta add.assoc del: upt_Suc)
qed

lemma issue_distinct: "n \<le> 2 ^ 64 \<Longrightarrow> distinct (fst (issue n b))"
proof -
  assume n: "n \<le> 2 ^ 64"
  have "inj_on (\<lambda>k. next_id b + word_of_nat k :: u64) {0..<n}"
  proof (rule inj_onI)
    fix j k assume jk: "j \<in> {0..<n}" "k \<in> {0..<n}"
      and "next_id b + (word_of_nat j :: u64) = next_id b + word_of_nat k"
    then have "unat (word_of_nat j :: u64) = unat (word_of_nat k :: u64)" by simp
    with jk n show "j = k" by (simp add: unat_of_nat)
  qed
  then show ?thesis
    by (auto simp: issue_ids distinct_map inj_on_def u64_to_be_inj)
qed

text \<open>The ids armed so far are the broker's ids in order, so none is armed twice.\<close>

fun armed_ids :: "timer_msg list \<Rightarrow> msg_id list" where
  "armed_ids [] = []"
| "armed_ids (Arm m # ms) = m # armed_ids ms"
| "armed_ids (x # ms) = armed_ids ms"

lemma armed_ids_append [simp]: "armed_ids (xs @ ys) = armed_ids xs @ armed_ids ys"
  by (induction xs rule: armed_ids.induct) simp_all

definition ids_inv :: "broker \<Rightarrow> bool" where
  "ids_inv b \<longleftrightarrow>
     next_id b = word_of_nat (arms b) \<and> armed_ids (timer_tx b) = map (nth_id b) [0..<arms b]"

lemma ids_inv_cong:
  assumes "ids_inv b" and "salt b' = salt b" and "next_id b' = next_id b"
    and "timer_tx b' = timer_tx b"
  shows "ids_inv b'"
proof -
  have "nth_id b' = nth_id b" using assms(2) by (simp add: nth_id_def fun_eq_iff)
  with assms show ?thesis by (simp add: ids_inv_def arms_def)
qed

lemma ids_inv_transmit:
  assumes "ids_inv b"
  shows "ids_inv (transmit t p r b)"
proof (cases "tracked t b")
  case True
  have "salt b @ u64_to_be_bytes (next_id b) = nth_id b (arms b)"
    using assms by (simp add: ids_inv_def nth_id_def)
  moreover have "nth_id (transmit t p r b) = nth_id b" by (simp add: nth_id_def fun_eq_iff)
  ultimately show ?thesis
    using assms True by (simp add: ids_inv_def arms_transmit)
next
  case False
  with assms show ?thesis by (elim ids_inv_cong) simp_all
qed

interpretation idi: broker_invariant ids_inv
proof unfold_locales
  fix uuid mode guarantee
  show "ids_inv (broker_new mode guarantee uuid)"
    by (simp add: ids_inv_def broker_new_def arms_def timers_spawn_def)
next
  fix b m pm assume "ids_inv b"
  then have "ids_inv (b\<lparr>pending := hm_remove m (pending b)\<rparr>)" by (elim ids_inv_cong) simp_all
  then show "ids_inv (transmit (p_identity pm) (p_data pm) (p_retries pm - 1)
      (b\<lparr>pending := hm_remove m (pending b)\<rparr>))"
    by (rule ids_inv_transmit)
next
  fix b m assume b: "ids_inv b"
  let ?b = "b\<lparr>pending := hm_remove m (pending b), timer_tx := timers_cancel (timer_tx b) m\<rparr>"
  have "nth_id ?b = nth_id b" by (simp add: nth_id_def fun_eq_iff)
  with b show "ids_inv ?b" by (simp add: ids_inv_def arms_def timers_cancel_def)
next
  fix b t p assume "ids_inv b"
  then show "ids_inv (transmit t p MAX_RETRIES b)" by (rule ids_inv_transmit)
qed (erule ids_inv_cong; simp add: handle_down_def)+

lemma armed_ids_distinct:
  assumes "ids_inv b" and "arms b \<le> 2 ^ 64"
  shows "distinct (armed_ids (timer_tx b))"
proof -
  have "inj_on (nth_id b) {0..<arms b}"
    using assms(2) by (intro inj_onI) (auto intro: nth_id_inj)
  then show ?thesis using assms(1) by (simp add: ids_inv_def distinct_map)
qed

end
