(* ===== verification/Broker_Timers.thy ===== *)
theory Broker_Timers
  imports Broker_Delivery
begin

text \<open>
  The synchronous broker together with its resend-timer thread (\<open>Broker::run\<close> and \<open>timer_loop\<close> of
  \<open>rust-lib-sync/src/broker.rs\<close>).  The two threads talk over two channels: the timer messages the
  broker has sent and the thread has not yet taken, and the \<open>ResendTimeout\<close> commands the thread has
  sent and the broker has not yet handled.  Any interleaving of their steps is a run.

  The invariant says that no unacknowledged message is forgotten: its id is armed in the timer
  thread, on its way there, or its timeout is on its way back.
\<close>

record system =
  sys_broker :: broker
  taken :: nat          \<comment> \<open>how many of the broker's timer messages the thread has taken\<close>
  thread :: timer
  now :: nat
  timeouts :: "msg_id list"  \<comment> \<open>\<open>ResendTimeout\<close> commands sent and not yet handled\<close>

inductive sys_reach :: "system \<Rightarrow> bool" where
  init: "length uuid = 16 \<Longrightarrow>
    sys_reach \<lparr>sys_broker = broker_new mode guarantee uuid, taken = 0, thread = timer_init,
      now = t, timeouts = []\<rparr>"
| command: "sys_reach s \<Longrightarrow> command_ok cmd (sys_broker s) \<Longrightarrow>
    \<forall>m. cmd \<noteq> ResendTimeout m \<Longrightarrow>
    sys_reach (s\<lparr>sys_broker := handle_command cmd (sys_broker s)\<rparr>)"
| timeout: "sys_reach s \<Longrightarrow> timeouts s = m # ms \<Longrightarrow>
    sys_reach (s\<lparr>sys_broker := handle_command (ResendTimeout m) (sys_broker s), timeouts := ms\<rparr>)"
| woken: "sys_reach s \<Longrightarrow> taken s < length (timer_tx (sys_broker s)) \<Longrightarrow>
    now s \<le> t1 \<Longrightarrow> t1 \<le> t2 \<Longrightarrow>
    timer_iter (Woken (timer_tx (sys_broker s) ! taken s)) t1 t2 True (thread s) = (fs, True, tm) \<Longrightarrow>
    sys_reach (s\<lparr>taken := Suc (taken s), thread := tm, now := t2, timeouts := timeouts s @ fs\<rparr>)"
| expired: "sys_reach s \<Longrightarrow> deadlines (thread s) = (dl, m) # q \<Longrightarrow> dl \<le> t1 \<Longrightarrow>
    now s \<le> t1 \<Longrightarrow> t1 \<le> t2 \<Longrightarrow>
    timer_iter Expired t1 t2 True (thread s) = (fs, True, tm) \<Longrightarrow>
    sys_reach (s\<lparr>thread := tm, now := t2, timeouts := timeouts s @ fs\<rparr>)"

text \<open>What will be armed once the thread has taken all messages and no timeout is under way.\<close>

definition watched :: "system \<Rightarrow> msg_id set" where
  "watched s = fold arm_step (drop (taken s) (timer_tx (sys_broker s)))
     (armed (thread s) \<union> set (timeouts s))"

lemma arm_step_mono: "A \<subseteq> B \<Longrightarrow> arm_step x A \<subseteq> arm_step x B"
  by (cases x) auto

lemma fold_arm_step_mono: "A \<subseteq> B \<Longrightarrow> fold arm_step ms A \<subseteq> fold arm_step ms B"
  by (induction ms arbitrary: A B) (auto simp: arm_step_mono)

lemma fold_arm_step_other:
  "x \<in> fold arm_step ms A \<Longrightarrow> x \<noteq> m \<Longrightarrow> x \<in> fold arm_step ms (A - {m})"
proof (induction ms arbitrary: A)
  case Nil
  then show ?case by simp
next
  case (Cons y ms)
  have "x \<in> fold arm_step ms (arm_step y A - {m})" using Cons by simp
  moreover have "arm_step y A - {m} \<subseteq> arm_step y (A - {m})" by (cases y) auto
  ultimately have "x \<in> fold arm_step ms (arm_step y (A - {m}))"
    using fold_arm_step_mono by blast
  then show ?case by simp
qed

lemma fold_arm_step_origin: "x \<in> fold arm_step ms A \<Longrightarrow> x \<in> A \<or> Arm x \<in> set ms"
proof (induction ms arbitrary: A)
  case Nil
  then show ?case by simp
next
  case (Cons y ms)
  then show ?case by (cases y) auto
qed

lemma timer_iter_armed:
  assumes "timer_iter w t1 t2 True t = (fs, True, t')"
  shows "armed (timer_handle w t1 t) \<subseteq> armed t' \<union> set fs"
  using fire_due_alive [OF timer_iter_on [OF assms]] by auto

text \<open>A command of the broker only appends to the timer messages, and arms what it adds.\<close>

definition watch_step :: "broker \<Rightarrow> broker \<Rightarrow> bool" where
  "watch_step b b' \<longleftrightarrow> (\<exists>ms. timer_tx b' = timer_tx b @ ms \<and>
     (\<forall>A. hm_keys (pending b) \<subseteq> A \<longrightarrow> hm_keys (pending b') \<subseteq> fold arm_step ms A))"

lemma watch_step_same: "timer_tx b' = timer_tx b \<Longrightarrow> hm_keys (pending b') \<subseteq> hm_keys (pending b) \<Longrightarrow>
  watch_step b b'"
  by (auto simp: watch_step_def)

lemma watch_step_trans: "watch_step b b' \<Longrightarrow> watch_step b' b'' \<Longrightarrow> watch_step b b''"
  by (fastforce simp: watch_step_def)

lemma watch_step_transmit: "watch_step b (transmit t p r b)"
  by (auto simp: watch_step_def hm_simps intro!: exI)

lemma watch_step_flush: "conns b \<noteq> [] \<Longrightarrow> watch_step b (flush xs b)"
proof (induction xs arbitrary: b)
  case Nil
  then show ?case by (simp add: watch_step_same)
next
  case (Cons x xs)
  obtain t p where x: "x = (t, p)" by (cases x)
  have "watch_step (transmit t p MAX_RETRIES b) (flush xs (transmit t p MAX_RETRIES b))"
    using Cons by simp
  with Cons.prems show ?case
    by (simp add: x flush_Cons) (rule watch_step_trans [OF watch_step_transmit])
qed

lemma watch_step_up: "watch_step b (handle_up i w a b)"
proof (cases "hm_get (conns b) i")
  case None
  let ?b = "b\<lparr>conns := hm_insert i w (conns b), order := order b @ [i],
    accepts := accepts b @ [(a, True)], buffer := []\<rparr>"
  have "watch_step b ?b" by (simp add: watch_step_same)
  moreover have "watch_step ?b (flush (buffer b) ?b)" by (simp add: watch_step_flush)
  ultimately show ?thesis by (simp add: handle_up_new [OF None] watch_step_trans)
next
  case (Some c)
  then show ?thesis by (simp add: handle_up_def watch_step_same)
qed

lemma watch_step_received: "watch_step b (handle_received i e b)"
proof (cases e)
  case (Ack m)
  have "watch_step b (b\<lparr>pending := hm_remove m (pending b), timer_tx := timers_cancel (timer_tx b) m\<rparr>)"
    by (auto simp: watch_step_def timers_cancel_def hm_simps)
  with Ack show ?thesis by (simp add: handle_received_def watch_step_same)
qed (simp_all add: handle_received_def watch_step_same)

lemma watch_step_command: "(\<forall>m. cmd \<noteq> ResendTimeout m) \<Longrightarrow> watch_step b (handle_command cmd b)"
  by (cases cmd)
    (auto simp: handle_command_def handle_send_def handle_down_def
      intro: watch_step_same watch_step_transmit watch_step_up watch_step_received)

lemma watch_step_resend:
  "watch_step (b\<lparr>pending := hm_remove m (pending b)\<rparr>) (handle_resend m b)"
proof (cases "hm_get (pending b) m")
  case None
  then show ?thesis by (simp add: handle_resend_def watch_step_same hm_remove_absent)
next
  case (Some pm)
  then show ?thesis
    by (auto simp: handle_resend_def Let_def intro: watch_step_same watch_step_transmit)
qed

text \<open>Appending the broker's new messages keeps every pending id watched.\<close>

lemma watched_append:
  assumes "watch_step b b'" and "hm_keys (pending b) \<subseteq> fold arm_step (drop n (timer_tx b)) A"
    and "n \<le> length (timer_tx b)"
  shows "hm_keys (pending b') \<subseteq> fold arm_step (drop n (timer_tx b')) A \<and> n \<le> length (timer_tx b')"
proof -
  obtain ms where ms: "timer_tx b' = timer_tx b @ ms"
    and keys: "\<And>A. hm_keys (pending b) \<subseteq> A \<Longrightarrow> hm_keys (pending b') \<subseteq> fold arm_step ms A"
    using assms(1) by (auto simp: watch_step_def)
  from keys [OF assms(2)] assms(3) show ?thesis by (simp add: ms)
qed

lemma sys_reach_watched:
  "sys_reach s \<Longrightarrow> hm_keys (pending (sys_broker s)) \<subseteq> watched s \<and>
     taken s \<le> length (timer_tx (sys_broker s))"
proof (induction rule: sys_reach.induct)
  case (init uuid mode guarantee t)
  then show ?case by (simp add: broker_new_def hm_simps)
next
  case (command s cmd)
  have "watch_step (sys_broker s) (handle_command cmd (sys_broker s))"
    using command.hyps by (intro watch_step_command)
  from watched_append [OF this, of "taken s" "armed (thread s) \<union> set (timeouts s)"] command.IH
  show ?case by (simp add: watched_def)
next
  case (timeout s m ms)
  let ?b = "sys_broker s" and ?b1 = "sys_broker s\<lparr>pending := hm_remove m (pending (sys_broker s))\<rparr>"
  let ?A = "armed (thread s) \<union> set (timeouts s)"
  have "hm_keys (pending ?b1) \<subseteq> fold arm_step (drop (taken s) (timer_tx ?b)) (?A - {m})"
    using timeout.IH by (auto simp: hm_simps watched_def intro: fold_arm_step_other)
  also have "\<dots> \<subseteq> fold arm_step (drop (taken s) (timer_tx ?b)) (armed (thread s) \<union> set ms)"
    using timeout.hyps by (intro fold_arm_step_mono) auto
  finally show ?case
    using watched_append [OF watch_step_resend, of m ?b "taken s" "armed (thread s) \<union> set ms"]
      timeout.IH
    by (simp add: handle_command_def watched_def)
next
  case (woken s t1 t2 fs tm)
  let ?x = "timer_tx (sys_broker s) ! taken s" and ?A = "armed (thread s) \<union> set (timeouts s)"
  have split: "drop (taken s) (timer_tx (sys_broker s)) =
      ?x # drop (Suc (taken s)) (timer_tx (sys_broker s))"
    using woken.hyps by (simp add: Cons_nth_drop_Suc)
  have "arm_step ?x ?A \<subseteq> armed tm \<union> set (timeouts s @ fs)"
    using timer_iter_armed [OF woken.hyps(5)]
    by (cases ?x) (auto simp: timer_handle_def)
  from fold_arm_step_mono [OF this] woken.IH woken.hyps(2) split show ?case
    by (fastforce simp: watched_def)
next
  case (expired s dl m q t1 t2 fs tm)
  have "armed (thread s) \<union> set (timeouts s) \<subseteq> armed tm \<union> set (timeouts s @ fs)"
    using timer_iter_armed [OF expired.hyps(6)] by (auto simp: timer_handle_def)
  from fold_arm_step_mono [OF this] expired.IH show ?case
    by (fastforce simp: watched_def)
qed

lemma sys_reach_timer: "sys_reach s \<Longrightarrow> timer_inv (now s) (thread s)"
proof (induction rule: sys_reach.induct)
  case (init uuid mode guarantee t)
  then show ?case by (simp add: timer_inv_def timer_init_def)
next
  case (woken s t1 t2 fs tm)
  then show ?case by (simp add: timer_iter_inv)
next
  case (expired s dl m q t1 t2 fs tm)
  then show ?case by (simp add: timer_iter_inv)
qed simp_all

end
