(* ===== verification/Broker_Properties.thy ===== *)
theory Broker_Properties
  imports Broker_Timers
begin

text \<open>
  The properties of the synchronous broker over all reachable states: its tables, the routing of
  each send mode, the buffer, acknowledgements, resends and message ids, and the broker together
  with its timer thread.  The lemmas are those of the theories \<open>Broker\<close>, \<open>Broker_Delivery\<close> and
  \<open>Broker_Timers\<close>; the state \<open>demo\<close> has two connected peers and serves the concrete instances.
\<close>

lemma reach_conn: "broker_reach b \<Longrightarrow> conn_inv b"
  by (rule ci.inv_reach)

lemma reach_pend: "broker_reach b \<Longrightarrow> pend_inv b"
  by (rule pi.inv_reach)

lemma handle_command_Send: "handle_command (Send t p) = handle_send t p"
  by (simp add: fun_eq_iff handle_command_def)

lemma budget_bound:
  "(\<forall>(m, pm) \<in> set ps. p_retries pm \<le> MAX_RETRIES) \<Longrightarrow>
   sum_list (map (\<lambda>(m, pm). unat (p_retries pm) + 1) ps) \<le> 6 * length ps"
  by (induction ps) (auto simp: MAX_RETRIES_def word_le_nat_alt)


section \<open>A broker with two peers\<close>

definition peer :: "nat \<Rightarrow> identity" where
  "peer n = replicate 16 (word_of_nat n)"

definition demo :: "SendMode \<Rightarrow> DeliveryGuarantee \<Rightarrow> broker" where
  "demo mode guarantee =
     handle_command (ConnectionUp (peer 2) 2 12)
       (handle_command (ConnectionUp (peer 1) 1 11)
         (broker_new mode guarantee (replicate 16 0)))"

lemma peer_id [simp]: "is_id (peer n)"
  by (simp add: peer_def is_id_def)

lemma peer_12 [simp]: "peer (Suc 0) \<noteq> peer 2" "peer 2 \<noteq> peer (Suc 0)"
  by (simp_all add: peer_def)

lemma demo_eq:
  "demo mode guarantee =
     (broker_new mode guarantee (replicate 16 0))
       \<lparr>conns := [(peer 1, 1), (peer 2, 2)], order := [peer 1, peer 2],
        accepts := [(11, True), (12, True)]\<rparr>"
  by (simp add: demo_def handle_command_def handle_up_def broker_new_def hm_get_def hm_insert_def)

lemma demo_reach: "broker_reach (demo mode guarantee)"
proof -
  let ?b = "broker_new mode guarantee (replicate 16 0)"
  let ?c = "handle_command (ConnectionUp (peer 1) 1 11) ?b"
  have "broker_reach ?b" by (rule broker_reach.init) simp
  then have "broker_reach ?c"
    by (rule broker_reach.step) (simp add: command_ok_def broker_new_def)
  then show ?thesis unfolding demo_def
    by (rule broker_reach.step)
      (simp add: command_ok_def handle_command_def handle_up_def broker_new_def hm_insert_def hm_get_def)
qed

lemma demo_fields [simp]:
  "conns (demo mode guarantee) = [(peer (Suc 0), 1), (peer 2, 2)]"
  "order (demo mode guarantee) = [peer (Suc 0), peer 2]"
  "send_mode (demo mode guarantee) = mode" "delivery (demo mode guarantee) = guarantee"
  "rr_cursor (demo mode guarantee) = 0" "buffer (demo mode guarantee) = []"
  "pending (demo mode guarantee) = []" "salt (demo mode guarantee) = replicate 8 0"
  "next_id (demo mode guarantee) = 0" "writers (demo mode guarantee) c = []"
  "timer_tx (demo mode guarantee) = []" "recv_tx (demo mode guarantee) = []"
  by (simp_all add: demo_eq broker_new_def timers_spawn_def)


section \<open>The tables\<close>

text \<open>C10. In every reachable state of the broker the connection map and the round-robin order hold the
  same identities without duplicates, no two peers share a writer channel, the send buffer is empty
  while a peer is connected, and every unacknowledged message has an id of this broker, at most
  \<open>MAX_RETRIES\<close> retries left and an armed timer.\<close>

theorem broker_tables:
  assumes "broker_reach b"
  shows "hm_wf (conns b) \<and> distinct (map snd (conns b)) \<and>
    distinct (order b) \<and> set (order b) = hm_keys (conns b) \<and>
    (conns b = [] \<or> buffer b = []) \<and>
    (\<forall>m pm. hm_get (pending b) m = Some pm \<longrightarrow>
       is_id m \<and> take 8 m = salt b \<and> p_retries pm \<le> MAX_RETRIES \<and> m \<in> armed_after (timer_tx b))"
proof -
  have "is_id m \<and> take 8 m = salt b \<and> p_retries pm \<le> MAX_RETRIES \<and> m \<in> armed_after (timer_tx b)"
    if pm: "hm_get (pending b) m = Some pm" for m pm
  proof -
    have k: "m \<in> hm_keys (pending b)" using pm by (simp add: hm.keys_get)
    note inv = reach_pend [OF assms, unfolded pend_inv_def]
    from inv k obtain n where "m = nth_id b n" "length (salt b) = 8" by blast
    then have "is_id m" "take 8 m = salt b" by (simp_all add: nth_id_def is_id_def)
    moreover have "p_retries pm \<le> MAX_RETRIES" using inv hm_get_in_set [OF pm] by blast
    ultimately show ?thesis using inv k by blast
  qed
  then show ?thesis using reach_conn [OF assms] by (auto simp: conn_inv_def)
qed

theorem broker_tables_witness:
  "broker_reach (handle_command (Send None [7]) (demo RoundRobin AtLeastOnce)) \<and>
   replicate 8 0 @ u64_to_be_bytes 0 \<in> armed_after (timer_tx (handle_command (Send None [7]) (demo RoundRobin AtLeastOnce)))"
proof -
  let ?b = "handle_command (Send None [7]) (demo RoundRobin AtLeastOnce)"
  have r: "broker_reach ?b"
    by (rule broker_reach.step [OF demo_reach]) (simp add: command_ok_def)
  have "hm_get (pending ?b) (replicate 8 0 @ u64_to_be_bytes 0) =
      Some \<lparr>p_identity = None, p_data = [7], p_retries = MAX_RETRIES\<rparr>"
    by (simp add: handle_command_def handle_send_def tracked_def hm_simps)
  with broker_tables [OF r] r show ?thesis by blast
qed

text \<open>A connection whose identity is already connected is rejected: the answer on its accept
  channel is \<open>false\<close> and nothing else changes.  A new identity is answered \<open>true\<close>, gets its writer in
  the map and the last place in the round-robin order, and the other peers keep theirs.\<close>

theorem connection_up_registers:
  assumes "broker_reach b" and "command_ok (ConnectionUp i w a) b"
  shows "if i \<in> hm_keys (conns b)
    then handle_command (ConnectionUp i w a) b = b\<lparr>accepts := accepts b @ [(a, False)]\<rparr>
    else let b' = handle_command (ConnectionUp i w a) b
      in accepts b' = accepts b @ [(a, True)] \<and> order b' = order b @ [i] \<and> buffer b' = [] \<and>
         (\<forall>j. hm_get (conns b') j = (if j = i then Some w else hm_get (conns b) j))"
proof (cases "hm_get (conns b) i")
  case None
  then have "i \<notin> hm_keys (conns b)" by (simp add: hm.keys_get)
  with None show ?thesis
    by (simp add: handle_command_def handle_up_new flush_fields hm_simps Let_def)
next
  case (Some c)
  then have "i \<in> hm_keys (conns b)" by (simp add: hm.keys_get)
  with Some show ?thesis by (simp add: handle_command_def handle_up_def)
qed

theorem connection_up_registers_witness:
  "accepts (handle_command (ConnectionUp (peer 2) 7 13) (demo Publish AtMostOnce)) =
     accepts (demo Publish AtMostOnce) @ [(13, False)]"
  using connection_up_registers [OF demo_reach, of "peer 2" 7 13 Publish AtMostOnce]
  by (simp add: command_ok_def hm_keys_def)


section \<open>Routing\<close>

text \<open>C5. Round robin: \<open>n\<close> messages sent while the connections do not change go to the connected
  peers in turn, starting at the cursor.  Every peer gets exactly the frames of its turns, in the
  order they were sent, and the numbers of frames of two peers differ by at most one.  The cursor
  is 64 bits wide; the statement is for the sends before it wraps around.\<close>

theorem round_robin_fair:
  assumes "broker_reach b" and "send_mode b = RoundRobin" and "conns b \<noteq> []"
    and "unat (rr_cursor b) + length ps < 2 ^ 64" and "j < length (order b)"
  shows "\<exists>c turns. hm_get (conns b) (order b ! j) = Some c \<and>
    turns = filter (\<lambda>n. (unat (rr_cursor b) + n) mod length (order b) = j) [0..<length ps] \<and>
    writers (send_all ps b) c = writers b c @ map (\<lambda>n. nth_frame b n (ps ! n)) turns \<and>
    length ps div length (order b) \<le> length turns \<and>
    length turns \<le> length ps div length (order b) + 1"
proof -
  have inv: "conn_inv b" by (rule reach_conn [OF assms(1)])
  define ch where "ch j = the (hm_get (conns b) (order b ! j))" for j
  have ch: "hm_get (conns b) (order b ! j) = Some (ch j)" if "j < length (order b)" for j
    using order_get [OF inv that] by (metis ch_def option.sel)
  from send_all_robin [OF inv assms(2-4) ch] assms(5) residue_count [OF assms(5)] ch [OF assms(5)]
  show ?thesis by blast
qed

theorem round_robin_fair_witness:
  "writers (send_all [[7], [8], [9]] (demo RoundRobin AtMostOnce)) 1 = [data [7], data [9]] \<and>
   writers (send_all [[7], [8], [9]] (demo RoundRobin AtMostOnce)) 2 = [data [8]]"
  using round_robin_fair [OF demo_reach, of RoundRobin AtMostOnce "[[7], [8], [9]]" 0]
    round_robin_fair [OF demo_reach, of RoundRobin AtMostOnce "[[7], [8], [9]]" 1]
  by (simp add: nth_frame_def hm_get_def)

text \<open>C26. Publish: a message without a target reaches every connected peer exactly once, as a plain
  DATA frame, in whatever order the hash map is visited; nothing else of the broker changes.  This
  holds for both delivery guarantees: a published message is never tracked or resent.\<close>

theorem publish_reaches_all:
  assumes "broker_reach b" and "send_mode b = Publish" and "conns b \<noteq> []"
  shows "handle_command (Send None p) b =
    b\<lparr>writers := \<lambda>c. if c \<in> snd ` set (conns b) then writers b c @ [data p] else writers b c\<rparr>"
  using transmit_publish [OF reach_conn [OF assms(1)] assms(2)] assms(3)
  by (simp add: handle_command_def handle_send_connected)

theorem publish_reaches_all_witness:
  "writers (handle_command (Send None [7]) (demo Publish AtLeastOnce)) 2 = [data [7]] \<and>
   pending (handle_command (Send None [7]) (demo Publish AtLeastOnce)) = []"
  using publish_reaches_all [OF demo_reach, of Publish AtLeastOnce "[7]"] by simp

text \<open>By-identity routing: a message for a connected peer is put on that peer's channel and no
  other, in one frame that decodes to the payload, with the acknowledgement request exactly under
  the at-least-once guarantee; the cursor does not move.  A message for a peer that is not
  connected while others are is put nowhere: at most once it is lost, at least once it waits for
  its resend timer.\<close>

theorem send_to_routes:
  assumes "broker_reach b" and "conns b \<noteq> []" and "16 + length p < 2 ^ 32 - 1"
  shows "let b' = handle_command (Send (Some i) p) b; m = salt b @ u64_to_be_bytes (next_id b);
             e = (if delivery b = AtLeastOnce then DataReq m p else Data p)
    in writers b' = (case hm_get (conns b) i of
           Some c \<Rightarrow> (writers b)(c := writers b c @ [encode e]) | None \<Rightarrow> writers b) \<and>
       sendable e \<and>
       (delivery b = AtMostOnce \<longrightarrow> pending b' = pending b) \<and>
       (delivery b = AtLeastOnce \<longrightarrow>
          hm_get (pending b') m = Some \<lparr>p_identity = Some i, p_data = p, p_retries = MAX_RETRIES\<rparr>)"
proof -
  have "length (salt b) = 8" using reach_pend [OF assms(1)] by (simp add: pend_inv_def)
  with assms(2,3) show ?thesis
    by (cases "delivery b")
      (auto simp: handle_command_def handle_send_connected transmit_to out_frame_def tracked_def
        is_id_def hm_simps Let_def split: option.split)
qed

theorem send_to_routes_witness:
  "writers (handle_command (Send (Some (peer 2)) [7]) (demo RoundRobin AtMostOnce)) 2 = [data [7]] \<and>
   writers (handle_command (Send (Some (peer 2)) [7]) (demo RoundRobin AtMostOnce)) 1 = []"
  using send_to_routes [OF demo_reach, of RoundRobin AtMostOnce "[7]" "peer 2"]
  by (simp add: hm_get_def Let_def)




section \<open>At-least-once delivery\<close>

text \<open>C3. Accounting: under the at-least-once guarantee and round robin, the multiset of messages that
  wait for an acknowledgement or in the buffer gains exactly the message of a \<open>Send\<close>, loses exactly
  the acknowledged message at an \<open>Ack\<close> of a pending id, loses a message at a timeout only when its
  retries are used up, and is left alone by every other command: connections coming and going, a
  flush or a resend neither lose nor duplicate a message (before the 64-bit id counter wraps).\<close>

theorem no_message_lost:
  assumes "broker_reach b" and "delivery b = AtLeastOnce" and "send_mode b = RoundRobin"
    and "command_ok cmd b" and "arms (handle_command cmd b) \<le> 2 ^ 64"
  shows "inflight (handle_command cmd b) =
    (case cmd of
       Send t p \<Rightarrow> add_mset (t, p) (inflight b)
     | Received i (Ack m) \<Rightarrow>
         (case hm_get (pending b) m of
            None \<Rightarrow> inflight b
          | Some pm \<Rightarrow> inflight b - {#(p_identity pm, p_data pm)#})
     | ResendTimeout m \<Rightarrow>
         (case hm_get (pending b) m of
            None \<Rightarrow> inflight b
          | Some pm \<Rightarrow>
              if p_retries pm = 0 then inflight b - {#(p_identity pm, p_data pm)#}
              else inflight b)
     | _ \<Rightarrow> inflight b)"
  using inflight_command [OF reach_conn [OF assms(1)] reach_pend [OF assms(1)] _ assms(4,5)] assms(2,3)
  by (simp add: reliable_def)

theorem no_message_lost_witness:
  "inflight (handle_command (Send None [7]) (demo RoundRobin AtLeastOnce)) =
     add_mset (None, [7]) (inflight (demo RoundRobin AtLeastOnce))"
  using no_message_lost [OF demo_reach, of RoundRobin AtLeastOnce "Send None [7]"]
  by (simp add: command_ok_def handle_command_def handle_send_connected arms_def tracked_def)

text \<open>C11. Resending stops: without new sends, the number of timeouts that find their message still
  pending is at most the retry budget, and each pending message contributes at most
  \<open>MAX_RETRIES + 1\<close> to it, so a peer that never acknowledges costs a bounded number of
  retransmissions.\<close>

theorem resends_bounded:
  assumes "broker_reach b" and "conns b \<noteq> []" and "arms b + 6 * length (pending b) \<le> 2 ^ 64"
  shows "hits ms b \<le> 6 * length (pending b)"
proof -
  have inv: "pend_inv b" by (rule reach_pend [OF assms(1)])
  then have "resend_budget b \<le> 6 * length (pending b)"
    unfolding resend_budget_def by (intro budget_bound) (auto simp: pend_inv_def)
  with hits_bound [OF inv assms(2)] assms(3) show ?thesis by (meson add_left_mono le_trans)
qed

theorem resends_bounded_witness:
  "hits (replicate 8 (replicate 8 0 @ u64_to_be_bytes 0)) (handle_command (Send None [7]) (demo RoundRobin AtLeastOnce)) \<le> 6"
proof -
  let ?b = "handle_command (Send None [7]) (demo RoundRobin AtLeastOnce)"
  have "broker_reach ?b"
    by (rule broker_reach.step [OF demo_reach]) (simp add: command_ok_def)
  from resends_bounded [OF this, of "replicate 8 (replicate 8 0 @ u64_to_be_bytes 0)"] show ?thesis
    by (simp add: handle_command_def handle_send_connected tracked_def arms_def hm_insert_def)
qed

text \<open>Receiving DATA_REQ hands the payload to the application with the sender's identity and puts
  exactly one ACK, for that id, on the connection the request came in on; receiving DATA does the
  same without an ACK; the other kinds deliver nothing.\<close>

theorem received_data_delivered_and_acked:
  assumes "broker_reach b" and "hm_get (conns b) i = Some c"
  shows "handle_command (Received i (Data p)) b = b\<lparr>recv_tx := recv_tx b @ [(i, p)]\<rparr> \<and>
    handle_command (Received i (DataReq m p)) b =
      b\<lparr>recv_tx := recv_tx b @ [(i, p)], writers := (writers b)(c := writers b c @ [encode (Ack m)])\<rparr> \<and>
    recv_tx (handle_command (Received i (Ack m)) b) = recv_tx b \<and>
    handle_command (Received i Heartbeat) b = b \<and>
    handle_command (Received i (Hello v j)) b = b"
  using assms(2) by (simp add: handle_command_def handle_received_def route_def tx_send_def)

theorem received_data_delivered_and_acked_witness:
  "writers (handle_command (Received (peer 1) (DataReq (peer 9) [7])) (demo Publish AtMostOnce)) 1 =
     [ack (peer 9)]"
  using received_data_delivered_and_acked [OF demo_reach, of Publish AtMostOnce "peer 1" 1 "[7]" "peer 9"]
  by (simp add: hm_get_def)

text \<open>Message ids are never reused: in every reachable state the ids armed so far, one for each
  transmission that asks for an acknowledgement, are pairwise distinct as long as fewer than
  \<open>2 ^ 64\<close> of them have been issued.\<close>

theorem message_ids_unique:
  assumes "broker_reach b" and "arms b \<le> 2 ^ 64"
  shows "distinct (armed_ids (timer_tx b))"
  using armed_ids_distinct [OF idi.inv_reach [OF assms(1)] assms(2)] .

theorem message_ids_unique_witness:
  "distinct (armed_ids (timer_tx
     (handle_command (Send None [8]) (handle_command (Send None [7]) (demo RoundRobin AtLeastOnce)))))"
proof -
  let ?b = "handle_command (Send None [8]) (handle_command (Send None [7]) (demo RoundRobin AtLeastOnce))"
  have "broker_reach ?b"
    by (intro broker_reach.step demo_reach) (simp_all add: command_ok_def)
  then show ?thesis
    by (rule message_ids_unique)
      (simp add: arms_def handle_command_def handle_send_connected tracked_def)
qed


section \<open>The broker and its timer thread\<close>

text \<open>C4. The broker and the timer thread together, under every interleaving of their steps and every
  timing: each unacknowledged message is watched, that is, its id is armed in the thread (with a
  deadline at most \<open>RESEND_TIMEOUT\<close> ahead), or an \<open>Arm\<close> for it is in the channel to the thread, or
  its timeout is in the channel to the broker.  No message waits for an acknowledgement forever
  without a resend.\<close>

theorem pending_always_watched:
  assumes "sys_reach s" and "hm_get (pending (sys_broker s)) m = Some pm"
  shows "(\<exists>dl. (dl, m) \<in> set (deadlines (thread s)) \<and> m \<in> armed (thread s) \<and>
      dl \<le> now s + RESEND_TIMEOUT) \<or>
    Arm m \<in> set (drop (taken s) (timer_tx (sys_broker s))) \<or> m \<in> set (timeouts s)"
proof -
  have "m \<in> hm_keys (pending (sys_broker s))" by (simp add: hm.keys_get assms(2))
  then have "m \<in> watched s" using sys_reach_watched [OF assms(1)] by blast
  then have "m \<in> armed (thread s) \<union> set (timeouts s) \<or>
      Arm m \<in> set (drop (taken s) (timer_tx (sys_broker s)))"
    unfolding watched_def by (rule fold_arm_step_origin)
  moreover have "\<exists>dl. (dl, m) \<in> set (deadlines (thread s)) \<and> dl \<le> now s + RESEND_TIMEOUT"
    if "m \<in> armed (thread s)"
    using timer_inv_deadline [OF sys_reach_timer [OF assms(1)] that] .
  ultimately show ?thesis by blast
qed

theorem pending_always_watched_witness:
  "\<exists>s m pm. sys_reach s \<and> hm_get (pending (sys_broker s)) m = Some pm \<and>
     Arm m \<in> set (drop (taken s) (timer_tx (sys_broker s)))"
proof -
  let ?b0 = "broker_new RoundRobin AtLeastOnce (replicate 16 0)"
  let ?s = "\<lambda>b. \<lparr>sys_broker = b, taken = 0, thread = timer_init, now = 0, timeouts = []\<rparr>"
  let ?b1 = "handle_command (ConnectionUp (peer 1) 1 11) ?b0"
  let ?b2 = "handle_command (Send None [7]) ?b1"
  let ?m = "replicate 8 0 @ u64_to_be_bytes 0"
  have "sys_reach (?s ?b0)" by (rule sys_reach.init) simp
  from sys_reach.command [OF this, of "ConnectionUp (peer 1) 1 11"] have "sys_reach (?s ?b1)"
    by (simp add: command_ok_def broker_new_def)
  from sys_reach.command [OF this, of "Send None [7]"] have r: "sys_reach (?s ?b2)"
    by (simp add: command_ok_def)
  have pm: "hm_get (pending (sys_broker (?s ?b2))) ?m =
      Some \<lparr>p_identity = None, p_data = [7], p_retries = MAX_RETRIES\<rparr>"
    by (simp add: handle_command_def handle_up_def handle_send_def broker_new_def tracked_def hm_simps)
  from pending_always_watched [OF r pm] have
    "Arm ?m \<in> set (drop (taken (?s ?b2)) (timer_tx (sys_broker (?s ?b2))))"
    by (auto simp: timer_init_def)
  with r pm show ?thesis by blast
qed

end
