(* ===== verification/Socket_Close.thy ===== *)
theory Socket_Close
  imports Socket
begin

text \<open>
  Closing a socket while its connections come and go.  The threads of a socket run concurrently:
  the application sends and closes, the broker takes commands, and every connection runs
  \<open>handle_connection\<close>, which registers its socket, announces the peer to the broker, waits for the
  answer, forwards what it reads, and takes its socket out of the registry when it ends.  The
  steps of all of them are interleaved in every way by the relation \<open>world_step\<close>; each is an
  operation of \<open>Socket\<close>, \<open>Conn_Channel\<close> or \<open>Broker\<close>.

  The question is whether \<open>close\<close>, which shuts down the sockets in the registry once, misses a
  connection whose thread it then waits for.
\<close>

datatype phase = Starting | Waiting | Serving

record handler =
  h_reg :: u64
  h_sock :: chan
  h_phase :: phase
  h_accept :: chan     \<comment> \<open>the channel on which the broker answers its registration\<close>
  h_early :: bool      \<comment> \<open>announced before \<open>close\<close> sent its command\<close>

datatype close_pc = NotClosing | Swapped | Flagged | CloseSent | SocketsShut

record ('srv, 'cli, 'name, 'addr) world =
  w_sock :: "('srv, 'cli, 'name, 'addr) inner"
  w_handlers :: "handler list"
  w_pc :: close_pc
  w_shut :: "chan set"     \<comment> \<open>the sockets that \<open>shutdown_all\<close> shut down\<close>
  w_chan :: chan           \<comment> \<open>the next new channel\<close>
  w_opened :: nat          \<comment> \<open>the connections made so far\<close>

definition closing :: "close_pc \<Rightarrow> bool" where
  "closing pc \<longleftrightarrow> pc = CloseSent \<or> pc = SocketsShut"

text \<open>What other threads send: traffic of connections, notices, and expired timers.\<close>

definition chatter :: "command \<Rightarrow> bool" where
  "chatter c = (case c of Received _ _ \<Rightarrow> True | ConnectionDown _ \<Rightarrow> True | ResendTimeout _ \<Rightarrow> True | Send _ _ \<Rightarrow> True | _ \<Rightarrow> False)"

inductive world_step :: "('srv, 'cli, 'name, 'addr) world \<Rightarrow> ('srv, 'cli, 'name, 'addr) world \<Rightarrow> bool" where
  sending: "chatter c \<Longrightarrow> world_step w (w\<lparr>w_sock := snd (sock_command c (w_sock w))\<rparr>)"
| binding: "world_step w (w\<lparr>w_sock := snd (bind_with ls la a (w_sock w))\<rparr>)"
| connecting: "world_step w (w\<lparr>w_sock := snd (connect_with addrs cn (w_sock w))\<rparr>)"
| brokering: "world_step w (w\<lparr>w_sock := broker_turn (w_sock w)\<rparr>)"
| arriving: "reg_register sock (in_registry (w_sock w)) = (i, reg) \<Longrightarrow>
    world_step w (w\<lparr>w_sock := (w_sock w)\<lparr>in_registry := reg\<rparr>, w_opened := w_opened w + 1,
      w_handlers := w_handlers w @ [\<lparr>h_reg = i, h_sock = sock, h_phase = Starting, h_accept = 0, h_early = False\<rparr>]\<rparr>)"
| announcing: "w_handlers w = hs @ h # hs' \<Longrightarrow> h_phase h = Starting \<Longrightarrow>
    sock_command (ConnectionUp peer (w_chan w) (Suc (w_chan w))) (w_sock w) = (True, s) \<Longrightarrow>
    world_step w (w\<lparr>w_sock := s, w_chan := w_chan w + 2, w_handlers := hs @ h\<lparr>h_phase := Waiting,
      h_accept := Suc (w_chan w), h_early := \<not> closing (w_pc w)\<rparr> # hs'\<rparr>)"
| accepted: "w_handlers w = hs @ h # hs' \<Longrightarrow> h_phase h = Waiting \<Longrightarrow>
    (h_accept h, True) \<in> set (accepts (in_broker (w_sock w))) \<Longrightarrow>
    world_step w (w\<lparr>w_handlers := hs @ h\<lparr>h_phase := Serving\<rparr> # hs'\<rparr>)"
| leaving: "w_handlers w = hs @ h # hs' \<Longrightarrow>
    world_step w (w\<lparr>w_sock := (w_sock w)\<lparr>in_registry := reg_deregister (h_reg h) (in_registry (w_sock w))\<rparr>,
      w_handlers := hs @ hs'\<rparr>)"
| swapping: "close_swap (w_sock w) = (False, s) \<Longrightarrow> world_step w (w\<lparr>w_sock := s, w_pc := Swapped\<rparr>)"
| flagging: "w_pc w = Swapped \<Longrightarrow> world_step w (w\<lparr>w_sock := close_flag (w_sock w), w_pc := Flagged\<rparr>)"
| ordering: "w_pc w = Flagged \<Longrightarrow> world_step w (w\<lparr>w_sock := close_send (w_sock w), w_pc := CloseSent\<rparr>)"
| shutting: "w_pc w = CloseSent \<Longrightarrow>
    world_step w (w\<lparr>w_shut := set (close_sockets (w_sock w)), w_pc := SocketsShut\<rparr>)"

inductive world_reach :: "('srv, 'cli, 'name, 'addr) world \<Rightarrow> bool" where
  built: "world_reach \<lparr>w_sock = build i uuid b, w_handlers = [], w_pc = NotClosing, w_shut = {}, w_chan = 0,
    w_opened = 0\<rparr>"
| stepped: "world_reach w \<Longrightarrow> world_step w w' \<Longrightarrow> world_reach w'"


section \<open>The registry holds exactly the running connections\<close>

definition registered :: "('srv, 'cli, 'name, 'addr) world \<Rightarrow> bool" where
  "registered w \<longleftrightarrow> (w_opened w < 2 ^ 64 \<longrightarrow>
     unat (reg_next (in_registry (w_sock w))) = w_opened w \<and>
     mset (reg_inner (in_registry (w_sock w))) = mset (map (\<lambda>h. (h_reg h, h_sock h)) (w_handlers w)) \<and>
     hm_wf (reg_inner (in_registry (w_sock w))) \<and> (\<forall>h \<in> set (w_handlers w). unat (h_reg h) < w_opened w))"

lemma sock_command_fields [simp]:
  "in_registry (snd (sock_command c s)) = in_registry s" "in_closed (snd (sock_command c s)) = in_closed s"
  "in_broker (snd (sock_command c s)) = in_broker s" "in_running (snd (sock_command c s)) = in_running s"
  "in_cmds (snd (sock_command c s)) = (if in_running s then in_cmds s @ [c] else in_cmds s)"
  by (simp_all add: sock_command_def)

lemma bind_with_fields [simp]:
  "in_registry (snd (bind_with ls la a s)) = in_registry s" "in_closed (snd (bind_with ls la a s)) = in_closed s"
  "in_broker (snd (bind_with ls la a s)) = in_broker s" "in_running (snd (bind_with ls la a s)) = in_running s"
  "in_cmds (snd (bind_with ls la a s)) = in_cmds s"
  by (simp_all add: bind_with_def split: sum.split)

lemma connect_with_fields [simp]:
  "in_registry (snd (connect_with as c s)) = in_registry s" "in_closed (snd (connect_with as c s)) = in_closed s"
  "in_broker (snd (connect_with as c s)) = in_broker s" "in_running (snd (connect_with as c s)) = in_running s"
  "in_cmds (snd (connect_with as c s)) = in_cmds s"
  by (simp_all add: connect_with_def split: sum.split list.split)

lemma broker_turn_fields [simp]:
  "in_registry (broker_turn s) = in_registry s" "in_closed (broker_turn s) = in_closed s"
  by (simp_all add: broker_turn_def split: list.split)

lemma close_step_fields [simp]:
  "in_registry (close_flag s) = in_registry s" "in_closed (close_flag s) = in_closed s"
  "in_broker (close_flag s) = in_broker s" "in_running (close_flag s) = in_running s" "in_cmds (close_flag s) = in_cmds s"
  "in_registry (close_send s) = in_registry s" "in_closed (close_send s) = in_closed s"
  "in_broker (close_send s) = in_broker s" "in_running (close_send s) = in_running s"
  "in_cmds (close_send s) = (if in_running s then in_cmds s @ [Close] else in_cmds s)"
  by (simp_all add: close_flag_def close_send_def)

lemma mset_eq_in: "mset xs = mset (map f ys) \<Longrightarrow> x \<in> set xs \<longleftrightarrow> x \<in> f ` set ys"
  by (metis set_map set_mset_mset)

lemma registered_arrives:
  assumes "registered w" and "reg_register sock (in_registry (w_sock w)) = (i, reg)" and "w_opened w + 1 < 2 ^ 64"
  shows "unat (reg_next reg) = w_opened w + 1 \<and> mset (reg_inner reg) = add_mset (i, sock) (mset (reg_inner (in_registry (w_sock w)))) \<and>
    hm_wf (reg_inner reg) \<and> unat i = w_opened w"
proof -
  let ?m = "reg_inner (in_registry (w_sock w))" and ?n = "reg_next (in_registry (w_sock w))"
  from assms have r: "unat ?n = w_opened w" "mset ?m = mset (map (\<lambda>h. (h_reg h, h_sock h)) (w_handlers w))" "hm_wf ?m"
    "\<forall>h \<in> set (w_handlers w). unat (h_reg h) < w_opened w" by (auto simp: registered_def)
  have "(?n, v) \<notin> set ?m" for v using mset_eq_in [OF r(2)] r(1,4) by auto
  then have none: "hm_get ?m ?n = None" using hm_get_in_set by (metis not_None_eq)
  have "unat (?n + 1) = w_opened w + 1" using assms(3) r(1) by (simp add: unat_plus_if')
  moreover have "hm_insert ?n sock ?m = ?m @ [(?n, sock)]" using none by (rule hm_insert_new)
  moreover have "hm_wf (hm_insert ?n sock ?m)" using r(3) by (rule hm.inv_insert)
  ultimately show ?thesis using assms(2) r(1) by (auto simp: reg_register_def)
qed

lemma registered_leaves:
  assumes "mset m = mset (map (\<lambda>h. (h_reg h, h_sock h)) (hs @ h # hs'))" and "hm_wf m"
  shows "mset (hm_remove (h_reg h) m) = mset (map (\<lambda>h. (h_reg h, h_sock h)) (hs @ hs'))" and "hm_wf (hm_remove (h_reg h) m)"
proof -
  have "(h_reg h, h_sock h) \<in> set m" using mset_eq_in [OF assms(1)] by auto
  then have "hm_get m (h_reg h) = Some (h_sock h)" using assms(2) by (simp add: hm_get_def hm_wf_def)
  with mset_hm_remove [OF assms(2)] assms(1)
  show "mset (hm_remove (h_reg h) m) = mset (map (\<lambda>h. (h_reg h, h_sock h)) (hs @ hs'))" by fastforce
  show "hm_wf (hm_remove (h_reg h) m)" using assms(2) by (rule hm.inv_remove)
qed

lemma registered_step:
  assumes "world_step w w'" and "registered w"
  shows "registered w'"
  using assms
proof cases
  case (arriving sock i reg)
  then show ?thesis
    using registered_arrives [OF assms(2) arriving(2)] assms(2) by (auto simp: registered_def)
next
  case (leaving hs h hs')
  then show ?thesis
    using registered_leaves [of _ hs h hs'] assms(2) by (auto simp: registered_def reg_deregister_def)
qed (auto simp: registered_def sock_command_def close_swap_def split: if_splits)



section \<open>The command that closes the broker\<close>

text \<open>The accept channels of the registrations that the broker will still answer.\<close>

definition up_chans :: "command list \<Rightarrow> chan set" where
  "up_chans cs = {a. \<exists>i wr. ConnectionUp i wr a \<in> set cs}"

definition to_answer :: "('srv, 'cli, 'name, 'addr) world \<Rightarrow> chan set" where
  "to_answer w = fst ` set (accepts (in_broker (w_sock w))) \<union>
     (if in_running (w_sock w) then up_chans (takeWhile (\<lambda>c. c \<noteq> Close) (in_cmds (w_sock w))) else {})"

text \<open>A connection announced behind the \<open>Close\<close> is never answered.\<close>

definition handler_ok :: "bool \<Rightarrow> chan \<Rightarrow> chan set \<Rightarrow> handler \<Rightarrow> bool" where
  "handler_ok late n answers h =
     (case h_phase h of
        Starting \<Rightarrow> \<not> h_early h
      | Waiting \<Rightarrow> h_accept h < n \<and> (h_early h \<or> late \<and> h_accept h \<notin> answers)
      | Serving \<Rightarrow> h_early h)"

definition ordered :: "('srv, 'cli, 'name, 'addr) world \<Rightarrow> bool" where
  "ordered w \<longleftrightarrow>
     (in_closed (w_sock w) \<longleftrightarrow> w_pc w \<noteq> NotClosing) \<and>
     (\<not> closing (w_pc w) \<longrightarrow> in_running (w_sock w) \<and> Close \<notin> set (in_cmds (w_sock w))) \<and>
     (closing (w_pc w) \<longrightarrow> in_running (w_sock w) \<longrightarrow> Close \<in> set (in_cmds (w_sock w))) \<and>
     (\<forall>a \<in> to_answer w. a < w_chan w) \<and>
     (\<forall>h \<in> set (w_handlers w). handler_ok (closing (w_pc w)) (w_chan w) (to_answer w) h)"

lemma handler_ok_mono:
  "handler_ok late n A h \<Longrightarrow> n \<le> n' \<Longrightarrow> A' \<subseteq> A \<union> {n..} \<Longrightarrow> handler_ok late n' A' h"
  by (auto simp: handler_ok_def split: phase.splits)

lemma handler_ok_late: "handler_ok late n A h \<Longrightarrow> handler_ok True n A h"
  by (auto simp: handler_ok_def split: phase.splits)

lemma up_chans_simps [simp]:
  "up_chans [] = {}"
  "up_chans (c # cs) = (case c of ConnectionUp _ _ a \<Rightarrow> insert a (up_chans cs) | _ \<Rightarrow> up_chans cs)"
  "up_chans (cs @ ds) = up_chans cs \<union> up_chans ds"
  by (auto simp: up_chans_def split: command.split)

lemma accepts_handle_command:
  "fst ` set (accepts (handle_command c b)) =
   fst ` set (accepts b) \<union> (case c of ConnectionUp _ _ a \<Rightarrow> {a} | _ \<Rightarrow> {})"
proof (cases c)
  case (ConnectionUp i wr a)
  show ?thesis
  proof (cases "hm_get (conns b) i")
    case None
    with ConnectionUp show ?thesis by (simp add: handle_command_def handle_up_new flush_fields)
  next
    case (Some x)
    with ConnectionUp show ?thesis by (simp add: handle_command_def handle_up_def)
  qed
qed (auto simp: handle_command_def handle_send_def handle_down_def handle_received_def handle_resend_def Let_def
    split: envelope.split option.split)

lemma to_answer_turn: "to_answer (w\<lparr>w_sock := broker_turn (w_sock w)\<rparr>) = to_answer w"
  by (auto simp: to_answer_def broker_turn_def accepts_handle_command split: list.split command.split)

lemma up_chans_until_close:
  "up_chans (takeWhile (\<lambda>c. c \<noteq> Close) (cs @ [c])) =
   up_chans (takeWhile (\<lambda>c. c \<noteq> Close) cs) \<union> (if Close \<in> set cs then {} else up_chans [c])"
  by (induction cs) (auto split: command.split)

lemma to_answer_command:
  "to_answer (w\<lparr>w_sock := snd (sock_command c (w_sock w))\<rparr>) = to_answer w \<union>
   (if in_running (w_sock w) \<and> Close \<notin> set (in_cmds (w_sock w)) then up_chans [c] else {})"
  by (auto simp: to_answer_def up_chans_until_close)

lemma chatter_quiet: "chatter c \<Longrightarrow> up_chans [c] = {} \<and> c \<noteq> Close"
  by (cases c) (auto simp: chatter_def)

lemma to_answer_cong: "w_sock w' = w_sock w \<Longrightarrow> to_answer w' = to_answer w"
  by (simp add: to_answer_def)

lemma broker_turn_close:
  "in_running (broker_turn s) \<Longrightarrow> in_running s \<and> (Close \<in> set (in_cmds (broker_turn s)) \<longleftrightarrow> Close \<in> set (in_cmds s))"
  "Close \<notin> set (in_cmds s) \<Longrightarrow> in_running (broker_turn s) = in_running s"
  by (auto simp: broker_turn_def split: list.splits if_splits)

text \<open>Steps that touch neither the broker nor its channel.\<close>

lemma ordered_same:
  assumes "ordered w" and "in_broker (w_sock w') = in_broker (w_sock w)" "in_running (w_sock w') = in_running (w_sock w)"
      "in_cmds (w_sock w') = in_cmds (w_sock w)" "w_chan w' = w_chan w" "closing (w_pc w') = closing (w_pc w)"
      "in_closed (w_sock w') \<longleftrightarrow> w_pc w' \<noteq> NotClosing"
    and "\<And>h. h \<in> set (w_handlers w') \<Longrightarrow> h \<in> set (w_handlers w) \<or> h_phase h = Starting \<and> \<not> h_early h"
  shows "ordered w'"
proof -
  have ta: "to_answer w' = to_answer w" by (simp add: to_answer_def assms(2-4))
  have "handler_ok (closing (w_pc w)) (w_chan w) (to_answer w) h" if "h \<in> set (w_handlers w')" for h
    using assms(8) [OF that] assms(1) by (auto simp: ordered_def handler_ok_def)
  with assms(1) show ?thesis unfolding ordered_def ta by (simp add: assms(2-7))
qed

lemma ordered_announcing:
  assumes "ordered w" and hs: "w_handlers w = hs @ h # hs'"
    and "sock_command (ConnectionUp peer (w_chan w) (Suc (w_chan w))) (w_sock w) = (True, s)"
    and w': "w' = w\<lparr>w_sock := s, w_chan := w_chan w + 2, w_handlers := hs @ h\<lparr>h_phase := Waiting,
      h_accept := Suc (w_chan w), h_early := \<not> closing (w_pc w)\<rparr> # hs'\<rparr>"
  shows "ordered w'"
proof -
  have s: "s = snd (sock_command (ConnectionUp peer (w_chan w) (Suc (w_chan w))) (w_sock w))" "in_running (w_sock w)"
    using assms(3) by (auto simp: sock_command_def split: if_splits)
  have "to_answer w' = to_answer (w\<lparr>w_sock := s\<rparr>)" by (rule to_answer_cong) (simp add: w')
  also have "\<dots> = to_answer w \<union> (if closing (w_pc w) then {} else {Suc (w_chan w)})"
    unfolding s(1) to_answer_command using assms(1) s(2) by (auto simp: ordered_def)
  finally have ta: "to_answer w' = to_answer w \<union> (if closing (w_pc w) then {} else {Suc (w_chan w)})" .
  have "handler_ok (closing (w_pc w)) (w_chan w + 2) (to_answer w') g" if "g \<in> set (hs @ hs')" for g
  proof (rule handler_ok_mono)
    show "handler_ok (closing (w_pc w)) (w_chan w) (to_answer w) g"
      using assms(1) that by (auto simp: ordered_def hs)
  qed (auto simp: ta)
  moreover have "Suc (w_chan w) \<notin> to_answer w" using assms(1) by (force simp: ordered_def)
  then have "handler_ok (closing (w_pc w)) (w_chan w + 2) (to_answer w')
      (h\<lparr>h_phase := Waiting, h_accept := Suc (w_chan w), h_early := \<not> closing (w_pc w)\<rparr>)"
    by (simp add: handler_ok_def ta)
  ultimately have "\<forall>g \<in> set (w_handlers w'). handler_ok (closing (w_pc w')) (w_chan w') (to_answer w') g"
    by (auto simp: w')
  moreover have "\<forall>a \<in> to_answer w'. a < w_chan w'" using assms(1) ta by (auto simp: ordered_def w')
  ultimately show ?thesis using assms(1) s unfolding ordered_def by (simp add: w')
qed

lemma ordered_step:
  assumes "world_step w w'" and "ordered w"
  shows "ordered w'"
  using assms
proof cases
  case brokering
  then show ?thesis
    using assms(2) broker_turn_close [of "w_sock w"] by (auto simp: ordered_def to_answer_turn)
next
  case (announcing hs h hs' peer s)
  from assms(2) announcing(2,4,1) show ?thesis by (rule ordered_announcing)
next
  case (accepted hs h hs')
  have ta: "to_answer w' = to_answer w" by (rule to_answer_cong) (simp add: accepted(1))
  have "h_accept h \<in> to_answer w" using accepted(4) by (force simp: to_answer_def)
  with assms(2) accepted(3) have "h_early h" by (auto simp: ordered_def accepted(2) handler_ok_def)
  with assms(2) ta show ?thesis by (auto simp: ordered_def accepted(1,2) handler_ok_def)
next
  case ordering
  have "to_answer w' = to_answer (w\<lparr>w_sock := close_send (w_sock w)\<rparr>)" by (rule to_answer_cong) (simp add: ordering(1))
  also have "\<dots> = to_answer w" unfolding close_send_def to_answer_command by simp
  finally show ?thesis
    using assms(2) ordering(2) by (auto simp: ordered_def ordering(1) closing_def intro: handler_ok_late)
next
  case (sending c)
  have "to_answer w' = to_answer w"
    unfolding sending(1) to_answer_command using chatter_quiet [OF sending(2)] by simp
  with assms(2) chatter_quiet [OF sending(2)] show ?thesis by (auto simp: ordered_def sending(1))
next
  case (swapping s)
  with assms(2) have "\<not> in_closed (w_sock w)" "w_pc w = NotClosing" by (auto simp: ordered_def close_swap_def)
  with swapping show ?thesis
    by (intro ordered_same [OF assms(2)]) (auto simp: close_swap_def closing_def)
qed (use assms(2) in \<open>intro ordered_same [OF assms(2)]; auto simp: closing_def ordered_def\<close>)+

lemma ordered_init: "ordered \<lparr>w_sock = build i uuid b, w_handlers = [], w_pc = NotClosing, w_shut = {}, w_chan = 0,
    w_opened = 0\<rparr>"
  by (simp add: ordered_def build_def broker_new_def closing_def to_answer_def)

lemma world_invs: "world_reach w \<Longrightarrow> ordered w \<and> registered w"
proof (induction rule: world_reach.induct)
  case (built i uuid b)
  show ?case
    by (rule conjI [OF ordered_init]) (simp add: registered_def build_def registry_new_def hm.inv_empty)
qed (blast intro: ordered_step registered_step)

text \<open>Connections announced before the \<open>Close\<close> are in the registry when it is shut down.\<close>

lemma early_shut:
  assumes "world_reach w"
  shows "w_opened w < 2 ^ 64 \<longrightarrow> w_pc w = SocketsShut \<longrightarrow> (\<forall>h \<in> set (w_handlers w). h_early h \<longrightarrow> h_sock h \<in> w_shut w)"
  using assms
proof (induction rule: world_reach.induct)
  case (stepped w w')
  from stepped(2) show ?case
  proof cases
    case shutting
    have "h_sock h \<in> snd ` set (reg_inner (in_registry (w_sock w)))" if "w_opened w < 2 ^ 64" "h \<in> set (w_handlers w)" for h
      using world_invs [OF stepped(1)] that mset_eq_in by (force simp: registered_def)
    then show ?thesis by (simp add: shutting(1) close_sockets_def reg_shutdown_all_def)
  next
    case (swapping s)
    then show ?thesis by simp
  qed (use stepped.IH in \<open>auto simp: closing_def\<close>)
qed simp

lemma broker_ends: "in_running s \<Longrightarrow> Close \<in> set (in_cmds s) \<Longrightarrow> \<exists>n. \<not> in_running ((broker_turn ^^ n) s)"
proof (induction "in_cmds s" arbitrary: s)
  case (Cons c cs)
  show ?case
  proof (cases "c = Close")
    case True
    with Cons.hyps(2) [symmetric] Cons.prems have "\<not> in_running ((broker_turn ^^ 1) s)"
      by (simp add: broker_turn_def)
    then show ?thesis by blast
  next
    case False
    have "in_cmds (broker_turn s) = cs" "in_running (broker_turn s)" "Close \<in> set (in_cmds (broker_turn s))"
      using False Cons.hyps(2) [symmetric] Cons.prems by (simp_all add: broker_turn_def)
    with Cons.hyps(1) [of "broker_turn s"] obtain n where "\<not> in_running ((broker_turn ^^ n) (broker_turn s))" by auto
    then have "\<not> in_running ((broker_turn ^^ Suc n) s)" by (simp add: funpow_swap1)
    then show ?thesis by blast
  qed
qed simp

text \<open>C8. \<open>close\<close> misses no connection, in any interleaving of the application, the broker and the threads of
  the connections, as long as fewer than 2 to the 64 connections were made: once it has shut down
  the registered sockets, the socket of every connection that the broker serves has been shut
  down; a connection that it missed was announced behind the \<open>Close\<close> or not at all, is not served,
  and gets no answer from the broker, which ends after the commands before the \<open>Close\<close>.\<close>

theorem close_misses_no_session:
  assumes "world_reach w" and "w_pc w = SocketsShut" and "w_opened w < 2 ^ 64" and "h \<in> set (w_handlers w)"
  shows "(h_sock h \<in> w_shut w \<or> h_phase h \<noteq> Serving \<and>
      (h_phase h = Waiting \<longrightarrow> h_accept h \<notin> fst ` set (accepts (in_broker (w_sock w))))) \<and>
    (\<exists>n. \<not> in_running ((broker_turn ^^ n) (w_sock w)))"
proof -
  have o: "ordered w" using world_invs [OF assms(1)] by blast
  then have "handler_ok True (w_chan w) (to_answer w) h" using assms(2,4) by (simp add: ordered_def closing_def)
  moreover have "h_sock h \<in> w_shut w" if "h_early h" using early_shut [OF assms(1)] assms(2-4) that by blast
  moreover have "\<exists>n. \<not> in_running ((broker_turn ^^ n) (w_sock w))"
    using o assms(2) broker_ends [of "w_sock w"]
    by (cases "in_running (w_sock w)") (auto simp: ordered_def closing_def intro: exI [of _ 0])
  ultimately show ?thesis by (auto simp: handler_ok_def to_answer_def split: phase.splits)
qed


text \<open>A connection that is made, announced and accepted, and then the socket is closed.\<close>

theorem close_misses_no_session_witness:
  "\<exists>(w :: (unit, unit, unit, nat) world) h. world_reach w \<and> h \<in> set (w_handlers w) \<and> h_phase h = Serving \<and>
     h_sock h = 7 \<and> 7 \<in> w_shut w"
proof -
  let ?w0 = "\<lparr>w_sock = build (replicate 16 1) (replicate 16 2) builder, w_handlers = [], w_pc = NotClosing,
    w_shut = {}, w_chan = 0, w_opened = 0\<rparr> :: (unit, unit, unit, nat) world"
  have r0: "world_reach ?w0" by (rule world_reach.built)
  obtain i reg where reg: "reg_register 7 (in_registry (w_sock ?w0)) = (i, reg)" by fastforce
  define h where "h = \<lparr>h_reg = i, h_sock = 7, h_phase = Starting, h_accept = 0, h_early = False\<rparr>"
  define w1 where "w1 = ?w0\<lparr>w_sock := (w_sock ?w0)\<lparr>in_registry := reg\<rparr>, w_opened := 0 + 1, w_handlers := [] @ [h]\<rparr>"
  have r1: "world_reach w1" unfolding w1_def h_def
    by (rule stepped [OF r0]) (use world_step.arriving [OF reg] in simp)
  obtain s2 where s2: "sock_command (ConnectionUp (replicate 16 3) (w_chan w1) (Suc (w_chan w1))) (w_sock w1) = (True, s2)"
    "in_cmds s2 = [ConnectionUp (replicate 16 3) 0 1]" "in_running s2" "in_broker s2 = broker_new RoundRobin AtMostOnce (replicate 16 2)" "\<not> in_closed s2"
    by (simp add: w1_def sock_command_def build_def builder_def)
  define h2 where "h2 = h\<lparr>h_phase := Waiting, h_accept := Suc (w_chan w1), h_early := \<not> closing (w_pc w1)\<rparr>"
  define w2 where "w2 = w1\<lparr>w_sock := s2, w_chan := w_chan w1 + 2, w_handlers := [] @ h2 # []\<rparr>"
  have r2: "world_reach w2" unfolding w2_def h2_def
    by (rule stepped [OF r1], rule world_step.announcing [OF _ _ s2(1)]) (simp_all add: w1_def h_def)
  define w3 where "w3 = w2\<lparr>w_sock := broker_turn (w_sock w2)\<rparr>"
  have r3: "world_reach w3" unfolding w3_def by (rule stepped [OF r2 world_step.brokering])
  have acc: "accepts (in_broker (w_sock w3)) = [(1, True)]" "in_closed (w_sock w3) = False"
    using s2(2-5) by (simp_all add: w3_def w2_def broker_turn_def handle_command_def handle_up_def broker_new_def hm.get_empty)
  define w4 where "w4 = w3\<lparr>w_handlers := [] @ h2\<lparr>h_phase := Serving\<rparr> # []\<rparr>"
  have r4: "world_reach w4" unfolding w4_def
    by (rule stepped [OF r3], rule world_step.accepted) (use acc in \<open>simp_all add: w3_def w2_def h2_def w1_def\<close>)
  obtain s5 where s5: "close_swap (w_sock w4) = (False, s5)" using acc(2) by (simp add: close_swap_def w4_def)
  define w5 where "w5 = w4\<lparr>w_sock := s5, w_pc := Swapped\<rparr>"
  define w6 where "w6 = w5\<lparr>w_sock := close_flag (w_sock w5), w_pc := Flagged\<rparr>"
  define w7 where "w7 = w6\<lparr>w_sock := close_send (w_sock w6), w_pc := CloseSent\<rparr>"
  define w8 where "w8 = w7\<lparr>w_shut := set (close_sockets (w_sock w7)), w_pc := SocketsShut\<rparr>"
  have "world_reach w5" unfolding w5_def by (rule stepped [OF r4 world_step.swapping [OF s5]])
  then have "world_reach w6" unfolding w6_def by (rule stepped [OF _ world_step.flagging]) (simp add: w5_def)
  then have "world_reach w7" unfolding w7_def by (rule stepped [OF _ world_step.ordering]) (simp add: w6_def)
  then have r8: "world_reach w8" unfolding w8_def by (rule stepped [OF _ world_step.shutting]) (simp add: w7_def)
  let ?h = "h2\<lparr>h_phase := Serving\<rparr>"
  have w8: "w_pc w8 = SocketsShut" "w_opened w8 < 2 ^ 64" "?h \<in> set (w_handlers w8)"
    by (simp_all add: w8_def w7_def w6_def w5_def w4_def w3_def w2_def w1_def)
  from close_misses_no_session [OF r8 w8] have "h_sock ?h \<in> w_shut w8" by simp
  with r8 w8(3) show ?thesis by (intro exI [of _ w8] exI [of _ ?h]) (simp add: h2_def h_def)
qed

end
