(* ===== verification/End_To_End.thy ===== *)
theory End_To_End
  imports Broker_Properties Socket_Close
begin

text \<open>
  From one application to another: the messages that a socket sends, as frames on the channel of a
  connection, as bytes that its writer puts on the wire, as commands of the session at the other
  end, and as messages of the broker there.  The lemmas follow the messages through the parts.
\<close>

section \<open>The sending socket\<close>

definition out_id :: "broker \<Rightarrow> nat \<Rightarrow> msg_id" where
  "out_id b n = salt b @ u64_to_be_bytes (next_id b + word_of_nat n)"

text \<open>The envelope of the \<open>n\<close>-th message sent from now on.\<close>

definition out_envelope :: "broker \<Rightarrow> nat \<Rightarrow> bytes \<Rightarrow> envelope" where
  "out_envelope b n p = (if delivery b = AtLeastOnce then DataReq (out_id b n) p else Data p)"

definition out_envelopes :: "broker \<Rightarrow> bytes list \<Rightarrow> envelope list" where
  "out_envelopes b ps = map (\<lambda>n. out_envelope b n (ps ! n)) [0..<length ps]"

lemma nth_frame_encode: "nth_frame b n p = encode (out_envelope b n p)"
  by (simp add: nth_frame_def out_envelope_def out_id_def)

lemma out_id_length: "length (salt b) = 8 \<Longrightarrow> is_id (out_id b n)"
  by (simp add: out_id_def is_id_def)

lemma out_envelopes_sendable:
  assumes "length (salt b) = 8" and "list_all (\<lambda>p. 17 + length p < 2 ^ 32) ps"
  shows "list_all sendable (out_envelopes b ps)"
  using assms out_id_length [OF assms(1)]
  by (auto simp: out_envelopes_def out_envelope_def list_all_length)

lemma single_order:
  assumes "conn_inv b" and "conns b = [(i, c)]"
  shows "order b = [i]"
proof -
  have "set (order b) = {i}" "distinct (order b)" using assms by (auto simp: conn_inv_def hm_keys_def)
  then have "length (order b) = 1" using distinct_card [of "order b"] by simp
  with \<open>set (order b) = {i}\<close> show ?thesis by (cases "order b") simp_all
qed

lemma send_all_single:
  assumes "conn_inv b" and "conns b = [(i, c)]" and "send_mode b = RoundRobin"
    and "unat (rr_cursor b) + length ps < 2 ^ 64"
  shows "writers (send_all ps b) c = writers b c @ map encode (out_envelopes b ps)"
proof -
  have o: "order b = [i]" using assms(1,2) by (rule single_order)
  have "\<And>j. j < length (order b) \<Longrightarrow> hm_get (conns b) (order b ! j) = Some ((\<lambda>_. c) j)"
    using assms(2) by (simp add: o hm_get_def)
  from send_all_robin [OF assms(1,3) _ assms(4) this] assms(2) show ?thesis
    by (simp add: o out_envelopes_def nth_frame_encode)
qed


section \<open>The wire\<close>

lemma written_envelopes:
  assumes "map snd (queued ws) = map encode es" and "list_all sendable es" and "list_all is_traffic es"
  shows "\<exists>fs. written ws = concat (map encode fs) \<and> filter is_traffic fs = es \<and> list_all sendable fs"
  using assms
proof (induction ws arbitrary: es)
  case Nil
  then show ?case by (intro exI [of _ "[]"]) simp
next
  case (Cons x ws)
  obtain t f where x: "x = (t, f)" by (cases x)
  show ?case
  proof (cases f)
    case None
    with Cons.IH [of es] Cons.prems x obtain fs where
      "written ws = concat (map encode fs)" "filter is_traffic fs = es" "list_all sendable fs" by auto
    moreover have "\<not> is_traffic Heartbeat" by (simp add: is_traffic_def)
    ultimately show ?thesis using None x by (intro exI [of _ "Heartbeat # fs"]) simp
  next
    case (Some g)
    with Cons.prems x obtain e es' where es: "es = e # es'" "g = encode e" by (cases es) auto
    with Cons.IH [of es'] Cons.prems Some x obtain fs where
      "written ws = concat (map encode fs)" "filter is_traffic fs = es'" "list_all sendable fs" by auto
    then show ?thesis using es Some x Cons.prems by (intro exI [of _ "e # fs"]) simp
  qed
qed


section \<open>The receiving socket\<close>

fun msg_payload :: "envelope \<Rightarrow> bytes" where
  "msg_payload (Data p) = p" | "msg_payload (DataReq m p) = p" | "msg_payload _ = []"

fun acked :: "envelope \<Rightarrow> msg_id list" where
  "acked (DataReq m p) = [m]" | "acked _ = []"

definition is_message :: "envelope \<Rightarrow> bool" where
  "is_message e = (case e of Data _ \<Rightarrow> True | DataReq _ _ \<Rightarrow> True | _ \<Rightarrow> False)"

lemma deliver_messages:
  assumes "hm_get (conns b) i = Some c" and "list_all is_message es"
  defines "b' \<equiv> fold handle_command (map (Received i) es) b"
  shows "recv_tx b' = recv_tx b @ map (\<lambda>e. (i, msg_payload e)) es \<and>
    writers b' c = writers b c @ map ack (concat (map acked es)) \<and> conns b' = conns b \<and> accepts b' = accepts b"
  using assms(1,2) unfolding b'_def
proof (induction es arbitrary: b)
  case (Cons e es)
  from Cons.prems Cons.IH [of "handle_command (Received i e) b"] show ?case
    by (cases e) (simp_all add: handle_command_def handle_received_def is_message_def writers_route_to)
qed simp

lemma out_envelopes_facts:
  "list_all is_message (out_envelopes b ps)" "list_all is_traffic (out_envelopes b ps)"
  "map msg_payload (out_envelopes b ps) = ps"
  "concat (map acked (out_envelopes b ps)) = (if delivery b = AtLeastOnce then map (out_id b) [0..<length ps] else [])"
  by (auto simp: out_envelopes_def out_envelope_def is_message_def is_traffic_def list_all_length
      comp_def map_nth concat_eq_Nil_conv intro: nth_equalityI split: if_splits)


text \<open>A session of a peer that is not connected yet: its messages come in, and then it is gone.\<close>

lemma session_delivers:
  assumes "hm_get (conns b) i = None" and "buffer b = []" and "writers b c = []" and "list_all is_message es"
    and b': "b' = fold handle_command (ConnectionUp i c a # map (Received i) es @ [ConnectionDown i]) b"
  shows "recv_tx b' = recv_tx b @ map (\<lambda>e. (i, msg_payload e)) es \<and> writers b' c = map ack (concat (map acked es)) \<and>
    hm_get (conns b') i = None \<and> accepts b' = accepts b @ [(a, True)]"
proof -
  let ?b = "handle_up i c a b"
  have up: "?b = b\<lparr>conns := hm_insert i c (conns b), order := order b @ [i], accepts := accepts b @ [(a, True)]\<rparr>"
    using assms(1,2) by (simp add: handle_up_def)
  then have "hm_get (conns ?b) i = Some c" by (simp add: hm.get_insert)
  from deliver_messages [OF this assms(4)] show ?thesis
    by (simp add: b' up assms(3) handle_command_def handle_down_def hm.get_remove)
qed


section \<open>Acknowledgements\<close>

lemma keys_send_all:
  assumes "tracked None b" and "conns b \<noteq> []"
  shows "hm_keys (pending (send_all ps b)) = hm_keys (pending b) \<union> out_id b ` {..<length ps}"
proof (induction ps rule: rev_induct)
  case (snoc p ps)
  let ?b = "send_all ps b"
  have "tracked None ?b" "conns ?b \<noteq> []" "salt ?b = salt b" "next_id ?b = next_id b + word_of_nat (length ps)"
    using assms send_all_fields [OF assms(2), of ps] by (auto simp: tracked_def)
  then show ?case
    using snoc by (auto simp: handle_send_connected out_id_def hm.keys_insert lessThan_Suc)
qed simp

lemma untracked_send_all: "\<not> tracked None b \<Longrightarrow> conns b \<noteq> [] \<Longrightarrow> pending (send_all ps b) = pending b"
  by (induction ps arbitrary: b) (auto simp: handle_send_connected tracked_def)

lemma keys_acks:
  "hm_keys (pending (fold handle_command (map (\<lambda>m. Received i (Ack m)) ms) b)) = hm_keys (pending b) - set ms"
proof (induction ms arbitrary: b)
  case (Cons m ms)
  have "hm_keys (pending (handle_command (Received i (Ack m)) b)) = hm_keys (pending b) - {m}"
    by (auto simp: handle_command_def handle_received_def hm.keys_remove hm.keys_get)
  with Cons show ?case by auto
qed simp

lemma acks_settle:
  assumes "conns b \<noteq> []" and "send_mode b = RoundRobin"
    and "ids = (if delivery b = AtLeastOnce then map (out_id b) [0..<length ps] else [])"
  shows "hm_keys (pending (fold handle_command (map (\<lambda>m. Received i (Ack m)) ids) (send_all ps b))) \<subseteq> hm_keys (pending b)"
proof (cases "tracked None b")
  case True
  then show ?thesis unfolding keys_acks keys_send_all [OF True assms(1)] by (auto simp: assms(3) tracked_def)
next
  case False
  then show ?thesis unfolding keys_acks untracked_send_all [OF False assms(1)] by blast
qed


section \<open>From application to application\<close>

lemma one_way:
  assumes "broker_reach a" and "conns a = [(B, c)]" and "send_mode a = RoundRobin" and "writers a c = []"
    and "unat (rr_cursor a) + length ps < 2 ^ 64" and "list_all (\<lambda>p. 17 + length p < 2 ^ 32) ps"
    and "wfaults w = []" and "outbound w = hello A" and "map snd (queue q) = writers (send_all ps a) c"
    and "sorted (clock w # map fst (queue q) @ [hangup q])"
    and "stream_steady s" and "wfaults s = []" and "inbound s = pre @ post" and "script_delay pre < HEARTBEAT_TIMEOUT"
    and "arrivals pre = hello A" and "arrivals pre @ arrivals post = outbound (plain_writer w q)"
    and "is_id A" and "is_id B" and "room k = None" and "answer k = Some True" and "sent k = []"
    and "sorted ((clock s + script_delay pre) # map fst (queue (feed_rx k)) @ [hangup (feed_rx k)])"
    and "hm_get (conns b) A = None" and "buffer b = []" and "writers b (fresh k) = []"
  shows "\<exists>k' s' v b'. plain_session True s k B = Some (k', s', Some v) \<and> b' = fold handle_command (sent k') b \<and>
    recv_tx b' = recv_tx b @ map (Pair A) ps \<and> (Suc (fresh k), True) \<in> set (accepts b') \<and> hm_get (conns b') A = None \<and>
    writers b' (fresh k) = map ack (if delivery a = AtLeastOnce then map (out_id a) [0..<length ps] else [])"
proof -
  have inv: "conn_inv a" and salt: "length (salt a) = 8"
    using assms(1) by (auto intro: reach_conn dest: reach_pend simp: pend_inv_def)
  let ?es = "out_envelopes a ps"
  have frames: "writers (send_all ps a) c = map encode ?es"
    using send_all_single [OF inv assms(2,3,5)] assms(4) by simp
  have sendable: "list_all sendable ?es" using salt assms(6) by (rule out_envelopes_sendable)
  obtain ws where ws: "outbound (plain_writer w q) = hello A @ written ws" "queued ws = queue q"
    using plain_writer_schedule [OF assms(7,10)] assms(8) by auto
  obtain fs where fs: "written ws = concat (map encode fs)" "filter is_traffic fs = ?es" "list_all sendable fs"
    using written_envelopes [OF _ sendable out_envelopes_facts(2), of ws] ws(2) assms(9) frames by auto
  have post: "arrivals post = concat (map encode fs) @ []" using assms(15,16) ws(1) fs(1) by simp
  obtain k' s' v where run: "plain_session True s k B = Some (k', s', Some v)"
    and sent: "sent k' = ConnectionUp A (fresh k) (Suc (fresh k)) # map (Received A) ?es @ [ConnectionDown A]"
  proof -
    have "next_frame [] = None" by (simp add: next_frame_def)
    from plain_session_exact [OF assms(18,17,11,12,13,14,15) post fs(3) this assms(19,20,22)]
    show thesis unfolding fs(2) assms(21) append_Nil by (elim exE conjE) (rule that)
  qed
  let ?b = "fold handle_command (sent k') b"
  have "map (\<lambda>e. (A, msg_payload e)) ?es = map (Pair A) (map msg_payload ?es)" by simp
  then have "map (\<lambda>e. (A, msg_payload e)) ?es = map (Pair A) ps" unfolding out_envelopes_facts(3) .
  then have "recv_tx ?b = recv_tx b @ map (Pair A) ps \<and> (Suc (fresh k), True) \<in> set (accepts ?b) \<and>
      hm_get (conns ?b) A = None \<and> writers ?b (fresh k) =
      map ack (if delivery a = AtLeastOnce then map (out_id a) [0..<length ps] else [])"
    using session_delivers [OF assms(23-25) out_envelopes_facts(1) [of a ps], of ?b "Suc (fresh k)"] sent
    by (simp add: out_envelopes_facts(4))
  with run show ?thesis by blast
qed



definition demo_sender :: broker where
  "demo_sender = handle_command (ConnectionUp (replicate 16 7) 4 5) (broker_new RoundRobin AtLeastOnce (replicate 16 9))"

lemma demo_sender:
  "broker_reach demo_sender" "conns demo_sender = [(replicate 16 7, 4)]" "send_mode demo_sender = RoundRobin"
  "writers demo_sender 4 = []" "rr_cursor demo_sender = 0" "delivery demo_sender = AtLeastOnce" "pending demo_sender = []"
proof -
  have "broker_reach (broker_new RoundRobin AtLeastOnce (replicate 16 9))" by (rule broker_reach.init) simp
  then show "broker_reach demo_sender" unfolding demo_sender_def
    by (rule broker_reach.step) (simp add: command_ok_def is_id_def broker_new_def)
  have up: "demo_sender = (broker_new RoundRobin AtLeastOnce (replicate 16 9))\<lparr>conns := [(replicate 16 7, 4)],
      order := [replicate 16 7], accepts := [(5, True)]\<rparr>"
    by (simp add: demo_sender_def handle_command_def handle_up_def broker_new_def hm_get_def hm_insert_def)
  show "conns demo_sender = [(replicate 16 7, 4)]" "send_mode demo_sender = RoundRobin"
    "writers demo_sender 4 = []" "rr_cursor demo_sender = 0" "delivery demo_sender = AtLeastOnce" "pending demo_sender = []"
    by (simp_all add: up broker_new_def)
qed

text \<open>A connection that carries any frames.\<close>

lemma demo_link:
  assumes "is_id A"
  obtains w q s pre post where "wfaults w = []" and "outbound w = hello A" and "map snd (queue q) = fs"
    and "sorted (clock w # map fst (queue q) @ [hangup q])" and "stream_steady s" and "wfaults s = []"
    and "inbound s = pre @ post" and "script_delay pre < HEARTBEAT_TIMEOUT" and "arrivals pre = hello A"
    and "arrivals pre @ arrivals post = outbound (plain_writer w q)" and "clock s + script_delay pre = 8"
proof -
  let ?w = "\<lparr>inbound = [], outbound = hello A, wfaults = [], ffaults = [], clock = 10\<rparr>"
  let ?q = "\<lparr>queue = map (Pair 20) fs, hangup = 30\<rparr>"
  let ?out = "outbound (plain_writer ?w ?q)"
  let ?pre = "[(3, Arrive (hello A))]" and ?post = "[(50, Arrive (drop 22 ?out))]"
  let ?s = "\<lparr>inbound = ?pre @ ?post, outbound = [], wfaults = [], ffaults = [], clock = 5\<rparr>"
  have "map fst (queue ?q) = replicate (length fs) 20" by (simp add: comp_def map_replicate_const)
  then have sorted: "sorted (clock ?w # map fst (queue ?q) @ [hangup ?q])"
    by (auto simp: sorted_append sorted_replicate)
  from plain_writer_schedule [OF _ this] obtain x where "?out = hello A @ x" by auto
  then have "arrivals ?pre @ arrivals ?post = ?out" using hello_length [OF assms] by simp
  with sorted show thesis
    by (intro that [of ?w ?q ?s ?pre ?post])
      (simp_all add: comp_def stream_steady_def script_steady_def script_delay_def HEARTBEAT_TIMEOUT_def)
qed


end
