(* ===== verification/Agent.thy ===== *)
theory Agent
  imports Agent_Args End_To_End
begin

text \<open>
  The conformance agent of the synchronous crate (\<open>rust-lib-sync/examples/conformance_agent.rs\<close>, with the
  \<open>tls\<close> feature): a program that opens a socket as its flags say and then sends messages, prints the
  ones that it receives, or echoes them.

  What the agent gets from outside is in \<open>agent_os\<close>: the answers of the operating system to binding and
  resolving an address, the TLS configurations that \<open>rustls\<close> makes from PEM files, or a panic, and the
  pause that a number of seconds means.  The other threads of the process act between its calls: \<open>env i\<close>
  is what they do to the socket after the \<open>i\<close>-th call.  Standard output takes what is written to it.
\<close>

record ('srv, 'cli, 'name, 'addr) agent_os =
  os_listen :: "bytes \<Rightarrow> 'addr io_result"
  os_local :: "bytes \<Rightarrow> 'addr io_result"
  os_resolve :: "bytes \<Rightarrow> 'addr list io_result"
  os_server_config :: "bytes \<Rightarrow> bytes \<Rightarrow> 'srv option"
  os_client_config :: "bytes \<Rightarrow> 'cli option"
  os_server_name :: "string \<Rightarrow> 'name option"
  os_pause :: "bytes \<Rightarrow> nat option"

definition text_of :: "bytes \<Rightarrow> string" where
  "text_of bs = map (char_of \<circ> unat) bs"

definition agent_bind_tls :: "('srv, 'cli, 'name, 'addr) agent_os \<Rightarrow> bytes \<Rightarrow> (bytes, bytes) hmap \<Rightarrow>
    ('srv, 'cli, 'name, 'addr) inner \<Rightarrow> (unit result \<times> ('srv, 'cli, 'name, 'addr) inner) option" where
  "agent_bind_tls os addr args s =
     (let cert = arg args ''tls-cert'' []; key = arg args ''tls-key'' []
      in case os_server_config os cert key of
           None \<Rightarrow> None
         | Some cfg \<Rightarrow>
             (case bind_tls (os_listen os addr) (os_local os addr) cfg s of
                (Inl e, s') \<Rightarrow> Some (Inl e, s')
              | (Inr _, s') \<Rightarrow> Some (Inr (), s')))"

definition agent_connect_tls :: "('srv, 'cli, 'name, 'addr) agent_os \<Rightarrow> bytes \<Rightarrow> bytes \<Rightarrow> (bytes, bytes) hmap \<Rightarrow>
    ('srv, 'cli, 'name, 'addr) inner \<Rightarrow> (unit result \<times> ('srv, 'cli, 'name, 'addr) inner) option" where
  "agent_connect_tls os addr host args s =
     (let ca = arg args ''tls-ca'' []; name = arg args ''tls-server-name'' host
      in case os_client_config os ca of
           None \<Rightarrow> None
         | Some cfg \<Rightarrow> Some (connect_tls (os_server_name os) (os_resolve os addr) (text_of name) cfg s))"

definition agent_socket :: "identity \<Rightarrow> bytes \<Rightarrow> agent_config \<Rightarrow> ('srv, 'cli, 'name, 'addr) inner" where
  "agent_socket fresh_id uuid c =
     (let b = set_delivery_guarantee (ag_delivery c) (set_send_mode (ag_send_mode c) builder);
          b' = (case ag_identity c of Some i \<Rightarrow> set_identity i b | None \<Rightarrow> b)
      in build fresh_id uuid b')"

definition agent_addr :: "agent_config \<Rightarrow> bytes" where
  "agent_addr c = ag_host c @ ascii '':'' @ decimal (unat (ag_port c))"

text \<open>Binding or connecting; \<^term>\<open>None\<close> is a panic.\<close>

definition agent_open :: "('srv, 'cli, 'name, 'addr) agent_os \<Rightarrow> (bytes, bytes) hmap \<Rightarrow> agent_config \<Rightarrow>
    ('srv, 'cli, 'name, 'addr) inner \<Rightarrow> (unit result \<times> ('srv, 'cli, 'name, 'addr) inner) option" where
  "agent_open os args c s =
     (let addr = agent_addr c
      in if ag_role c = ascii ''bind'' then
           if ag_tls c then agent_bind_tls os addr args s
           else (case bind (os_listen os addr) (os_local os addr) s of
                   (Inl e, s') \<Rightarrow> Some (Inl e, s')
                 | (Inr _, s') \<Rightarrow> Some (Inr (), s'))
         else if ag_tls c then agent_connect_tls os addr (ag_host c) args s
         else Some (connect (os_resolve os addr) s))"


section \<open>The behaviours\<close>

definition message :: "bytes \<Rightarrow> nat \<Rightarrow> bytes" where
  "message pre i = pre @ decimal i"

fun source_loop :: "(nat \<Rightarrow> ('srv, 'cli, 'name, 'addr) inner \<Rightarrow> ('srv, 'cli, 'name, 'addr) inner) \<Rightarrow> bytes \<Rightarrow> nat list \<Rightarrow>
    ('srv, 'cli, 'name, 'addr) inner \<Rightarrow> ('srv, 'cli, 'name, 'addr) inner" where
  "source_loop env pre [] s = s"
| "source_loop env pre (i # is) s = source_loop env pre is (env i (snd (send (message pre i) s)))"

text \<open>\<^term>\<open>None\<close> means that a call waits for ever; the first number counts the calls that are left.\<close>

fun echo_loop :: "(nat \<Rightarrow> ('srv, 'cli, 'name, 'addr) inner \<Rightarrow> ('srv, 'cli, 'name, 'addr) inner) \<Rightarrow> nat \<Rightarrow> nat \<Rightarrow> recv_rx \<Rightarrow>
    ('srv, 'cli, 'name, 'addr) inner \<Rightarrow> (nat \<times> recv_rx \<times> ('srv, 'cli, 'name, 'addr) inner) option" where
  "echo_loop env 0 t0 r s = Some (t0, r, s)"
| "echo_loop env (Suc n) t0 r s =
     (case recv_identity t0 r of
        None \<Rightarrow> None
      | Some (Some (i, msg), t, r') \<Rightarrow> echo_loop env n t r' (env n (snd (send_to i msg s)))
      | Some (None, t, r') \<Rightarrow> echo_loop env n t r' s)"

fun sink_loop :: "nat \<Rightarrow> nat \<Rightarrow> recv_rx \<Rightarrow> bytes \<Rightarrow> (nat \<times> recv_rx \<times> bytes) option" where
  "sink_loop 0 t0 r stdout = Some (t0, r, stdout)"
| "sink_loop (Suc n) t0 r stdout =
     (case recv t0 r of
        None \<Rightarrow> None
      | Some (Some msg, t, r') \<Rightarrow> sink_loop n t r' (stdout @ msg @ [10])
      | Some (None, t, r') \<Rightarrow> Some (t, r', stdout))"

definition agent_behave :: "(nat \<Rightarrow> ('srv, 'cli, 'name, 'addr) inner \<Rightarrow> ('srv, 'cli, 'name, 'addr) inner) \<Rightarrow> agent_config \<Rightarrow> nat \<Rightarrow>
    nat \<Rightarrow> recv_rx \<Rightarrow> ('srv, 'cli, 'name, 'addr) inner \<Rightarrow> (nat \<times> bytes \<times> ('srv, 'cli, 'name, 'addr) inner) option" where
  "agent_behave env c pause t0 r s =
     (let count = unat (ag_count c)
      in if ag_behavior c = ascii ''source'' then
           Some (t0 + pause, [], source_loop env (ag_prefix c) [0..<count] s)
         else if ag_behavior c = ascii ''echo'' then
           map_option (\<lambda>(t, _, s'). (t + pause, [], s')) (echo_loop env count t0 r s)
         else map_option (\<lambda>(t, _, stdout). (t, stdout, s)) (sink_loop count t0 r []))"

datatype agent_end = Exit nat | Panic

text \<open>
  The whole program, started at the time \<open>t0\<close> with the receiving side \<open>r\<close> of its socket: how it ends, what it
  printed, and the socket after \<open>close\<close> (\<open>late\<close> and \<open>leave\<close> as there).
\<close>

definition agent_main :: "('srv, 'cli, 'name, 'addr) agent_os \<Rightarrow>
    (nat \<Rightarrow> ('srv, 'cli, 'name, 'addr) inner \<Rightarrow> ('srv, 'cli, 'name, 'addr) inner) \<Rightarrow> command list \<Rightarrow> (registry \<Rightarrow> registry) \<Rightarrow>
    identity \<Rightarrow> bytes \<Rightarrow> nat \<Rightarrow> recv_rx \<Rightarrow> bytes list \<Rightarrow> (agent_end \<times> bytes \<times> ('srv, 'cli, 'name, 'addr) inner option) option" where
  "agent_main os env late leave fresh_id uuid t0 r argv =
     (let args = parse_args argv; c = agent_config_of args
      in case agent_open os args c (agent_socket fresh_id uuid c) of
           None \<Rightarrow> Some (Panic, [], None)
         | Some (Inl e, s) \<Rightarrow> Some (Exit 1, [], None)
         | Some (Inr _, s) \<Rightarrow>
             (case os_pause os (ag_linger c) of
                None \<Rightarrow> Some (Panic, [], None)
              | Some pause \<Rightarrow>
                  (case agent_behave env c pause t0 r s of
                     None \<Rightarrow> None
                   | Some (t, stdout, s') \<Rightarrow> Some (Exit 0, stdout, Some (snd (close late leave s'))))))"


section \<open>What the sink prints\<close>

definition lines :: "bytes list \<Rightarrow> bytes" where
  "lines ms = concat (map (\<lambda>m. m @ [10]) ms)"

lemma sink_prints:
  assumes "map (snd \<circ> snd) (rx_items r) = ms @ extra" 
  shows "\<exists>t r'. sink_loop (length ms) t0 r stdout = Some (t, r', stdout @ lines ms)"
  using assms
proof (induction ms arbitrary: t0 r stdout)
  case (Cons m ms)
  then obtain t i rest where r: "rx_items r = (t, i, m) # rest" "map (snd \<circ> snd) rest = ms @ extra"
    using Cons.prems by (cases "rx_items r") (auto simp: comp_def)
  let ?t = "max (max t0 (rx_free r)) t"
  have "recv t0 r = Some (Some m, ?t, r\<lparr>rx_items := rest, rx_free := ?t\<rparr>)"
    using r(1) by (simp add: recv_def recv_identity_def Let_def)
  with Cons.IH [of "r\<lparr>rx_items := rest, rx_free := ?t\<rparr>" ?t "stdout @ m @ [10]"] r(2) show ?case by (simp add: lines_def comp_def)
qed (simp add: lines_def)

text \<open>Fewer messages than wanted: the sink prints what there is once the broker is gone.\<close>

lemma sink_prints_all:
  assumes "rx_gone r = Some g" and "length (rx_items r) < n"
  shows "\<exists>t r'. sink_loop n t0 r stdout = Some (t, r', stdout @ lines (map (snd \<circ> snd) (rx_items r)))"
  using assms
proof (induction n arbitrary: t0 r stdout)
  case (Suc n)
  show ?case
  proof (cases "rx_items r")
    case Nil
    with Suc.prems(1) show ?thesis by (simp add: recv_def recv_identity_def Let_def lines_def)
  next
    case (Cons x rest)
    obtain t i m where x: "x = (t, i, m)" by (cases x)
    let ?t = "max (max t0 (rx_free r)) t"
    have "recv t0 r = Some (Some m, ?t, r\<lparr>rx_items := rest, rx_free := ?t\<rparr>)"
      using Cons x by (simp add: recv_def recv_identity_def Let_def)
    with Suc.IH [of "r\<lparr>rx_items := rest, rx_free := ?t\<rparr>" ?t "stdout @ m @ [10]"] Suc.prems Cons x show ?thesis
      by (simp add: lines_def)
  qed
qed simp


section \<open>What the source sends\<close>

text \<open>The commands that the broker has handled or will handle, as if it had handled them all.\<close>

definition caught_up :: "('srv, 'cli, 'name, 'addr) inner \<Rightarrow> broker" where
  "caught_up s = fold handle_command (in_cmds s) (in_broker s)"

definition open_sock :: "('srv, 'cli, 'name, 'addr) inner \<Rightarrow> bool" where
  "open_sock s \<longleftrightarrow> in_running s \<and> Close \<notin> set (in_cmds s)"

lemma turn_caught_up: "open_sock s \<Longrightarrow> open_sock (broker_turn s) \<and> caught_up (broker_turn s) = caught_up s"
  by (cases "in_cmds s") (auto simp: open_sock_def broker_turn_def caught_up_def)

lemma turns_caught_up: "open_sock s \<Longrightarrow> open_sock ((broker_turn ^^ n) s) \<and> caught_up ((broker_turn ^^ n) s) = caught_up s"
  by (induction n) (simp_all add: turn_caught_up)

lemma turns_drain:
  "open_sock s \<Longrightarrow> in_cmds ((broker_turn ^^ length (in_cmds s)) s) = [] \<and>
    in_broker ((broker_turn ^^ length (in_cmds s)) s) = caught_up s"
proof (induction "in_cmds s" arbitrary: s)
  case (Cons c cs)
  have "in_cmds (broker_turn s) = cs" using Cons.prems Cons.hyps(2) [symmetric] by (auto simp: open_sock_def broker_turn_def)
  with Cons.hyps(1) [of "broker_turn s"] turn_caught_up [OF Cons.prems] Cons.hyps(2) [symmetric] show ?case
    by (simp add: funpow_swap1)
qed (simp add: caught_up_def)

lemma dispatch_caught_up:
  assumes "open_sock s"
  shows "fst (dispatch target p s) = Inr () \<and> open_sock (snd (dispatch target p s)) \<and>
    caught_up (snd (dispatch target p s)) = handle_send target p (caught_up s)"
  using assms by (simp add: dispatch_def sock_command_def open_sock_def caught_up_def handle_command_def)

lemma source_sends:
  assumes "\<And>i. \<exists>n. env i = broker_turn ^^ n" and "open_sock s"
  shows "open_sock (source_loop env pre is s) \<and>
    caught_up (source_loop env pre is s) = send_all (map (message pre) is) (caught_up s)"
  using assms(2)
proof (induction "is" arbitrary: s)
  case (Cons i "is")
  let ?s = "snd (send (message pre i) s)"
  have d: "open_sock ?s" "caught_up ?s = handle_send None (message pre i) (caught_up s)"
    using dispatch_caught_up [OF Cons.prems] by (simp_all add: send_def)
  obtain n where "env i = broker_turn ^^ n" using assms(1) by blast
  with turns_caught_up [OF d(1), of n] d(2) Cons.IH [of "env i ?s"] show ?case by simp
qed simp

lemma messages_distinct: "distinct (map (message pre) [0..<n])"
  by (simp add: distinct_map inj_on_def message_def decimal_inj)


section \<open>Interoperation\<close>



text \<open>Two messages from a source to a sink.\<close>

definition demo_os :: "(unit, unit, unit, nat) agent_os" where
  "demo_os = \<lparr>os_listen = \<lambda>_. Inr 1, os_local = \<lambda>_. Inr 1, os_resolve = \<lambda>_. Inr [1], os_server_config = \<lambda>_ _. None,
     os_client_config = \<lambda>_. None, os_server_name = \<lambda>_. None, os_pause = \<lambda>_. Some 1000\<rparr>"

definition demo_source :: "(unit, unit, unit, nat) inner" where
  "demo_source = (build (replicate 16 5) (replicate 16 9) builder)\<lparr>in_broker := demo_sender\<rparr>"

lemma demo_source: "open_sock demo_source" "caught_up demo_source = demo_sender"
  by (simp_all add: demo_source_def open_sock_def caught_up_def build_def)

definition demo_argv :: "bytes list" where
  "demo_argv = ascii ''agent'' # flags_of [(ascii ''count'', ascii ''2'')]"

lemma demo_argv:
  "ag_behavior (agent_config_of (parse_args demo_argv)) = ascii ''sink''"
  "ag_count (agent_config_of (parse_args demo_argv)) = 2"
  by (simp_all add: demo_argv_def agent_config_of_def arg_def parse_flags) (simp add: from_str_radix_def ascii_def to_digit_def)


end
