(* ===== verification/Async_Ws_Base.thy ===== *)
theory Async_Ws_Base
  imports Ws_Handshake
begin

text \<open>
  The pure functions of \<open>rust-lib-async/src/ws.rs\<close>: the one-shot SHA-1, base64, the validation of
  the upgrade request, the responses and the frame encoder.  They are shown to agree with those of
  the synchronous crate, apart from the two places where the code differs: requests that are not
  valid UTF-8 (decoded with replacement characters here, refused there) and request lines that do
  not have exactly three parts (refused here).
\<close>

definition a_WS_GUID :: string where
  "a_WS_GUID = ''258EAFA5-E914-47DA-95CA-C5AB0DC85B11''"

definition a_OP_CONT :: u8 where "a_OP_CONT = 0x0"
definition a_OP_TEXT :: u8 where "a_OP_TEXT = 0x1"
definition a_OP_BIN :: u8 where "a_OP_BIN = 0x2"
definition a_OP_CLOSE :: u8 where "a_OP_CLOSE = 0x8"
definition a_OP_PING :: u8 where "a_OP_PING = 0x9"
definition a_OP_PONG :: u8 where "a_OP_PONG = 0xA"
definition a_MAX_REQUEST_BYTES :: nat where "a_MAX_REQUEST_BYTES = 8192"

lemmas a_op_defs =
  a_OP_CONT_def a_OP_TEXT_def a_OP_BIN_def a_OP_CLOSE_def a_OP_PING_def a_OP_PONG_def


section \<open>SHA-1\<close>

function a_sha1_pad :: "bytes \<Rightarrow> bytes" where
  "a_sha1_pad msg = (if length msg mod 64 \<noteq> 56 then a_sha1_pad (msg @ [0]) else msg)"
  by pat_completeness auto
termination
proof (relation "measure (\<lambda>msg. (120 - length msg mod 64) mod 64)", goal_cases)
  case (2 msg)
  then show ?case
    using pad_step [of "length msg mod 64"] by (simp add: mod_Suc less_Suc_eq_le [symmetric])
qed simp

declare a_sha1_pad.simps [simp del]

definition a_sha1_expand :: "nat \<Rightarrow> u32 list \<Rightarrow> u32 list" where
  "a_sha1_expand i w =
     w[i := word_rotl 1 (w ! (i - 3) XOR w ! (i - 8) XOR w ! (i - 14) XOR w ! (i - 16))]"

definition a_sha1_words :: "bytes \<Rightarrow> u32 list" where
  "a_sha1_words chunk =
     (let ws = map (\<lambda>word. u32_from_be_bytes [word ! 0, word ! 1, word ! 2, word ! 3]) (chunks_exact 4 chunk)
      in fold a_sha1_expand [16..<80] (ws @ replicate (80 - length ws) 0))"

definition a_sha1_round :: "nat \<times> u32 \<Rightarrow> sha_words \<Rightarrow> sha_words" where
  "a_sha1_round iw st =
     (case (iw, st) of ((i, wi), a, b, c, d, e) \<Rightarrow>
        let (f, k) =
              (if i \<le> 19 then ((b AND c) OR (NOT b AND d), 0x5A827999)
               else if 20 \<le> i \<and> i \<le> 39 then (b XOR c XOR d, 0x6ED9EBA1)
               else if 40 \<le> i \<and> i \<le> 59 then ((b AND c) OR (b AND d) OR (c AND d), 0x8F1BBCDC)
               else (b XOR c XOR d, 0xCA62C1D6));
            temp = word_rotl 5 a + f + e + k + wi
        in (temp, a, word_rotl 30 b, c, d))"

definition a_sha1_chunk :: "bytes \<Rightarrow> sha_words \<Rightarrow> sha_words" where
  "a_sha1_chunk chunk h =
     (case fold a_sha1_round (enumerate 0 (a_sha1_words chunk)) h of (a, b, c, d, e) \<Rightarrow>
      case h of (h0, h1, h2, h3, h4) \<Rightarrow> (h0 + a, h1 + b, h2 + c, h3 + d, h4 + e))"

definition a_sha1 :: "bytes \<Rightarrow> bytes" where
  "a_sha1 d =
     (let h = (0x67452301, 0xEFCDAB89, 0x98BADCFE, 0x10325476, 0xC3D2E1F0);
          ml = (word_of_nat (length d) :: u64) * 8;
          msg = a_sha1_pad (d @ [0x80]) @ u64_to_be_bytes ml
      in case fold a_sha1_chunk (chunks_exact 64 msg) h of (h0, h1, h2, h3, h4) \<Rightarrow>
           concat (map u32_to_be_bytes [h0, h1, h2, h3, h4]))"


section \<open>Base64\<close>

definition a_B64 :: bytes where
  "a_B64 = ascii ''ABCDEFGHIJKLMNOPQRSTUVWXYZabcdefghijklmnopqrstuvwxyz0123456789+/''"

definition get_or_zero :: "bytes \<Rightarrow> nat \<Rightarrow> u8" where
  "get_or_zero chunk i = (if i < length chunk then chunk ! i else 0)"

definition a_b64_chunk :: "bytes \<Rightarrow> bytes" where
  "a_b64_chunk chunk =
     (let b0 = chunk ! 0; b1 = get_or_zero chunk 1; b2 = get_or_zero chunk 2;
          n = push_bit 16 (ucast b0) OR push_bit 8 (ucast b1) OR (ucast b2 :: u32)
      in [a_B64 ! unat (drop_bit 18 n AND 0x3F),
          a_B64 ! unat (drop_bit 12 n AND 0x3F),
          (if 1 < length chunk then a_B64 ! unat (drop_bit 6 n AND 0x3F) else 0x3D),
          (if 2 < length chunk then a_B64 ! unat (n AND 0x3F) else 0x3D)])"

definition a_base64_encode :: "bytes \<Rightarrow> bytes" where
  "a_base64_encode d = concat (map a_b64_chunk (chunks 3 d))"

definition a_b64_val :: "u8 \<Rightarrow> u32 option" where
  "a_b64_val c =
     (if 0x41 \<le> c \<and> c \<le> 0x5A then Some (ucast (c - 0x41))
      else if 0x61 \<le> c \<and> c \<le> 0x7A then Some (ucast (c - 0x61 + 26))
      else if 0x30 \<le> c \<and> c \<le> 0x39 then Some (ucast (c - 0x30 + 52))
      else if c = 0x2B then Some 62
      else if c = 0x2F then Some 63
      else None)"

fun a_b64_loop :: "bytes \<Rightarrow> u32 \<Rightarrow> nat \<Rightarrow> bytes \<Rightarrow> bytes option" where
  "a_b64_loop [] acc bits out = Some out"
| "a_b64_loop (c # cs) acc bits out =
     (case a_b64_val c of
        None \<Rightarrow> None
      | Some v \<Rightarrow>
          let acc' = push_bit 6 acc OR v; bits' = bits + 6
          in if 8 \<le> bits'
             then a_b64_loop cs acc' (bits' - 8) (out @ [ucast (drop_bit (bits' - 8) acc')])
             else a_b64_loop cs acc' bits' out)"

definition a_base64_decode :: "str_chars \<Rightarrow> bytes option" where
  "a_base64_decode s = a_b64_loop (as_bytes (rev (dropWhile (\<lambda>c. c = 61) (rev s)))) 0 0 []"

text \<open>The accept key; a base64 string is ASCII, and is given by its bytes.\<close>

definition a_compute_accept :: "str_chars \<Rightarrow> bytes" where
  "a_compute_accept key = a_base64_encode (a_sha1 (as_bytes key @ ascii a_WS_GUID))"


section \<open>The upgrade request\<close>

text \<open>\<open>String::from_utf8_lossy\<close>: each maximal part of an ill-formed sequence becomes U+FFFD.\<close>

definition second_ok :: "u8 \<Rightarrow> u8 \<Rightarrow> bool" where
  "second_ok b c \<longleftrightarrow> is_cont c \<and> (b = 0xE0 \<longrightarrow> 0xA0 \<le> c) \<and> (b = 0xED \<longrightarrow> c \<le> 0x9F) \<and>
     (b = 0xF0 \<longrightarrow> 0x90 \<le> c) \<and> (b = 0xF4 \<longrightarrow> c \<le> 0x8F)"

function from_utf8_lossy :: "bytes \<Rightarrow> str_chars" where
  "from_utf8_lossy bs =
     (case bs of
        [] \<Rightarrow> []
      | b # r \<Rightarrow>
          if b < 0x80 then unat b # from_utf8_lossy r
          else if 0xC2 \<le> b \<and> b \<le> 0xDF \<and> r \<noteq> [] \<and> is_cont (hd r) then
            ((unat b - 0xC0) * 64 + cont6 (hd r)) # from_utf8_lossy (drop 1 r)
          else if 0xE0 \<le> b \<and> b \<le> 0xF4 \<and> r \<noteq> [] \<and> second_ok b (hd r) then
            (if 1 < length r \<and> is_cont (r ! 1) then
               (if b \<le> 0xEF then
                  ((unat b - 0xE0) * 4096 + cont6 (r ! 0) * 64 + cont6 (r ! 1)) # from_utf8_lossy (drop 2 r)
                else if 2 < length r \<and> is_cont (r ! 2) then
                  ((unat b - 0xF0) * 262144 + cont6 (r ! 0) * 4096 + cont6 (r ! 1) * 64 + cont6 (r ! 2)) #
                  from_utf8_lossy (drop 3 r)
                else 0xFFFD # from_utf8_lossy (drop 2 r))
             else 0xFFFD # from_utf8_lossy (drop 1 r))
          else 0xFFFD # from_utf8_lossy r)"
  by pat_completeness auto
termination
  by (relation "measure length") auto

declare from_utf8_lossy.simps [simp del]

definition a_set_header :: "str_chars \<Rightarrow> str_chars \<Rightarrow> upgrade_headers \<Rightarrow> upgrade_headers" where
  "a_set_header n v h =
     (let name = to_ascii_lowercase (str_trim n); val = str_trim v
      in if name = chars ''upgrade'' then h\<lparr>hd_upgrade := Some (to_ascii_lowercase val)\<rparr>
         else if name = chars ''connection'' then h\<lparr>hd_connection := Some (to_ascii_lowercase val)\<rparr>
         else if name = chars ''sec-websocket-version'' then h\<lparr>hd_version := Some val\<rparr>
         else if name = chars ''sec-websocket-key'' then h\<lparr>hd_key := Some val\<rparr>
         else h)"

fun a_header_lines :: "str_chars list \<Rightarrow> upgrade_headers \<Rightarrow> string + upgrade_headers" where
  "a_header_lines [] h = Inr h"
| "a_header_lines (line # lines) h =
     (if line = [] then a_header_lines lines h
      else case split_once 58 line of
             Some (n, v) \<Rightarrow> a_header_lines lines (a_set_header n v h)
           | None \<Rightarrow> Inl status_400)"

definition a_check_headers :: "upgrade_headers \<Rightarrow> string + str_chars" where
  "a_check_headers h =
     (if hd_upgrade h \<noteq> Some (chars ''websocket'') then Inl status_400
      else if \<not> (case hd_connection h of
                  Some c \<Rightarrow> list_ex (\<lambda>t. str_trim t = chars ''upgrade'') (split_char 44 [] c)
                | None \<Rightarrow> False) then Inl status_400
      else if hd_version h \<noteq> Some (chars ''13'') then Inl status_426
      else case hd_key h of
             None \<Rightarrow> Inl status_400
           | Some key \<Rightarrow>
               (case a_base64_decode key of
                  Some bs \<Rightarrow> if length bs = 16 then Inr key else Inl status_400
                | None \<Rightarrow> Inl status_400))"

definition a_parse_upgrade :: "bytes \<Rightarrow> string + str_chars" where
  "a_parse_upgrade request =
     (let lines = split_crlf [] (from_utf8_lossy request);
          parts = split_char 32 [] (nth_part lines 0)
      in if length parts \<noteq> 3 \<or> parts ! 0 \<noteq> chars ''GET'' \<or> \<not> starts_with (chars ''HTTP/1.'') (parts ! 2)
         then Inl status_400
         else case a_header_lines (tl lines) no_headers of
                Inl e \<Rightarrow> Inl e
              | Inr h \<Rightarrow> a_check_headers h)"

definition a_success_response :: "str_chars \<Rightarrow> bytes" where
  "a_success_response key =
     ascii ''HTTP/1.1 101 Switching Protocols'' @ CRLF @
     ascii ''Upgrade: websocket'' @ CRLF @
     ascii ''Connection: Upgrade'' @ CRLF @
     ascii ''Sec-WebSocket-Accept: '' @ a_compute_accept key @ CRLF @ CRLF"

definition a_error_response :: "string \<Rightarrow> bytes" where
  "a_error_response status =
     (if take 3 status = ''426''
      then ascii ''HTTP/1.1 '' @ ascii status @ CRLF @ ascii ''Sec-WebSocket-Version: 13'' @ CRLF @ CRLF
      else ascii ''HTTP/1.1 '' @ ascii status @ CRLF @ CRLF)"

definition a_server_frame :: "u8 \<Rightarrow> bytes \<Rightarrow> bytes" where
  "a_server_frame opcode p =
     (let n = length p
      in [0x80 OR opcode] @
         (if n < 126 then [word_of_nat n]
          else if n < 65536 then [126] @ u16_to_be_bytes (word_of_nat n)
          else [127] @ u64_to_be_bytes (word_of_nat n)) @ p)"


section \<open>Agreement with the synchronous crate\<close>

lemma a_sha1_pad_zeros:
  "a_sha1_pad msg = msg @ replicate ((120 - length msg mod 64) mod 64) 0"
proof (induction msg rule: a_sha1_pad.induct)
  case (1 msg)
  let ?l = "length msg mod 64"
  show ?case
  proof (cases "?l = 56")
    case True
    then show ?thesis by (simp add: a_sha1_pad.simps)
  next
    case False
    have "length (msg @ [0]) mod 64 = (if ?l = 63 then 0 else Suc ?l)" by (simp add: mod_Suc)
    then have "Suc ((120 - length (msg @ [0]) mod 64) mod 64) = (120 - ?l) mod 64"
      by (simp only: pad_step [OF _ False] mod_less_divisor zero_less_numeral)
    then have "[0] @ replicate ((120 - length (msg @ [0]) mod 64) mod 64) 0 =
        replicate ((120 - ?l) mod 64) (0 :: u8)"
      by (metis append_Cons append_Nil replicate_Suc)
    with 1 [OF False] show ?thesis
      using False by (subst a_sha1_pad.simps) (metis append_assoc)
  qed
qed

lemma a_sha1_words_schedule: "length bl = 64 \<Longrightarrow> a_sha1_words bl = sha1_schedule bl"
proof -
  assume len: "length bl = 64"
  have "a_sha1_expand = sha1_expand" by (simp add: fun_eq_iff a_sha1_expand_def sha1_expand_def)
  moreover have "map (\<lambda>word. u32_from_be_bytes [word ! 0, word ! 1, word ! 2, word ! 3]) (chunks_exact 4 bl) =
      map u32_from_be_bytes (chunks_exact 4 bl)"
  proof (rule map_cong)
    fix c assume "c \<in> set (chunks_exact 4 bl)"
    then have "length c = 4" by (simp add: chunks_exact_def)
    then show "u32_from_be_bytes [c ! 0, c ! 1, c ! 2, c ! 3] = u32_from_be_bytes c"
      using take_4_nth [of c] by simp
  qed simp
  ultimately show ?thesis by (simp only: a_sha1_words_def sha1_schedule_def)
qed

lemma a_sha1_chunk_compress: "length bl = 64 \<Longrightarrow> a_sha1_chunk bl h = fips_block bl h"
proof -
  assume len: "length bl = 64"
  have "a_sha1_round = sha1_round"
    by (auto simp: fun_eq_iff a_sha1_round_def sha1_round_def)
  then have "a_sha1_chunk bl h = sha1_compress bl h"
    using len by (simp add: a_sha1_chunk_def sha1_compress_def a_sha1_words_schedule)
  then show ?thesis using sha1_compress_spec [OF len] by simp
qed

lemma fips_pad_blocks: "length (fips_pad msg) mod 64 = 0"
  using pad_total [of "length msg"] by (simp add: fips_pad_def add.commute add.left_commute)

lemma chunks_exact_all: "length xs mod 64 = 0 \<Longrightarrow> chunks_exact 64 xs = chunks 64 xs"
proof -
  assume "length xs mod 64 = 0"
  then obtain k where k: "length xs = 64 * k" by (auto elim: dvdE simp: mod_eq_0_iff_dvd)
  have "list_all (\<lambda>c. length c = 64) (chunks 64 xs)"
    using k by (simp add: chunks_map_upt [of 64 xs k] list_all_iff)
  then show ?thesis by (simp add: chunks_exact_def filter_True list_all_iff)
qed

lemma chunks_lengths: "c \<in> set (chunks_exact n xs) \<Longrightarrow> length c = n"
  by (simp add: chunks_exact_def)

lemma a_sha1_fips: "a_sha1 d = fips_sha1 d"
proof -
  have "(120 - length (d @ [0x80 :: u8]) mod 64) mod 64 = (119 - length d mod 64) mod 64"
  proof (cases "length d mod 64 = 63")
    case True
    then have "length (d @ [0x80 :: u8]) mod 64 = 0" by (simp add: mod_Suc)
    with True show ?thesis by simp
  qed (simp add: mod_Suc)
  then have pad: "a_sha1_pad (d @ [0x80]) @ u64_to_be_bytes (word_of_nat (length d) * 8) = fips_pad d"
    by (simp add: a_sha1_pad_zeros fips_pad_def mult.commute)
  have "fold a_sha1_chunk (chunks_exact 64 (fips_pad d)) h = fold fips_block (chunks_exact 64 (fips_pad d)) h" for h
    by (rule fold_cong) (auto simp: fun_eq_iff a_sha1_chunk_compress dest: chunks_lengths)
  with chunks_exact_all [OF fips_pad_blocks] pad show ?thesis
    by (simp add: a_sha1_def fips_sha1_def sha1_words_bytes_def)
qed

lemma a_base64_encode_eq: "a_base64_encode d = base64_encode d"
proof -
  have "a_B64 = B64" by (simp only: a_B64_def B64_def)
  then have "a_b64_chunk c = b64_chunk c" for c
    by (simp only: a_b64_chunk_def b64_chunk_def b64_group_def get_or_zero_def Let_def)
  then have "a_b64_chunk = b64_chunk" by (rule ext)
  then show ?thesis by (simp add: a_base64_encode_def base64_encode_def)
qed

lemma a_b64_loop_eq: "a_b64_loop s acc bits out = b64_loop s acc bits out"
proof -
  have "a_b64_val = b64_val" by (simp add: fun_eq_iff a_b64_val_def b64_val_def)
  then show ?thesis by (induction s acc bits out rule: b64_loop.induct) (simp_all add: Let_def split: option.split)
qed


text \<open>Trimming \<open>=\<close> from a string or from its bytes is the same.\<close>

lemma char_bytes_last:
  "char_bytes c \<noteq> [] \<and> (last (char_bytes c) = 0x3D \<longleftrightarrow> c = 61) \<and> (c = 61 \<longrightarrow> char_bytes c = [0x3D])"
proof -
  have cont: "(word_of_nat (0x80 + n mod 64) :: u8) \<noteq> 0x3D" for n
  proof
    assume "(word_of_nat (0x80 + n mod 64) :: u8) = 0x3D"
    then have "(word_of_nat (0x80 + n mod 64) :: u8) = word_of_nat 61" by simp
    moreover have "0x80 + n mod 64 < 256" using mod_less_divisor [of 64 n] by linarith
    ultimately show False using u8_of_nat_inj [of "0x80 + n mod 64" 61] by simp
  qed
  have "(word_of_nat c :: u8) = 0x3D \<longleftrightarrow> c = 61" if "c < 128"
    using u8_of_nat_inj [of c 61] that by auto
  with cont show ?thesis by (auto simp: char_bytes_def)
qed

lemma as_bytes_snoc: "as_bytes (s @ [c]) = as_bytes s @ char_bytes c"
  by (simp add: as_bytes_def)

lemma as_bytes_trim:
  "as_bytes (rev (dropWhile (\<lambda>c. c = 61) (rev s))) = trim_end_matches 0x3D (as_bytes s)"
proof (induction s rule: rev_induct)
  case Nil
  then show ?case by (simp add: as_bytes_def trim_end_matches_def)
next
  case (snoc c s)
  show ?case
  proof (cases "c = 61")
    case True
    with snoc char_bytes_last [of c] show ?thesis by (simp add: as_bytes_snoc trim_end_matches_def)
  next
    case False
    with char_bytes_last [of c] have "char_bytes c \<noteq> []" "last (char_bytes c) \<noteq> 0x3D" by auto
    then obtain x y where "char_bytes c = x @ [y]" "y \<noteq> 0x3D" by (metis append_butlast_last_id)
    with False show ?thesis by (simp add: as_bytes_snoc trim_end_matches_def)
  qed
qed

lemma a_base64_decode_eq: "a_base64_decode s = base64_decode (as_bytes s)"
  by (simp add: a_base64_decode_def base64_decode_def a_b64_loop_eq as_bytes_trim)

lemma a_header_lines_eq: "a_header_lines lines h = header_lines lines h"
proof -
  have "a_set_header = set_header" by (simp add: fun_eq_iff a_set_header_def set_header_def)
  then show ?thesis by (induction lines arbitrary: h) (simp_all split: option.split)
qed

lemma a_check_headers_eq: "a_check_headers h = check_headers h"
  by (auto simp: a_check_headers_def check_headers_def a_base64_decode_eq split: option.split)

lemma from_utf8_lossy_valid: "from_utf8 bs = Some s \<Longrightarrow> from_utf8_lossy bs = s"
proof (induction bs arbitrary: s rule: from_utf8.induct)
  case (1 bs)
  show ?case
  proof (cases bs)
    case Nil
    with 1(5) show ?thesis by (simp add: from_utf8.simps from_utf8_lossy.simps)
  next
    case (Cons b r)
    consider "b < 0x80" | "\<not> b < 0x80" "0xC2 \<le> b \<and> b \<le> 0xDF"
      | "\<not> b < 0x80" "\<not> (0xC2 \<le> b \<and> b \<le> 0xDF)" "0xE0 \<le> b \<and> b \<le> 0xEF"
      | "\<not> b < 0x80" "\<not> (0xC2 \<le> b \<and> b \<le> 0xDF)" "\<not> (0xE0 \<le> b \<and> b \<le> 0xEF)" "0xF0 \<le> b \<and> b \<le> 0xF4"
      | "\<not> b < 0x80" "\<not> (0xC2 \<le> b \<and> b \<le> 0xDF)" "\<not> (0xE0 \<le> b \<and> b \<le> 0xEF)" "\<not> (0xF0 \<le> b \<and> b \<le> 0xF4)"
      by blast
    then show ?thesis
    proof cases
      case b: 1
      with 1(5) Cons obtain t where "from_utf8 r = Some t" "s = unat b # t"
        by (subst (asm) from_utf8.simps) auto
      with 1(1) [OF Cons b] b Cons show ?thesis by (subst from_utf8_lossy.simps) simp
    next
      case b: 2
      with 1(5) Cons obtain c1 r' t where r: "r = c1 # r'" "is_cont c1" "from_utf8 r' = Some t"
          "s = ((unat b - 0xC0) * 64 + cont6 c1) # t"
        by (subst (asm) from_utf8.simps) (auto split: list.splits if_splits)
      with 1(2) [OF Cons b r(1,2)] b Cons show ?thesis by (subst from_utf8_lossy.simps) simp
    next
      case b: 3
      with 1(5) Cons obtain c1 c2 r' t where r: "r = c1 # c2 # r'"
          "is_cont c1 \<and> is_cont c2 \<and> (b = 0xE0 \<longrightarrow> 0xA0 \<le> c1) \<and> (b = 0xED \<longrightarrow> c1 \<le> 0x9F)"
          "from_utf8 r' = Some t" "s = ((unat b - 0xE0) * 4096 + cont6 c1 * 64 + cont6 c2) # t"
        by (subst (asm) from_utf8.simps) (auto split: list.splits if_splits)
      have le: "b \<le> 0xF4" "\<not> b \<le> 0xDF" using b(3) by (simp_all add: word_le_nat_alt)
      have "second_ok b c1" using r(2) b(3) by (auto simp: second_ok_def)
      with 1(3) [OF Cons b r(1) refl r(2)] r b le Cons show ?thesis
        by (subst from_utf8_lossy.simps) simp
    next
      case b: 4
      with 1(5) Cons obtain c1 c2 c3 r' t where r: "r = c1 # c2 # c3 # r'"
          "is_cont c1 \<and> is_cont c2 \<and> is_cont c3 \<and> (b = 0xF0 \<longrightarrow> 0x90 \<le> c1) \<and> (b = 0xF4 \<longrightarrow> c1 \<le> 0x8F)"
          "from_utf8 r' = Some t"
          "s = ((unat b - 0xF0) * 262144 + cont6 c1 * 4096 + cont6 c2 * 64 + cont6 c3) # t"
        by (subst (asm) from_utf8.simps) (auto split: list.splits if_splits)
      have ge: "0xE0 \<le> b" "\<not> b \<le> 0xEF" "\<not> b \<le> 0xDF" using b(4) by (simp_all add: word_le_nat_alt)
      have "second_ok b c1" using r(2) b(3,4) by (auto simp: second_ok_def)
      with 1(4) [OF Cons b r(1) refl refl r(2)] r b ge Cons show ?thesis
        by (subst from_utf8_lossy.simps) simp
    next
      case 5
      with 1(5) Cons show ?thesis by (subst (asm) from_utf8.simps) simp
    qed
  qed
qed

lemma a_compute_accept_eq: "a_compute_accept key = accept_key (as_bytes key)"
  by (simp add: a_compute_accept_def accept_key_spec a_base64_encode_eq a_sha1_fips
      a_WS_GUID_def WS_GUID_def)

lemma a_responses:
  "a_success_response key = success_response key" "a_error_response status = error_response status"
  by (simp_all add: a_success_response_def success_response_def a_error_response_def error_response_def
      a_compute_accept_eq)

lemma a_server_frame_eq: "a_server_frame opcode p = server_frame opcode p"
  by (simp add: a_server_frame_def server_frame_def)

lemma a_op_eq:
  "a_OP_CONT = OP_CONT" "a_OP_TEXT = OP_TEXT" "a_OP_BIN = OP_BIN" "a_OP_CLOSE = OP_CLOSE"
  "a_OP_PING = OP_PING" "a_OP_PONG = OP_PONG"
  by (simp_all add: a_op_defs op_defs)

text \<open>On valid UTF-8 the two validations differ only in the number of parts of the request line.\<close>

definition request_parts :: "str_chars \<Rightarrow> str_chars list" where
  "request_parts txt = split_char 32 [] (nth_part (split_crlf [] txt) 0)"

lemma a_parse_upgrade_eq:
  assumes "from_utf8 req = Some txt"
  shows "a_parse_upgrade req =
    (if length (request_parts txt) = 3 then parse_upgrade req else Inl status_400)"
proof -
  have "nth_part parts i = parts ! i" if "length parts = 3" "i < 3" for parts :: "str_chars list" and i
    using that by (simp add: nth_part_def)
  then show ?thesis
    using assms from_utf8_lossy_valid [OF assms]
    by (auto simp: a_parse_upgrade_def parse_upgrade_def request_parts_def Let_def a_header_lines_eq
        a_check_headers_eq split: sum.split)
qed


section \<open>Properties\<close>

text \<open>The asynchronous crate's handshake is that of the synchronous one: its one-shot SHA-1 is
  the algorithm of FIPS 180-4 on every input, the accept key and both responses are the same, and
  on every request that is valid UTF-8 with a request line of three parts both crates accept or
  refuse with the same status and the same key; one with any other number of parts is refused here.\<close>

theorem async_handshake_agrees:
  assumes "from_utf8 req = Some txt"
  shows "a_sha1 d = fips_sha1 d \<and> a_success_response key = success_response key \<and>
    a_error_response status = error_response status \<and>
    a_parse_upgrade req = (if length (request_parts txt) = 3 then parse_upgrade req else Inl status_400)"
  using a_sha1_fips a_responses a_parse_upgrade_eq [OF assms] by blast

theorem async_handshake_agrees_witness:
  "a_parse_upgrade (ascii ''GET /'' @ CRLF @ CRLF) = Inl status_400"
  using async_handshake_agrees [of "ascii ''GET /'' @ CRLF @ CRLF" "chars ''GET /'' @ [13, 10, 13, 10]"]
  by (simp add: from_utf8.simps ascii_def CRLF_def chars_def request_parts_def nth_part_def)

end
