(* ===== verification/Async_Protocol.thy ===== *)
theory Async_Protocol
  imports Protocol
begin

text \<open>
  The wire protocol of the asynchronous crate, \<open>rust-lib-async/src/protocol.rs\<close>: its envelopes,
  encoders, \<open>decode\<close>, \<open>write_frame\<close> and \<open>read_frame\<close>.  Definitions carry the prefix \<open>a_\<close> where the
  synchronous crate has an item of the same name.

  An \<open>AsyncRead\<close> is a reader whose \<open>Poll::Pending\<close> is the value \<^const>\<open>WouldBlock\<close>; awaiting it
  polls until it is ready.  \<open>read_frame\<close> fills a buffer of the \<open>bytes\<close> crate, whose capacity
  after \<open>with_capacity\<close> is a parameter \<open>cap\<close>: \<open>read_buf\<close> reads at most the spare capacity.

  The lemmas relate the functions to the specification in \<open>Protocol\<close>, and so to the synchronous
  crate: both speak the same protocol.
\<close>

section \<open>Envelopes and encoders\<close>

definition a_PROTOCOL_VERSION :: u8 where "a_PROTOCOL_VERSION = 1"
definition a_IDENTITY_SIZE :: nat where "a_IDENTITY_SIZE = 16"
definition a_MSG_ID_SIZE :: nat where "a_MSG_ID_SIZE = 16"
definition a_T_HELLO :: u8 where "a_T_HELLO = 0x01"
definition a_T_HEARTBEAT :: u8 where "a_T_HEARTBEAT = 0x02"
definition a_T_DATA :: u8 where "a_T_DATA = 0x03"
definition a_T_DATA_REQ :: u8 where "a_T_DATA_REQ = 0x04"
definition a_T_ACK :: u8 where "a_T_ACK = 0x05"

lemmas a_proto_consts =
  a_PROTOCOL_VERSION_def a_IDENTITY_SIZE_def a_MSG_ID_SIZE_def
  a_T_HELLO_def a_T_HEARTBEAT_def a_T_DATA_def a_T_DATA_REQ_def a_T_ACK_def

datatype a_envelope =
    AHello u8 identity
  | AHeartbeat
  | AData bytes
  | ADataReq msg_id bytes
  | AAck msg_id

text \<open>\<open>BufMut::put_u32\<close>.\<close>

definition put_u32 :: "bytes \<Rightarrow> u32 \<Rightarrow> bytes" where
  "put_u32 b v = b @ u32_to_be_bytes v"

definition a_hello :: "identity \<Rightarrow> bytes" where
  "a_hello ident =
     (let body_len = 2 + a_IDENTITY_SIZE
      in put_u32 [] (word_of_nat body_len) @ [a_T_HELLO] @ [a_PROTOCOL_VERSION] @ ident)"

definition a_heartbeat :: bytes where
  "a_heartbeat = [0, 0, 0, 1, a_T_HEARTBEAT]"

definition a_data :: "bytes \<Rightarrow> bytes" where
  "a_data p =
     (let body_len = 1 + length p
      in put_u32 [] (word_of_nat body_len) @ [a_T_DATA] @ p)"

definition a_data_req :: "msg_id \<Rightarrow> bytes \<Rightarrow> bytes" where
  "a_data_req m p =
     (let body_len = 1 + a_MSG_ID_SIZE + length p
      in put_u32 [] (word_of_nat body_len) @ [a_T_DATA_REQ] @ m @ p)"

definition a_ack :: "msg_id \<Rightarrow> bytes" where
  "a_ack m =
     (let body_len = 1 + a_MSG_ID_SIZE
      in put_u32 [] (word_of_nat body_len) @ [a_T_ACK] @ m)"

definition a_decode :: "bytes \<Rightarrow> a_envelope option" where
  "a_decode frame =
     (case frame of
        [] \<Rightarrow> None
      | t # body \<Rightarrow>
          if t = a_T_HELLO then
            (if length body < 1 + a_IDENTITY_SIZE then None
             else Some (AHello (body ! 0) (take a_IDENTITY_SIZE (drop 1 body))))
          else if t = a_T_HEARTBEAT then Some AHeartbeat
          else if t = a_T_DATA then Some (AData body)
          else if t = a_T_DATA_REQ then
            (if length body < a_MSG_ID_SIZE then None
             else Some (ADataReq (take a_MSG_ID_SIZE body) (drop a_MSG_ID_SIZE body)))
          else if t = a_T_ACK then
            (if length body < a_MSG_ID_SIZE then None
             else Some (AAck (take a_MSG_ID_SIZE body)))
          else None)"


section \<open>Reading and writing frames\<close>

text \<open>\<open>AsyncWriteExt::write_all\<close> and \<open>flush\<close>, awaited, over a \<open>poll_write\<close> and a \<open>poll_flush\<close>.\<close>

partial_function (option) a_write_all ::
    "('s \<Rightarrow> bytes \<Rightarrow> nat io_result \<times> 's) \<Rightarrow> 's \<Rightarrow> bytes \<Rightarrow> (unit io_result \<times> 's) option" where
  "a_write_all wr s bs =
     (if bs = [] then Some (Inr (), s)
      else case wr s bs of (r, s') \<Rightarrow>
        (case r of
           Inl e \<Rightarrow> if e = WouldBlock then a_write_all wr s' bs else Some (Inl e, s')
         | Inr n \<Rightarrow> if n = 0 then Some (Inl WriteZero, s') else a_write_all wr s' (drop n bs)))"

partial_function (option) await_flush ::
    "('s \<Rightarrow> unit io_result \<times> 's) \<Rightarrow> 's \<Rightarrow> (unit io_result \<times> 's) option" where
  "await_flush fl s =
     (case fl s of (r, s') \<Rightarrow> if r = Inl WouldBlock then await_flush fl s' else Some (r, s'))"

definition a_write_frame :: "('s \<Rightarrow> bytes \<Rightarrow> nat io_result \<times> 's) \<Rightarrow> ('s \<Rightarrow> unit io_result \<times> 's) \<Rightarrow>
    's \<Rightarrow> bytes \<Rightarrow> (unit io_result \<times> 's) option" where
  "a_write_frame wr fl w frame =
     (case a_write_all wr w frame of
        None \<Rightarrow> None
      | Some (Inl e, w1) \<Rightarrow> Some (Inl e, w1)
      | Some (Inr _, w1) \<Rightarrow>
          (case await_flush fl w1 of
             None \<Rightarrow> None
           | Some (Inl e, w2) \<Rightarrow> Some (Inl e, w2)
           | Some (Inr _, w2) \<Rightarrow> Some (Inr (), w2)))"

text \<open>\<open>poll_read(..).await\<close>: poll until the reader is ready.\<close>

partial_function (option) await_read :: "'s reader \<Rightarrow> 's \<Rightarrow> nat \<Rightarrow> (bytes io_result \<times> 's) option" where
  "await_read rd s n =
     (case rd s n of (r, s') \<Rightarrow>
        if r = Inl WouldBlock then await_read rd s' n else Some (r, s'))"

text \<open>\<open>AsyncReadExt::read_exact\<close>.\<close>

partial_function (option) a_read_exact :: "'s reader \<Rightarrow> 's \<Rightarrow> nat \<Rightarrow> bytes \<Rightarrow>
    (bytes io_result \<times> 's) option" where
  "a_read_exact rd s n acc =
     (if n = 0 then Some (Inr acc, s)
      else case await_read rd s n of
        None \<Rightarrow> None
      | Some (r, s') \<Rightarrow>
          (case r of
             Inl e \<Rightarrow> Some (Inl e, s')
           | Inr bs \<Rightarrow>
               if bs = [] then Some (Inl UnexpectedEof, s')
               else a_read_exact rd s' (n - length bs) (acc @ bs)))"

text \<open>The loop that fills the buffer of the body.\<close>

partial_function (option) a_fill :: "(nat \<Rightarrow> nat) \<Rightarrow> 's reader \<Rightarrow> 's \<Rightarrow> nat \<Rightarrow> bytes \<Rightarrow>
    (bytes option io_result \<times> 's) option" where
  "a_fill cap rd s len body =
     (if length body < len then
        (case await_read rd s (cap len - length body) of
           None \<Rightarrow> None
         | Some (r, s') \<Rightarrow>
             (case r of
                Inr bs \<Rightarrow>
                  if bs = [] then Some (Inr None, s') else a_fill cap rd s' len (body @ bs)
              | Inl e \<Rightarrow> Some (if e = UnexpectedEof then Inr None else Inl e, s')))
      else Some (Inr (Some body), s))"

definition a_read_frame :: "(nat \<Rightarrow> nat) \<Rightarrow> 's reader \<Rightarrow> 's \<Rightarrow> (bytes option io_result \<times> 's) option" where
  "a_read_frame cap rd r =
     (case a_read_exact rd r 4 [] of
        None \<Rightarrow> None
      | Some (Inl e, r1) \<Rightarrow> Some (if e = UnexpectedEof then Inr None else Inl e, r1)
      | Some (Inr len_buf, r1) \<Rightarrow>
          (let len = unat (u32_from_be_bytes len_buf) in a_fill cap rd r1 len []))"


section \<open>The same protocol\<close>

fun env :: "a_envelope \<Rightarrow> envelope" where
  "env (AHello v i) = Hello v i"
| "env AHeartbeat = Heartbeat"
| "env (AData p) = Data p"
| "env (ADataReq m p) = DataReq m p"
| "env (AAck m) = Ack m"

fun a_encode :: "a_envelope \<Rightarrow> bytes" where
  "a_encode (AHello v i) = a_hello i"
| "a_encode AHeartbeat = a_heartbeat"
| "a_encode (AData p) = a_data p"
| "a_encode (ADataReq m p) = a_data_req m p"
| "a_encode (AAck m) = a_ack m"

lemma env_inj: "env e = env e' \<longleftrightarrow> e = e'"
  by (cases e; cases e') auto

lemmas a_encoder_defs = a_hello_def a_heartbeat_def a_data_def a_data_req_def a_ack_def

lemma a_encoders:
  "a_hello i = hello i" "a_heartbeat = heartbeat" "a_data p = data p" "a_data_req m p = data_req m p"
  "a_ack m = ack m"
  by (simp_all add: a_encoder_defs hello_def heartbeat_def data_def data_req_def ack_def put_u32_def
      put_len_prefix_def a_proto_consts proto_consts)

lemma a_decode_env: "map_option env (a_decode bs) = decode bs"
  by (simp add: a_decode_def decode_def a_proto_consts proto_consts split: list.split)


section \<open>Reading frames\<close>

text \<open>A stream whose only errors are pending polls: the peer's bytes arrive, eventually.\<close>

locale async_stream = byte_stream +
  fixes flowing :: "'s \<Rightarrow> bool"
  assumes flowing_rd: "flowing s \<Longrightarrow> rd s n = (r, s') \<Longrightarrow> flowing s'"
    and flowing_err: "flowing s \<Longrightarrow> rd s n = (Inl e, s') \<Longrightarrow> e = WouldBlock"
begin

lemma await_read_flowing:
  assumes "flowing s" and "0 < n"
  shows "\<exists>bs s'. await_read rd s n = Some (Inr bs, s') \<and> flowing s' \<and> pend s = bs @ pend s' \<and>
    length bs \<le> n \<and> (bs = [] \<longrightarrow> pend s = []) \<and> (bs \<noteq> [] \<longrightarrow> steps s' < steps s)"
  using assms
proof (induction "steps s" arbitrary: s rule: less_induct)
  case less
  obtain r t where rd: "rd s n = (r, t)" by fastforce
  have t: "flowing t" using flowing_rd less.prems(1) rd by blast
  show ?case
  proof (cases r)
    case (Inl e)
    then have e: "e = WouldBlock" using flowing_err less.prems(1) rd by blast
    have lt: "steps t < steps s" using rd_progress [OF rd less.prems(2)] Inl by simp
    have "await_read rd s n = await_read rd t n"
      by (subst await_read.simps) (simp add: rd Inl e)
    moreover have "pend t = pend s" using rd_err rd Inl by simp
    ultimately show ?thesis using less.hyps [OF lt t less.prems(2)] lt by (auto intro: less_trans)
  next
    case (Inr bs)
    then have "await_read rd s n = Some (Inr bs, t)" by (subst await_read.simps) (simp add: rd)
    with t rd_ok [OF rd [unfolded Inr] less.prems(2)] rd_eof [of s n t] rd_progress [OF rd less.prems(2)]
      rd Inr less.prems(2)
    show ?thesis by auto
  qed
qed

lemma a_read_exact_flowing:
  assumes "flowing s"
  shows "\<exists>s'. flowing s' \<and>
    (if n \<le> length (pend s)
     then a_read_exact rd s n acc = Some (Inr (acc @ take n (pend s)), s') \<and> pend s' = drop n (pend s) \<and>
       steps s' \<le> steps s \<and> (0 < n \<longrightarrow> steps s' < steps s)
     else a_read_exact rd s n acc = Some (Inl UnexpectedEof, s') \<and> pend s' = [])"
  using assms
proof (induction "steps s" arbitrary: s n acc rule: less_induct)
  case less
  show ?case
  proof (cases "n = 0")
    case True
    with less.prems show ?thesis by (subst a_read_exact.simps) auto
  next
    case False
    then obtain bs t where aw: "await_read rd s n = Some (Inr bs, t)" and t: "flowing t"
        "pend s = bs @ pend t" "length bs \<le> n" "bs = [] \<longrightarrow> pend s = []" "bs \<noteq> [] \<longrightarrow> steps t < steps s"
      using await_read_flowing [OF less.prems, of n] by auto
    show ?thesis
    proof (cases "bs = []")
      case True
      with False aw t show ?thesis by (subst a_read_exact.simps) auto
    next
      case ne: False
      have lt: "steps t < steps s" using t(5) ne by simp
      have "a_read_exact rd s n acc = a_read_exact rd t (n - length bs) (acc @ bs)"
        using False aw ne by (subst a_read_exact.simps) simp
      with less.hyps [OF lt t(1), of "n - length bs" "acc @ bs"] t(2,3) lt show ?thesis
        by (cases "n \<le> length (pend s)") (auto intro: le_less_trans split: if_splits)
    qed
  qed
qed

lemma a_fill_flowing:
  assumes "flowing s" and "cap len = len" and "length body \<le> len"
  shows "\<exists>s'. flowing s' \<and>
    (if len - length body \<le> length (pend s)
     then a_fill cap rd s len body = Some (Inr (Some (body @ take (len - length body) (pend s))), s') \<and>
       pend s' = drop (len - length body) (pend s) \<and> steps s' \<le> steps s
     else a_fill cap rd s len body = Some (Inr None, s') \<and> pend s' = [])"
  using assms(1,3)
proof (induction "steps s" arbitrary: s body rule: less_induct)
  case less
  show ?case
  proof (cases "length body < len")
    case False
    with less.prems show ?thesis by (subst a_fill.simps) auto
  next
    case True
    then obtain bs t where aw: "await_read rd s (cap len - length body) = Some (Inr bs, t)"
      and t: "flowing t" "pend s = bs @ pend t" "length bs \<le> len - length body"
        "bs = [] \<longrightarrow> pend s = []" "bs \<noteq> [] \<longrightarrow> steps t < steps s"
      using await_read_flowing [OF less.prems(1), of "len - length body"] assms(2) by auto
    show ?thesis
    proof (cases "bs = []")
      case bs: True
      with True aw t show ?thesis by (subst a_fill.simps) auto
    next
      case bs: False
      have lt: "steps t < steps s" using t(5) bs by simp
      have "a_fill cap rd s len body = a_fill cap rd t len (body @ bs)"
        using True aw bs by (subst a_fill.simps) simp
      moreover have "length (body @ bs) \<le> len" using t(3) True by simp
      note IH = less.hyps [OF lt t(1) this]
      have "len - length body \<le> length (pend s) \<longleftrightarrow> len - length (body @ bs) \<le> length (pend t)"
        "take (len - length body) (pend s) = bs @ take (len - length (body @ bs)) (pend t)"
        "drop (len - length body) (pend s) = drop (len - length (body @ bs)) (pend t)"
        using t(2,3) by auto
      ultimately show ?thesis using IH lt by (auto split: if_splits)
    qed
  qed
qed

lemma a_read_frame_next:
  assumes "flowing s" and "\<And>n. cap n = n"
  shows "\<exists>s'. flowing s' \<and>
    (case next_frame (pend s) of
       Some (f, rest) \<Rightarrow> a_read_frame cap rd s = Some (Inr (Some f), s') \<and> pend s' = rest \<and> steps s' < steps s
     | None \<Rightarrow> a_read_frame cap rd s = Some (Inr None, s') \<and> pend s' = [])"
proof (cases "length (pend s) < 4")
  case True
  with a_read_exact_flowing [OF assms(1), of 4 "[]"] show ?thesis
    by (auto simp: a_read_frame_def next_frame_def)
next
  case False
  let ?n = "be_val (take 4 (pend s))"
  obtain t where t: "flowing t" "a_read_exact rd s 4 [] = Some (Inr (take 4 (pend s)), t)"
      "pend t = drop 4 (pend s)" "steps t < steps s"
    using a_read_exact_flowing [OF assms(1), of 4 "[]"] False by auto
  have n: "unat (u32_from_be_bytes (take 4 (pend s))) = ?n"
    using False by (intro unat_u32_from_be) simp
  have "a_read_frame cap rd s = a_fill cap rd t ?n []"
    using t(2) by (simp add: a_read_frame_def n)
  with a_fill_flowing [where cap = cap and len = ?n and body = "[]", OF t(1)] assms(2) t(3,4) False show ?thesis
    by (auto simp: next_frame_def add.commute split: if_splits)
qed

end

text \<open>A socket whose only stalls are pending polls.\<close>

definition stream_flowing :: "stream \<Rightarrow> bool" where
  "stream_flowing s \<longleftrightarrow>
     list_all (\<lambda>(d, ev). case ev of Arrive _ \<Rightarrow> True | Stall e \<Rightarrow> e = WouldBlock) (inbound s)"

lemma read_script_flowing:
  "read_script es n t = (r, es', t') \<Longrightarrow>
   list_all (\<lambda>(d, ev). case ev of Arrive _ \<Rightarrow> True | Stall e \<Rightarrow> e = WouldBlock) es \<Longrightarrow>
   list_all (\<lambda>(d, ev). case ev of Arrive _ \<Rightarrow> True | Stall e \<Rightarrow> e = WouldBlock) es' \<and>
   (\<forall>e. r = Inl e \<longrightarrow> e = WouldBlock)"
  by (induction es n t rule: read_script.induct) (auto split: if_splits)

interpretation tcp: async_stream stream_read stream_pend stream_steps stream_flowing
proof unfold_locales
  fix s n r s' assume "stream_flowing s" "stream_read s n = (r, s')"
  then show "stream_flowing s'"
    by (elim stream_read_cases) (auto simp: stream_flowing_def dest: read_script_flowing)
next
  fix s n e s' assume "stream_flowing s" "stream_read s n = (Inl e, s')"
  then show "e = WouldBlock"
    by (elim stream_read_cases) (auto simp: stream_flowing_def dest: read_script_flowing)
qed


section \<open>Properties\<close>

text \<open>C31. Both crates speak the same wire protocol: for every envelope the asynchronous encoder
  produces the same bytes as the synchronous one, and on every byte string the two decoders agree,
  on what they accept and on the envelope.  So envelopes sent by the asynchronous crate and fed to
  the synchronous frame decoder in any pieces come out unchanged and in order, and the
  asynchronous \<open>decode\<close> reads every frame of the synchronous crate.\<close>

theorem wire_compatible:
  assumes "list_all (\<lambda>e. sendable (env e)) es" and "next_frame rest = None"
    and "concat pieces = concat (map a_encode es) @ rest"
  shows "a_encode e = encode (env e) \<and> map_option env (a_decode bs) = decode bs \<and>
    map decode (fst (feed decoder_new pieces)) = map (Some \<circ> env) es \<and>
    buf (snd (feed decoder_new pieces)) = rest \<and>
    map a_decode (fst (split_frames (concat (map (encode \<circ> env) es)))) = map Some es"
proof -
  have enc: "a_encode e = encode (env e)" for e by (cases e) (simp_all add: a_encoders)
  then have same: "concat (map a_encode es) = concat (map encode (map env es))" by (simp add: comp_def cong: map_cong)
  have ok: "list_all sendable (map env es)" using assms(1) by (simp add: list_all_iff)
  have dec: "next_frame (buf decoder_new) = None" by (simp add: decoder_new_def next_frame_def)
  from feed_spec [OF dec, of pieces] assms(3) split_encoded [OF ok assms(2)] same
  have "fst (feed decoder_new pieces) = map envelope_bytes (map env es)"
    "buf (snd (feed decoder_new pieces)) = rest"
    by (simp_all add: decoder_new_def)
  moreover have "map decode (map envelope_bytes (map env es)) = map Some (map env es)"
    using map_decode_sendable [OF ok] .
  moreover have "map a_decode (map envelope_bytes (map env es)) = map Some es"
  proof -
    have "a_decode (envelope_bytes (env e)) = Some e" if "e \<in> set es" for e
    proof -
      have "map_option env (a_decode (envelope_bytes (env e))) = Some (env e)"
        using assms(1) that by (simp add: a_decode_env decode_envelope_bytes sendable_wf list_all_iff)
      then show ?thesis using env_inj by (cases "a_decode (envelope_bytes (env e))") auto
    qed
    then show ?thesis by simp
  qed
  ultimately show ?thesis
    using enc a_decode_env split_encoded [OF ok, of "[]"] by (simp add: next_frame_def comp_def)
qed

theorem wire_compatible_witness:
  "map decode (fst (feed decoder_new [[0, 0, 0], [2, 3, 9, 0]])) = [Some (Data [9])] \<and>
   buf (snd (feed decoder_new [[0, 0, 0], [2, 3, 9, 0]])) = [0]"
  using wire_compatible [of "[AData [9]]" "[0]" "[[0, 0, 0], [2, 3, 9, 0]]" AHeartbeat "[]"]
  by (simp add: next_frame_def a_data_def put_u32_def u32_to_be_bytes_def be_digits_eval a_proto_consts)

end
