(* ===== verification/Async_Ws.thy ===== *)
theory Async_Ws
  imports Async_Ws_Base Async_Protocol
begin

text \<open>
  The stream adapters of \<open>rust-lib-async/src/ws.rs\<close>: \<open>Prefixed\<close>, \<open>WsStream\<close>, the dispatch of
  \<open>Sniffed\<close> and \<open>sniff_and_wrap\<close>.

  The inner stream \<open>astream\<close> is a socket of \<open>Io_Model\<close> with \<open>tokio\<close>'s polling interface: a write
  may take only a part of the bytes, or none of them, and a pending call stores the waker of the
  task that polled last, one for each direction.  A \<open>Poll::Pending\<close> is the value
  \<^const>\<open>WouldBlock\<close>.
\<close>

section \<open>The inner stream\<close>

type_synonym task = nat

datatype write_poll = Takes nat | WPending | WFails error_kind

record astream =
  sock :: stream
  wpolls :: "write_poll list"            \<comment> \<open>outcomes of the coming polls of writes\<close>
  spolls :: "error_kind option list"     \<comment> \<open>outcomes of the coming polls of shutdowns\<close>
  rwaker :: "task option"                \<comment> \<open>the task to be woken when bytes arrive\<close>
  wwaker :: "task option"                \<comment> \<open>the task to be woken when there is room to write\<close>
  write_shut :: bool

definition a_poll_read :: "task \<Rightarrow> astream reader" where
  "a_poll_read cx s n =
     (case stream_read (sock s) n of (r, k) \<Rightarrow>
        (r, s\<lparr>sock := k, rwaker := (if r = Inl WouldBlock then Some cx else rwaker s)\<rparr>))"

definition a_put :: "astream \<Rightarrow> bytes \<Rightarrow> astream" where
  "a_put s bs = s\<lparr>sock := (sock s)\<lparr>outbound := outbound (sock s) @ bs\<rparr>\<rparr>"

definition a_poll_write :: "task \<Rightarrow> astream \<Rightarrow> bytes \<Rightarrow> nat io_result \<times> astream" where
  "a_poll_write cx s bs =
     (case wpolls s of
        [] \<Rightarrow> (Inr (length bs), a_put s bs)
      | Takes k # ps \<Rightarrow> (Inr (min k (length bs)), (a_put s (take k bs))\<lparr>wpolls := ps\<rparr>)
      | WPending # ps \<Rightarrow> (Inl WouldBlock, s\<lparr>wpolls := ps, wwaker := Some cx\<rparr>)
      | WFails e # ps \<Rightarrow> (Inl e, s\<lparr>wpolls := ps\<rparr>))"

definition a_poll_flush :: "task \<Rightarrow> astream \<Rightarrow> unit io_result \<times> astream" where
  "a_poll_flush cx s =
     (case stream_flush (sock s) of (r, k) \<Rightarrow>
        (r, s\<lparr>sock := k, wwaker := (if r = Inl WouldBlock then Some cx else wwaker s)\<rparr>))"

definition a_poll_shutdown :: "task \<Rightarrow> astream \<Rightarrow> unit io_result \<times> astream" where
  "a_poll_shutdown cx s =
     (case spolls s of
        [] \<Rightarrow> (Inr (), s\<lparr>write_shut := True\<rparr>)
      | None # ps \<Rightarrow> (Inr (), s\<lparr>write_shut := True, spolls := ps\<rparr>)
      | Some e # ps \<Rightarrow>
          (Inl e, s\<lparr>spolls := ps, wwaker := (if e = WouldBlock then Some cx else wwaker s)\<rparr>))"


section \<open>Prefixed\<close>

record prefixed =
  pf_inner :: astream
  pf_prefix :: bytes
  pf_pos :: nat

definition prefixed_new :: "bytes \<Rightarrow> astream \<Rightarrow> prefixed" where
  "prefixed_new pre s = \<lparr>pf_inner = s, pf_prefix = pre, pf_pos = 0\<rparr>"

definition pf_poll_read :: "task \<Rightarrow> prefixed reader" where
  "pf_poll_read cx p n =
     (if pf_pos p < length (pf_prefix p) then
        let remaining = drop (pf_pos p) (pf_prefix p); k = min (length remaining) n
        in (Inr (take k remaining), p\<lparr>pf_pos := pf_pos p + k\<rparr>)
      else case a_poll_read cx (pf_inner p) n of (r, i) \<Rightarrow> (r, p\<lparr>pf_inner := i\<rparr>))"

definition pf_poll_write :: "task \<Rightarrow> prefixed \<Rightarrow> bytes \<Rightarrow> nat io_result \<times> prefixed" where
  "pf_poll_write cx p bs = (case a_poll_write cx (pf_inner p) bs of (r, i) \<Rightarrow> (r, p\<lparr>pf_inner := i\<rparr>))"

definition pf_poll_flush :: "task \<Rightarrow> prefixed \<Rightarrow> unit io_result \<times> prefixed" where
  "pf_poll_flush cx p = (case a_poll_flush cx (pf_inner p) of (r, i) \<Rightarrow> (r, p\<lparr>pf_inner := i\<rparr>))"

definition pf_poll_shutdown :: "task \<Rightarrow> prefixed \<Rightarrow> unit io_result \<times> prefixed" where
  "pf_poll_shutdown cx p = (case a_poll_shutdown cx (pf_inner p) of (r, i) \<Rightarrow> (r, p\<lparr>pf_inner := i\<rparr>))"


section \<open>The WebSocket adapter\<close>

record a_ws =
  aw_inner :: astream
  in_buf :: bytes
  ready :: bytes
  out_buf :: bytes
  out_pos :: nat
  aw_close_sent :: bool
  aw_eof :: bool

datatype a_parsed = ANeed | APayload bytes | AControl | AEof | AError

definition a_ws_new :: "astream \<Rightarrow> a_ws" where
  "a_ws_new s =
     \<lparr>aw_inner = s, in_buf = [], ready = [], out_buf = [], out_pos = 0, aw_close_sent = False,
      aw_eof = False\<rparr>"

definition queue_frame :: "u8 \<Rightarrow> bytes \<Rightarrow> a_ws \<Rightarrow> a_ws" where
  "queue_frame opcode p w = w\<lparr>out_buf := out_buf w @ a_server_frame opcode p\<rparr>"

definition queue_close :: "u16 \<Rightarrow> a_ws \<Rightarrow> a_ws" where
  "queue_close code w =
     (if \<not> aw_close_sent w
      then queue_frame a_OP_CLOSE (u16_to_be_bytes code) (w\<lparr>aw_close_sent := True\<rparr>)
      else w)"

text \<open>The length field: an early return with the queued close code, or the length and offset.\<close>

definition a_frame_len :: "bytes \<Rightarrow> u8 \<Rightarrow> u16 option + (nat \<times> nat)" where
  "a_frame_len raw b1 =
     (let len = unat (b1 AND 0x7F)
      in if len = 126 then
           (if length raw < 4 then Inl None
            else Inr (unat (u16_from_be_bytes [raw ! 2, raw ! 3]), 4))
         else if len = 127 then
           (if length raw < 10 then Inl None
            else if raw ! 2 AND 0x80 \<noteq> 0 then Inl (Some 1002)
            else Inr (unat (u64_from_be_bytes (take 8 (drop 2 raw))), 10))
         else Inr (len, 2))"

definition a_dispatch :: "u8 \<Rightarrow> bytes \<Rightarrow> a_ws \<Rightarrow> a_parsed \<times> a_ws" where
  "a_dispatch opcode p w =
     (if opcode = a_OP_BIN \<or> opcode = a_OP_CONT then (APayload p, w)
      else if opcode = a_OP_PING then (AControl, queue_frame a_OP_PONG p w)
      else if opcode = a_OP_PONG then (AControl, w)
      else if opcode = a_OP_TEXT then (AError, queue_close 1003 w)
      else if opcode = a_OP_CLOSE then
        (AEof, queue_close (if 2 \<le> length p then u16_from_be_bytes [p ! 0, p ! 1] else 1000) w)
      else (AError, queue_close 1002 w))"

definition a_parse_one :: "a_ws \<Rightarrow> a_parsed \<times> a_ws" where
  "a_parse_one w =
     (let buf = in_buf w
      in if length buf < 2 then (ANeed, w)
         else
           let b0 = buf ! 0; b1 = buf ! 1
           in if b0 AND 0x70 \<noteq> 0 then (AError, queue_close 1002 w)
              else
                let opcode = b0 AND 0x0F; fin = (b0 AND 0x80 \<noteq> 0)
                in if b1 AND 0x80 = 0 then (AError, queue_close 1002 w)
                   else case a_frame_len buf b1 of
                          Inl None \<Rightarrow> (ANeed, w)
                        | Inl (Some code) \<Rightarrow> (AError, queue_close code w)
                        | Inr (len, off) \<Rightarrow>
                            if 0x8 \<le> opcode \<and> (\<not> fin \<or> 125 < len) then (AError, queue_close 1002 w)
                            else if length buf < off + 4 + len then (ANeed, w)
                            else
                              let mask = [buf ! off, buf ! (off + 1), buf ! (off + 2), buf ! (off + 3)];
                                  p = map (\<lambda>i. buf ! (off + 4 + i) XOR mask ! (i AND 3)) [0..<len]
                              in a_dispatch opcode p (w\<lparr>in_buf := drop (off + 4 + len) buf\<rparr>))"

function a_flush_out :: "task \<Rightarrow> a_ws \<Rightarrow> unit io_result \<times> a_ws" where
  "a_flush_out cx w =
     (if out_pos w < length (out_buf w) then
        (case a_poll_write cx (aw_inner w) (drop (out_pos w) (out_buf w)) of
           (Inl e, i) \<Rightarrow> (Inl e, w\<lparr>aw_inner := i\<rparr>)
         | (Inr n, i) \<Rightarrow>
             if n = 0 then (Inl WriteZero, w\<lparr>aw_inner := i\<rparr>)
             else a_flush_out cx (w\<lparr>aw_inner := i, out_pos := out_pos w + n\<rparr>))
      else (Inr (), w\<lparr>out_buf := [], out_pos := 0\<rparr>))"
  by pat_completeness auto
termination
  by (relation "measure (\<lambda>(cx, w). length (out_buf w) - out_pos w)") auto

declare a_flush_out.simps [simp del]


text \<open>\<open>AsyncRead\<close> and \<open>AsyncWrite\<close> of the adapter.\<close>

lemma a_flush_out_frame:
  "a_flush_out cx w = (r, w') \<Longrightarrow>
   in_buf w' = in_buf w \<and> ready w' = ready w \<and> aw_close_sent w' = aw_close_sent w \<and> aw_eof w' = aw_eof w \<and>
   inbound (sock (aw_inner w')) = inbound (sock (aw_inner w))"
proof (induction cx w rule: a_flush_out.induct)
  case (1 cx w)
  then show ?case
    by (subst (asm) (2) a_flush_out.simps)
      (fastforce simp: a_poll_write_def a_put_def split: if_splits list.splits write_poll.splits)
qed

lemma and_3_mod_4: "(i :: nat) AND 3 = i mod 4"
  using take_bit_eq_mask [of 2 i] by (simp add: mask_eq_exp_minus_1 take_bit_eq_mod)

lemma a_frame_len_eq:
  "frame_len raw b1 = (case a_frame_len raw b1 of
     Inl None \<Rightarrow> Inl NeedMore | Inl (Some c) \<Rightarrow> Inl (PProtocol c) | Inr x \<Rightarrow> Inr x)"
  using nth_8 [of raw] by (simp add: a_frame_len_def frame_len_def Let_def)

definition a_effect :: "parsed \<Rightarrow> a_ws \<Rightarrow> a_parsed \<times> a_ws" where
  "a_effect r w =
     (case r of
        NeedMore \<Rightarrow> (ANeed, w)
      | PData p \<Rightarrow> (APayload p, w)
      | PPing p \<Rightarrow> (AControl, queue_frame OP_PONG p w)
      | PPong \<Rightarrow> (AControl, w)
      | PClose c \<Rightarrow> (AEof, queue_close c w)
      | PProtocol c \<Rightarrow> (AError, queue_close c w))"

lemma a_dispatch_eq: "a_dispatch opcode p w = a_effect (classify opcode p) w"
  by (simp add: a_dispatch_def a_effect_def classify_def a_op_eq)

text \<open>\<open>parse_one\<close> is the synchronous parser with its effects.\<close>

lemma a_parse_one_eq:
  "a_parse_one w = (case parse_client_frame (in_buf w) of
     (r, n) \<Rightarrow> a_effect r (w\<lparr>in_buf := drop n (in_buf w)\<rparr>))"
proof -
  let ?b = "in_buf w"
  have p: "map (\<lambda>i. ?b ! (off + 4 + i) XOR k ! (i AND 3)) [0..<len] = unmask k (take len (drop (off + 4) ?b))"
    if "off + 4 + len \<le> length ?b" for off len k
    using that by (auto simp: unmask_def and_3_mod_4)
  show ?thesis
    unfolding a_parse_one_def parse_client_frame_def Let_def a_frame_len_eq a_dispatch_eq
    using p by (auto simp: a_effect_def not_less split: sum.split option.split)
qed


lemma queue_fields [simp]:
  "in_buf (queue_frame c p w) = in_buf w" "ready (queue_frame c p w) = ready w"
  "aw_eof (queue_frame c p w) = aw_eof w" "aw_inner (queue_frame c p w) = aw_inner w"
  "out_pos (queue_frame c p w) = out_pos w" "aw_close_sent (queue_frame c p w) = aw_close_sent w"
  "in_buf (queue_close d w) = in_buf w" "ready (queue_close d w) = ready w"
  "aw_eof (queue_close d w) = aw_eof w" "aw_inner (queue_close d w) = aw_inner w"
  "out_pos (queue_close d w) = out_pos w" "aw_close_sent (queue_close d w)"
  by (simp_all add: queue_frame_def queue_close_def)

lemma a_parse_one_cases:
  assumes "a_parse_one w = (r, w')"
  obtains (need) "r = ANeed" "w' = w" "parse_client_frame (in_buf w) = (NeedMore, 0)"
    | (payload) p n where "r = APayload p" "parse_client_frame (in_buf w) = (PData p, n)"
        "w' = w\<lparr>in_buf := drop n (in_buf w)\<rparr>"
    | (ping) p n where "r = AControl" "parse_client_frame (in_buf w) = (PPing p, n)"
        "w' = queue_frame OP_PONG p (w\<lparr>in_buf := drop n (in_buf w)\<rparr>)"
    | (pong) n where "r = AControl" "parse_client_frame (in_buf w) = (PPong, n)"
        "w' = w\<lparr>in_buf := drop n (in_buf w)\<rparr>"
    | (close) c n where "r = AEof" "parse_client_frame (in_buf w) = (PClose c, n)"
        "w' = queue_close c (w\<lparr>in_buf := drop n (in_buf w)\<rparr>)"
    | (violation) c n where "r = AError" "parse_client_frame (in_buf w) = (PProtocol c, n)"
        "w' = queue_close c (w\<lparr>in_buf := drop n (in_buf w)\<rparr>)"
proof -
  obtain q n where q: "parse_client_frame (in_buf w) = (q, n)" by fastforce
  show ?thesis
  proof (cases q)
    case NeedMore
    with q parse_consumed(2) [OF q] assms that(1) show ?thesis by (simp add: a_parse_one_eq a_effect_def)
  qed (use q assms that(2-6) in \<open>auto simp: a_parse_one_eq a_effect_def\<close>)
qed

lemma a_parse_one_shrinks:
  assumes "a_parse_one w = (r, w')"
  shows "aw_inner w' = aw_inner w \<and> aw_eof w' = aw_eof w \<and> length (in_buf w') \<le> length (in_buf w) \<and>
    ((\<exists>p. r = APayload p) \<or> r = AControl \<longrightarrow> length (in_buf w') < length (in_buf w))"
  using assms
proof (cases rule: a_parse_one_cases)
  case (payload p n)
  with parse_consumed(1,3) [OF payload(2)] show ?thesis by auto
next
  case (ping p n)
  with parse_consumed(1,4) [OF ping(2)] show ?thesis by auto
next
  case (pong n)
  with parse_consumed(1,4) [OF pong(2)] show ?thesis by auto
qed auto

function a_ws_poll_read :: "task \<Rightarrow> a_ws reader" where
  "a_ws_poll_read cx w0 n =
     (case a_flush_out cx w0 of (_, w) \<Rightarrow>
        if ready w \<noteq> [] then
          let k = min (length (ready w)) n
          in (Inr (take k (ready w)), w\<lparr>ready := drop k (ready w)\<rparr>)
        else if aw_eof w then (Inr [], w)
        else case a_parse_one w of
               (APayload p, w1) \<Rightarrow> a_ws_poll_read cx (w1\<lparr>ready := ready w1 @ p\<rparr>) n
             | (AControl, w1) \<Rightarrow> a_ws_poll_read cx w1 n
             | (AEof, w1) \<Rightarrow> a_ws_poll_read cx (w1\<lparr>aw_eof := True\<rparr>) n
             | (AError, w1) \<Rightarrow> a_ws_poll_read cx (w1\<lparr>aw_eof := True\<rparr>) n
             | (ANeed, w1) \<Rightarrow>
                 (case a_poll_read cx (aw_inner w1) 8192 of
                    (Inr filled, i) \<Rightarrow>
                      if filled = [] then (Inr [], w1\<lparr>aw_inner := i, aw_eof := True\<rparr>)
                      else a_ws_poll_read cx (w1\<lparr>aw_inner := i, in_buf := in_buf w1 @ filled\<rparr>) n
                  | (Inl e, i) \<Rightarrow> (Inl e, w1\<lparr>aw_inner := i\<rparr>)))"
  by pat_completeness auto
termination
proof (relation "measure (\<lambda>(cx, w, n). 2 * stream_steps (sock (aw_inner w)) + length (in_buf w) +
      of_bool (\<not> aw_eof w))", goal_cases)
  case (2 cx w0 n x w y w1 z i bs)
  from a_flush_out_frame [OF 2(1) [symmetric]] a_parse_one_shrinks [OF 2(4) [symmetric]] 2
    stream_read_bytes [of "sock (aw_inner w1)" 8192 bs "sock i"]
  show ?case by (cases bs) (auto simp: stream_steps_def a_poll_read_def split: prod.splits)
next
  case (3 cx w0 n x w y w1 p)
  from a_flush_out_frame [OF 3(1) [symmetric]] a_parse_one_shrinks [OF 3(4) [symmetric]] 3 show ?case
    by (simp add: stream_steps_def)
next
  case (4 cx w0 n x w y w1)
  from a_flush_out_frame [OF 4(1) [symmetric]] a_parse_one_shrinks [OF 4(4) [symmetric]] 4 show ?case
    by (simp add: stream_steps_def)
next
  case (5 cx w0 n x w y w1)
  from a_flush_out_frame [OF 5(1) [symmetric]] a_parse_one_shrinks [OF 5(4) [symmetric]] 5 show ?case
    by (simp add: stream_steps_def)
next
  case (6 cx w0 n x w y w1)
  from a_flush_out_frame [OF 6(1) [symmetric]] a_parse_one_shrinks [OF 6(4) [symmetric]] 6 show ?case
    by (simp add: stream_steps_def)
qed simp

declare a_ws_poll_read.simps [simp del]

definition a_ws_poll_write :: "task \<Rightarrow> a_ws \<Rightarrow> bytes \<Rightarrow> nat io_result \<times> a_ws" where
  "a_ws_poll_write cx w d =
     (case a_flush_out cx w of
        (Inl e, w1) \<Rightarrow> (Inl e, w1)
      | (Inr _, w1) \<Rightarrow>
          let w2 = w1\<lparr>out_buf := out_buf w1 @ a_server_frame a_OP_BIN d\<rparr>
          in case a_flush_out cx w2 of (_, w3) \<Rightarrow> (Inr (length d), w3))"

definition a_ws_poll_flush :: "task \<Rightarrow> a_ws \<Rightarrow> unit io_result \<times> a_ws" where
  "a_ws_poll_flush cx w =
     (case a_flush_out cx w of
        (Inr _, w1) \<Rightarrow> (case a_poll_flush cx (aw_inner w1) of (r, i) \<Rightarrow> (r, w1\<lparr>aw_inner := i\<rparr>))
      | (Inl e, w1) \<Rightarrow> (Inl e, w1))"

definition a_ws_poll_shutdown :: "task \<Rightarrow> a_ws \<Rightarrow> unit io_result \<times> a_ws" where
  "a_ws_poll_shutdown cx w =
     (case a_flush_out cx (queue_close 1000 w) of
        (Inr _, w1) \<Rightarrow> (case a_poll_shutdown cx (aw_inner w1) of (r, i) \<Rightarrow> (r, w1\<lparr>aw_inner := i\<rparr>))
      | (Inl e, w1) \<Rightarrow> (Inl e, w1))"


section \<open>Sniffing\<close>

datatype sniffed = SRaw prefixed | SWs a_ws

fun sn_poll_read :: "task \<Rightarrow> sniffed reader" where
  "sn_poll_read cx (SRaw p) n = (case pf_poll_read cx p n of (r, p') \<Rightarrow> (r, SRaw p'))"
| "sn_poll_read cx (SWs w) n = (case a_ws_poll_read cx w n of (r, w') \<Rightarrow> (r, SWs w'))"

fun sn_poll_write :: "task \<Rightarrow> sniffed \<Rightarrow> bytes \<Rightarrow> nat io_result \<times> sniffed" where
  "sn_poll_write cx (SRaw p) bs = (case pf_poll_write cx p bs of (r, p') \<Rightarrow> (r, SRaw p'))"
| "sn_poll_write cx (SWs w) bs = (case a_ws_poll_write cx w bs of (r, w') \<Rightarrow> (r, SWs w'))"

fun sn_poll_flush :: "task \<Rightarrow> sniffed \<Rightarrow> unit io_result \<times> sniffed" where
  "sn_poll_flush cx (SRaw p) = (case pf_poll_flush cx p of (r, p') \<Rightarrow> (r, SRaw p'))"
| "sn_poll_flush cx (SWs w) = (case a_ws_poll_flush cx w of (r, w') \<Rightarrow> (r, SWs w'))"

fun sn_poll_shutdown :: "task \<Rightarrow> sniffed \<Rightarrow> unit io_result \<times> sniffed" where
  "sn_poll_shutdown cx (SRaw p) = (case pf_poll_shutdown cx p of (r, p') \<Rightarrow> (r, SRaw p'))"
| "sn_poll_shutdown cx (SWs w) = (case a_ws_poll_shutdown cx w of (r, w') \<Rightarrow> (r, SWs w'))"

definition ends_with :: "bytes \<Rightarrow> bytes \<Rightarrow> bool" where
  "ends_with suf bs \<longleftrightarrow> length suf \<le> length bs \<and> drop (length bs - length suf) bs = suf"

text \<open>The loop that reads the request byte by byte: the request, or \<^term>\<open>None\<close> to close.\<close>

partial_function (option) a_request_loop :: "task \<Rightarrow> astream \<Rightarrow> bytes \<Rightarrow> (bytes option \<times> astream) option" where
  "a_request_loop cx s request =
     (case a_read_exact (a_poll_read cx) s 1 [] of
        None \<Rightarrow> None
      | Some (Inl e, s1) \<Rightarrow> Some (None, s1)
      | Some (Inr b, s1) \<Rightarrow>
          let request' = request @ [b ! 0]
          in if ends_with (CRLF @ CRLF) request' then Some (Some request', s1)
             else if a_MAX_REQUEST_BYTES < length request' then
               map_option (\<lambda>(_, s2). (None, s2)) (a_write_all (a_poll_write cx) s1 (a_error_response status_400))
             else a_request_loop cx s1 request')"

definition sniff_and_wrap :: "task \<Rightarrow> astream \<Rightarrow> (sniffed option io_result \<times> astream) option" where
  "sniff_and_wrap cx s =
     (case a_read_exact (a_poll_read cx) s 1 [] of
        None \<Rightarrow> None
      | Some (Inl e, s1) \<Rightarrow> Some (Inr None, s1)
      | Some (Inr first, s1) \<Rightarrow>
          if first ! 0 = 0x00 then Some (Inr (Some (SRaw (prefixed_new [0x00] s1))), s1)
          else if first ! 0 = 0x47 then
            (case a_request_loop cx s1 [0x47] of
               None \<Rightarrow> None
             | Some (None, s2) \<Rightarrow> Some (Inr None, s2)
             | Some (Some request, s2) \<Rightarrow>
                 (case a_parse_upgrade request of
                    Inr key \<Rightarrow>
                      (case a_write_all (a_poll_write cx) s2 (a_success_response key) of
                         None \<Rightarrow> None
                       | Some (Inl e, s3) \<Rightarrow> Some (Inl e, s3)
                       | Some (Inr _, s3) \<Rightarrow>
                           (case await_flush (a_poll_flush cx) s3 of
                              None \<Rightarrow> None
                            | Some (Inl e, s4) \<Rightarrow> Some (Inl e, s4)
                            | Some (Inr _, s4) \<Rightarrow> Some (Inr (Some (SWs (a_ws_new s4))), s4)))
                  | Inl status \<Rightarrow>
                      map_option (\<lambda>(_, s3). (Inr None, s3))
                        (a_write_all (a_poll_write cx) s2 (a_error_response status))))
          else Some (Inr None, s1))"




section \<open>Flushing\<close>

text \<open>What is on the wire or queued for it, and what was read but not yet given its meaning.\<close>

definition wire :: "a_ws \<Rightarrow> bytes" where
  "wire w = outbound (sock (aw_inner w)) @ drop (out_pos w) (out_buf w)"

definition aw_ok :: "a_ws \<Rightarrow> bool" where
  "aw_ok w \<longleftrightarrow> out_pos w \<le> length (out_buf w)"

definition a_raw :: "a_ws \<Rightarrow> bytes" where
  "a_raw w = (if aw_eof w then [] else in_buf w @ stream_pend (sock (aw_inner w)))"

lemma a_poll_write_cases:
  assumes "a_poll_write cx s bs = (r, s')"
  obtains (took) k where "r = Inr k" "k \<le> length bs" "outbound (sock s') = outbound (sock s) @ take k bs"
      "wwaker s' = wwaker s"
    | (failed) e where "r = Inl e" "sock s' = sock s"
  using assms
  by (auto simp: a_poll_write_def a_put_def min_def split: list.splits write_poll.splits if_splits)

lemma a_flush_out_wire:
  "a_flush_out cx w = (r, w') \<Longrightarrow> aw_ok w \<Longrightarrow>
   aw_ok w' \<and> wire w' = wire w \<and> (\<forall>u. r = Inr u \<longrightarrow> out_buf w' = [] \<and> out_pos w' = 0)"
proof (induction cx w rule: a_flush_out.induct)
  case (1 cx w)
  show ?case
  proof (cases "out_pos w < length (out_buf w)")
    case False
    with 1(2,3) show ?thesis by (subst (asm) a_flush_out.simps) (auto simp: aw_ok_def wire_def)
  next
    case True
    obtain q i where q: "a_poll_write cx (aw_inner w) (drop (out_pos w) (out_buf w)) = (q, i)" by fastforce
    from q show ?thesis
    proof (cases rule: a_poll_write_cases)
      case (failed e)
      with 1(2,3) True q show ?thesis
        by (subst (asm) a_flush_out.simps) (auto simp: aw_ok_def wire_def)
    next
      case (took k)
      let ?w = "w\<lparr>aw_inner := i, out_pos := out_pos w + k\<rparr>"
      show ?thesis
      proof (cases "k = 0")
        case True
        with took q 1(2,3) \<open>out_pos w < length (out_buf w)\<close> show ?thesis
          by (subst (asm) a_flush_out.simps) (auto simp: aw_ok_def wire_def)
      next
        case False
        have "a_flush_out cx ?w = (r, w')"
          using 1(2) True q took(1) False by (subst (asm) a_flush_out.simps) simp
        moreover have "aw_ok ?w" using took(2) True by (simp add: aw_ok_def)
        moreover have "wire ?w = wire w"
          using took(3) by (simp add: wire_def add.commute flip: drop_drop)
        ultimately show ?thesis using 1(1) [OF True q [symmetric] took(1) False] by simp
      qed
    qed
  qed
qed

lemma queue_wire:
  assumes "aw_ok w"
  shows "aw_ok (queue_frame c p w)" "wire (queue_frame c p w) = wire w @ server_frame c p"
    and "aw_ok (queue_close d w)"
    and "wire (queue_close d w) =
      wire w @ (if aw_close_sent w then [] else server_frame OP_CLOSE (u16_to_be_bytes d))"
  using assms by (auto simp: aw_ok_def wire_def queue_frame_def queue_close_def a_server_frame_eq a_op_eq)


section \<open>Reading\<close>

lemma a_ws_poll_read_rule [consumes 1, case_names ready ended payload control stop stalled finished filled]:
  assumes "a_ws_poll_read cx w0 n = (r, w')"
    and "\<And>w0 x w. a_flush_out cx w0 = (x, w) \<Longrightarrow> ready w \<noteq> [] \<Longrightarrow>
      R w0 (Inr (take n (ready w))) (w\<lparr>ready := drop n (ready w)\<rparr>)"
    and "\<And>w0 x w. a_flush_out cx w0 = (x, w) \<Longrightarrow> ready w = [] \<Longrightarrow> aw_eof w \<Longrightarrow> R w0 (Inr []) w"
    and "\<And>w0 x w p w1 r w'. a_flush_out cx w0 = (x, w) \<Longrightarrow> ready w = [] \<Longrightarrow> \<not> aw_eof w \<Longrightarrow>
      a_parse_one w = (APayload p, w1) \<Longrightarrow> R (w1\<lparr>ready := ready w1 @ p\<rparr>) r w' \<Longrightarrow> R w0 r w'"
    and "\<And>w0 x w w1 r w'. a_flush_out cx w0 = (x, w) \<Longrightarrow> ready w = [] \<Longrightarrow> \<not> aw_eof w \<Longrightarrow>
      a_parse_one w = (AControl, w1) \<Longrightarrow> R w1 r w' \<Longrightarrow> R w0 r w'"
    and "\<And>w0 x w q w1 r w'. a_flush_out cx w0 = (x, w) \<Longrightarrow> ready w = [] \<Longrightarrow> \<not> aw_eof w \<Longrightarrow>
      a_parse_one w = (q, w1) \<Longrightarrow> q = AEof \<or> q = AError \<Longrightarrow> R (w1\<lparr>aw_eof := True\<rparr>) r w' \<Longrightarrow> R w0 r w'"
    and "\<And>w0 x w e i. a_flush_out cx w0 = (x, w) \<Longrightarrow> ready w = [] \<Longrightarrow> \<not> aw_eof w \<Longrightarrow>
      parse_client_frame (in_buf w) = (NeedMore, 0) \<Longrightarrow> a_poll_read cx (aw_inner w) 8192 = (Inl e, i) \<Longrightarrow>
      R w0 (Inl e) (w\<lparr>aw_inner := i\<rparr>)"
    and "\<And>w0 x w i. a_flush_out cx w0 = (x, w) \<Longrightarrow> ready w = [] \<Longrightarrow> \<not> aw_eof w \<Longrightarrow>
      parse_client_frame (in_buf w) = (NeedMore, 0) \<Longrightarrow> a_poll_read cx (aw_inner w) 8192 = (Inr [], i) \<Longrightarrow>
      R w0 (Inr []) (w\<lparr>aw_inner := i, aw_eof := True\<rparr>)"
    and "\<And>w0 x w bs i r w'. a_flush_out cx w0 = (x, w) \<Longrightarrow> ready w = [] \<Longrightarrow> \<not> aw_eof w \<Longrightarrow>
      parse_client_frame (in_buf w) = (NeedMore, 0) \<Longrightarrow> a_poll_read cx (aw_inner w) 8192 = (Inr bs, i) \<Longrightarrow>
      bs \<noteq> [] \<Longrightarrow> R (w\<lparr>aw_inner := i, in_buf := in_buf w @ bs\<rparr>) r w' \<Longrightarrow> R w0 r w'"
  shows "R w0 r w'"
proof -
  have "a_ws_poll_read cx' w0 m = (r, w') \<Longrightarrow> cx' = cx \<Longrightarrow> m = n \<Longrightarrow> R w0 r w'" for cx' m
  proof (induction cx' w0 m arbitrary: r w' rule: a_ws_poll_read.induct)
    case (1 cx' w0 m)
    note run = 1(6) and eqs = 1(7,8)
    obtain x w where fl: "a_flush_out cx' w0 = (x, w)" by fastforce
    note fl' = fl [unfolded eqs]
    consider "ready w \<noteq> []" | "ready w = []" "aw_eof w" | "ready w = []" "\<not> aw_eof w" by blast
    then show ?case
    proof cases
      case 1
      with run fl assms(2) [OF fl' 1] eqs show ?thesis
        by (subst (asm) a_ws_poll_read.simps) (auto simp: Let_def min_def split: if_splits)
    next
      case 2
      with run fl assms(3) [OF fl' 2] eqs show ?thesis by (subst (asm) a_ws_poll_read.simps) auto
    next
      case 3
      then have r: "\<not> ready w \<noteq> []" by simp
      obtain q w1 where q: "a_parse_one w = (q, w1)" by fastforce
      note IH = 1(1-5) [OF fl [symmetric] r 3(2) q [symmetric]]
      note step = run fl 3 q
      show ?thesis
      proof (cases q)
        case (APayload p)
        have "a_ws_poll_read cx' (w1\<lparr>ready := ready w1 @ p\<rparr>) m = (r, w')"
          using step APayload by (subst (asm) a_ws_poll_read.simps) simp
        from IH(2) [OF APayload this eqs] assms(4) [OF fl' 3] q APayload show ?thesis by blast
      next
        case AControl
        have "a_ws_poll_read cx' w1 m = (r, w')"
          using step AControl by (subst (asm) a_ws_poll_read.simps) simp
        from IH(3) [OF AControl this eqs] assms(5) [OF fl' 3] q AControl show ?thesis by blast
      next
        case AEof
        have "a_ws_poll_read cx' (w1\<lparr>aw_eof := True\<rparr>) m = (r, w')"
          using step AEof by (subst (asm) a_ws_poll_read.simps) simp
        from IH(4) [OF AEof this eqs] assms(6) [OF fl' 3 q] AEof show ?thesis by blast
      next
        case AError
        have "a_ws_poll_read cx' (w1\<lparr>aw_eof := True\<rparr>) m = (r, w')"
          using step AError by (subst (asm) a_ws_poll_read.simps) simp
        from IH(5) [OF AError this eqs] assms(6) [OF fl' 3 q] AError show ?thesis by blast
      next
        case ANeed
        from q [unfolded ANeed] have w1: "w1 = w" and more: "parse_client_frame (in_buf w) = (NeedMore, 0)"
          by (auto elim: a_parse_one_cases)
        obtain a i where a: "a_poll_read cx' (aw_inner w1) 8192 = (a, i)" by fastforce
        note a' = a [unfolded w1 eqs]
        consider e where "a = Inl e" | "a = Inr []" | bs where "a = Inr bs" "bs \<noteq> []" by (cases a) auto
        then show ?thesis
        proof cases
          case (1 e)
          with step ANeed a w1 assms(7) [OF fl' 3 more, of e i] a' show ?thesis
            by (subst (asm) a_ws_poll_read.simps) auto
        next
          case 2
          with step ANeed a w1 assms(8) [OF fl' 3 more, of i] a' show ?thesis
            by (subst (asm) a_ws_poll_read.simps) auto
        next
          case (3 bs)
          have "a_ws_poll_read cx' (w1\<lparr>aw_inner := i, in_buf := in_buf w1 @ bs\<rparr>) m = (r, w')"
            using step ANeed a 3 by (subst (asm) a_ws_poll_read.simps) simp
          from IH(1) [OF ANeed a [symmetric] 3 this eqs] w1 a' 3
            assms(9) [OF fl' \<open>ready w = []\<close> \<open>\<not> aw_eof w\<close> more, of bs i r w']
          show ?thesis by simp
        qed
      qed
    qed
  qed
  with assms(1) show ?thesis by blast
qed


definition aw_pend :: "a_ws \<Rightarrow> bytes" where
  "aw_pend w = ready w @ ws_data (a_raw w)"

definition aw_steps :: "a_ws \<Rightarrow> nat" where
  "aw_steps w = length (ready w) + length (in_buf w) + stream_steps (sock (aw_inner w))"

lemma flush_keeps:
  assumes "a_flush_out cx w0 = (x, w)"
  shows "a_raw w = a_raw w0" "aw_pend w = aw_pend w0" "aw_steps w = aw_steps w0" "ready w = ready w0"
    "aw_eof w = aw_eof w0" "aw_close_sent w = aw_close_sent w0" "in_buf w = in_buf w0"
    "inbound (sock (aw_inner w)) = inbound (sock (aw_inner w0))"
  using a_flush_out_frame [OF assms]
  by (simp_all add: a_raw_def aw_pend_def aw_steps_def stream_pend_def stream_steps_def)

lemma parse_keeps:
  assumes "a_parse_one w = (q, w1)" and "\<not> aw_eof w" and "q \<noteq> ANeed"
    and "w2 = (case q of APayload p \<Rightarrow> w1\<lparr>ready := ready w1 @ p\<rparr> | AControl \<Rightarrow> w1 | _ \<Rightarrow> w1\<lparr>aw_eof := True\<rparr>)"
  shows "aw_pend w2 = aw_pend w" and "aw_steps w2 \<le> aw_steps w" and "aw_inner w2 = aw_inner w"
    and "aw_ok w \<Longrightarrow> aw_ok w2 \<and> (\<exists>new. wire w2 = wire w @ new \<and>
      ws_replies (aw_close_sent w) (a_raw w) = new @ ws_replies (aw_close_sent w2) (a_raw w2))"
proof -
  let ?x = "stream_pend (sock (aw_inner w))"
  have raw: "a_raw w = in_buf w @ ?x" using assms(2) by (simp add: a_raw_def)
  have "aw_pend w2 = aw_pend w \<and> aw_steps w2 \<le> aw_steps w \<and> aw_inner w2 = aw_inner w \<and>
    (aw_ok w \<longrightarrow> aw_ok w2 \<and> (\<exists>new. wire w2 = wire w @ new \<and>
      ws_replies (aw_close_sent w) (a_raw w) = new @ ws_replies (aw_close_sent w2) (a_raw w2)))"
    using assms(1)
  proof (cases rule: a_parse_one_cases)
    case need
    with assms(3) show ?thesis by simp
  next
    case (payload p n)
    with parse_consumed(1,3) [OF payload(2)] ws_data_cases(1) [OF payload(2), of ?x]
      ws_replies_cases(1) [OF payload(2), of "aw_close_sent w" ?x] assms(2,4) raw
    show ?thesis by (auto simp: aw_pend_def aw_steps_def a_raw_def aw_ok_def wire_def)
  next
    case (ping p n)
    with parse_consumed(1,4) [OF ping(2)] ws_data_cases(1) [OF ping(2), of ?x]
      ws_replies_cases(1) [OF ping(2), of "aw_close_sent w" ?x] assms(2,4) raw
      queue_wire(1,2) [of "w\<lparr>in_buf := drop n (in_buf w)\<rparr>" OP_PONG p]
    show ?thesis by (auto simp: aw_pend_def aw_steps_def a_raw_def aw_ok_def wire_def)
  next
    case (pong n)
    with parse_consumed(1,4) [OF pong(2)] ws_data_cases(1) [OF pong(2), of ?x]
      ws_replies_cases(1) [OF pong(2), of "aw_close_sent w" ?x] assms(2,4) raw
    show ?thesis by (auto simp: aw_pend_def aw_steps_def a_raw_def aw_ok_def wire_def)
  next
    case (close c n)
    with ws_data_cases(1) [OF close(2), of ?x] ws_replies_cases(1) [OF close(2), of "aw_close_sent w" ?x]
      assms(2,4) raw queue_wire(3,4) [of "w\<lparr>in_buf := drop n (in_buf w)\<rparr>" c]
    show ?thesis by (auto simp: aw_pend_def aw_steps_def a_raw_def aw_ok_def wire_def)
  next
    case (violation c n)
    with ws_data_cases(1) [OF violation(2), of ?x] ws_replies_cases(1) [OF violation(2), of "aw_close_sent w" ?x]
      assms(2,4) raw queue_wire(3,4) [of "w\<lparr>in_buf := drop n (in_buf w)\<rparr>" c]
    show ?thesis by (auto simp: aw_pend_def aw_steps_def a_raw_def aw_ok_def wire_def)
  qed
  then show "aw_pend w2 = aw_pend w" and "aw_steps w2 \<le> aw_steps w" and "aw_inner w2 = aw_inner w"
    and "aw_ok w \<Longrightarrow> aw_ok w2 \<and> (\<exists>new. wire w2 = wire w @ new \<and>
      ws_replies (aw_close_sent w) (a_raw w) = new @ ws_replies (aw_close_sent w2) (a_raw w2))"
    by blast+
qed

lemma a_poll_read_sock:
  assumes "a_poll_read cx s n = (r, s')"
  shows "stream_read (sock s) n = (r, sock s')"
  using assms by (auto simp: a_poll_read_def split: prod.splits)

text \<open>The adapter serves exactly the payloads of the client's frames.\<close>

lemma a_ws_poll_read_contract:
  assumes "a_ws_poll_read cx w n = (r, w')"
  shows "(\<forall>e. r = Inl e \<longrightarrow> aw_pend w' = aw_pend w) \<and>
    (\<forall>bs. r = Inr bs \<longrightarrow> aw_pend w = bs @ aw_pend w' \<and> length bs \<le> n) \<and>
    (r = Inr [] \<and> 0 < n \<longrightarrow> aw_pend w = []) \<and> (r \<noteq> Inr [] \<longrightarrow> aw_steps w' < aw_steps w)"
  using assms
proof (induction rule: a_ws_poll_read_rule)
  case (ready w0 x w)
  have "a_raw (w\<lparr>ready := drop n (ready w)\<rparr>) = a_raw w" by (simp add: a_raw_def)
  moreover have "aw_steps (w\<lparr>ready := drop n (ready w)\<rparr>) < aw_steps w" if "0 < n"
    using ready(2) that by (simp add: aw_steps_def)
  moreover have "aw_pend (w\<lparr>ready := drop n (ready w)\<rparr>) = drop n (ready w) @ ws_data (a_raw w)"
    by (simp add: aw_pend_def a_raw_def)
  moreover have "aw_pend w0 = take n (ready w) @ drop n (ready w) @ ws_data (a_raw w)"
    using flush_keeps [OF ready(1)] by (simp add: aw_pend_def)
  moreover have "n = 0 \<or> take n (ready w) \<noteq> []" using ready(2) by auto
  ultimately show ?case using flush_keeps(3) [OF ready(1)] by auto
next
  case (ended w0 x w)
  then show ?case using flush_keeps [OF ended(1)] by (simp add: aw_pend_def a_raw_def)
next
  case (payload w0 x w p w1 r w')
  then show ?case
    using flush_keeps [OF payload(1)] parse_keeps(1,2) [OF payload(4,3) _ refl] by auto
next
  case (control w0 x w w1 r w')
  then show ?case
    using flush_keeps [OF control(1)] parse_keeps(1,2) [OF control(4,3) _ refl] by auto
next
  case (stop w0 x w q w1 r w')
  have "q \<noteq> ANeed" and w2: "(case q of APayload p \<Rightarrow> w1\<lparr>ready := ready w1 @ p\<rparr> | AControl \<Rightarrow> w1
      | _ \<Rightarrow> w1\<lparr>aw_eof := True\<rparr>) = w1\<lparr>aw_eof := True\<rparr>"
    using stop(5) by auto
  from parse_keeps(1,2) [OF stop(4,3) this(1) refl, unfolded w2] stop(6)
  show ?case by (simp only: flush_keeps [OF stop(1)]) (meson order_less_le_trans)
next
  case (stalled w0 x w e i)
  note rd = a_poll_read_sock [OF stalled(5)]
  have "aw_pend (w\<lparr>aw_inner := i\<rparr>) = aw_pend w" "aw_steps (w\<lparr>aw_inner := i\<rparr>) < aw_steps w"
    using tcp.rd_err [OF rd] stream_read_err [OF rd] by (simp_all add: aw_pend_def a_raw_def aw_steps_def)
  then show ?case using flush_keeps [OF stalled(1)] by simp
next
  case (finished w0 x w i)
  have "stream_pend (sock (aw_inner w)) = []" using tcp.rd_eof [OF a_poll_read_sock [OF finished(5)]] by simp
  then have "aw_pend w = []"
    using finished(2,3) ws_data_cases(2) [OF finished(4)] by (simp add: aw_pend_def a_raw_def)
  then show ?case using flush_keeps [OF finished(1)] finished(2) by (simp add: aw_pend_def a_raw_def)
next
  case (filled w0 x w bs i r w')
  note rd = a_poll_read_sock [OF filled(5)]
  have "aw_pend (w\<lparr>aw_inner := i, in_buf := in_buf w @ bs\<rparr>) = aw_pend w"
    "aw_steps (w\<lparr>aw_inner := i, in_buf := in_buf w @ bs\<rparr>) \<le> aw_steps w"
    using tcp.rd_ok [OF rd] stream_read_bytes [OF rd] by (simp_all add: aw_pend_def a_raw_def aw_steps_def)
  with filled show ?case using flush_keeps [OF filled(1)] by auto
qed

text \<open>Reading sends exactly the replies that the consumed frames call for.\<close>

definition replied :: "a_ws \<Rightarrow> a_ws \<Rightarrow> bool" where
  "replied w w' \<longleftrightarrow> (aw_ok w \<longrightarrow> aw_ok w' \<and> (\<exists>new. wire w' = wire w @ new \<and>
     ws_replies (aw_close_sent w) (a_raw w) = new @ ws_replies (aw_close_sent w') (a_raw w')))"

lemma replied_trans: "replied w w' \<Longrightarrow> replied w' w'' \<Longrightarrow> replied w w''"
  unfolding replied_def by (metis append.assoc)

lemma replied_same:
  assumes "aw_ok w \<Longrightarrow> aw_ok w' \<and> wire w' = wire w"
    and "ws_replies (aw_close_sent w) (a_raw w) = ws_replies (aw_close_sent w') (a_raw w')"
  shows "replied w w'"
  unfolding replied_def using assms by simp

lemma flush_replied: "a_flush_out cx w0 = (x, w) \<Longrightarrow> replied w0 w"
  by (rule replied_same) (simp_all add: a_flush_out_wire flush_keeps)

lemma parse_replied:
  assumes "a_parse_one w = (q, w1)" and "\<not> aw_eof w" and "q \<noteq> ANeed"
  shows "replied w (case q of APayload p \<Rightarrow> w1\<lparr>ready := ready w1 @ p\<rparr> | AControl \<Rightarrow> w1
    | _ \<Rightarrow> w1\<lparr>aw_eof := True\<rparr>)"
  using parse_keeps(4) [OF assms refl] unfolding replied_def by blast

lemma read_replied:
  assumes "a_poll_read cx (aw_inner w) k = (r, i)"
    and "ws_replies (aw_close_sent w) (a_raw w) = ws_replies (aw_close_sent w') (a_raw w')"
    and "w' = w\<lparr>aw_inner := i, in_buf := b, aw_eof := e\<rparr>"
  shows "replied w w'"
  using stream_read_frame [OF a_poll_read_sock [OF assms(1)]] assms(2,3)
  by (intro replied_same) (simp_all add: aw_ok_def wire_def)

lemma a_ws_poll_read_replies: "a_ws_poll_read cx w n = (r, w') \<Longrightarrow> replied w w'"
proof (induction rule: a_ws_poll_read_rule)
  case (ready w0 x w)
  have "replied w (w\<lparr>ready := drop n (ready w)\<rparr>)"
    by (rule replied_same) (simp_all add: aw_ok_def wire_def a_raw_def)
  with flush_replied [OF ready(1)] show ?case by (rule replied_trans)
next
  case (ended w0 x w)
  then show ?case by (simp add: flush_replied)
next
  case (payload w0 x w p w1 r w')
  then show ?case
    using flush_replied [OF payload(1)] parse_replied [OF payload(4,3)] by (auto intro: replied_trans)
next
  case (control w0 x w w1 r w')
  then show ?case
    using flush_replied [OF control(1)] parse_replied [OF control(4,3)] by (auto intro: replied_trans)
next
  case (stop w0 x w q w1 r w')
  have "replied w (w1\<lparr>aw_eof := True\<rparr>)" using parse_replied [OF stop(4,3)] stop(5) by auto
  with flush_replied [OF stop(1)] have "replied w0 (w1\<lparr>aw_eof := True\<rparr>)" by (rule replied_trans)
  from this stop(6) show ?case by (rule replied_trans)
next
  case (stalled w0 x w e i)
  have "replied w (w\<lparr>aw_inner := i\<rparr>)"
    by (rule read_replied [OF stalled(5), where b = "in_buf w" and e = "aw_eof w"])
      (simp_all add: a_raw_def tcp.rd_err [OF a_poll_read_sock [OF stalled(5)]])
  with flush_replied [OF stalled(1)] show ?case by (rule replied_trans)
next
  case (finished w0 x w i)
  have "stream_pend (sock (aw_inner w)) = []"
    using tcp.rd_eof [OF a_poll_read_sock [OF finished(5)]] by simp
  then have "ws_replies c (a_raw w) = []" for c
    using finished(3) ws_replies_cases(2) [OF finished(4)] by (simp add: a_raw_def)
  then have "replied w (w\<lparr>aw_inner := i, aw_eof := True\<rparr>)"
    by (intro read_replied [OF finished(5), where b = "in_buf w" and e = True]) (simp_all add: a_raw_def)
  with flush_replied [OF finished(1)] show ?case by (rule replied_trans)
next
  case (filled w0 x w bs i r w')
  have "replied w (w\<lparr>aw_inner := i, in_buf := in_buf w @ bs\<rparr>)"
    by (rule read_replied [OF filled(5), where b = "in_buf w @ bs" and e = "aw_eof w"])
      (simp_all add: a_raw_def tcp.rd_ok [OF a_poll_read_sock [OF filled(5)]])
  with flush_replied [OF filled(1)] have "replied w0 (w\<lparr>aw_inner := i, in_buf := in_buf w @ bs\<rparr>)"
    by (rule replied_trans)
  from this filled(7) show ?case by (rule replied_trans)
qed


section \<open>The contract of an asynchronous stream\<close>

lemma a_poll_read_flowing:
  assumes "a_poll_read cx s n = (r, s')" and "stream_flowing (sock s)"
  shows "stream_flowing (sock s') \<and> (\<forall>e. r = Inl e \<longrightarrow> e = WouldBlock)"
  using tcp.flowing_rd tcp.flowing_err assms(2) a_poll_read_sock [OF assms(1)] by blast

definition a_pend :: "astream \<Rightarrow> bytes" where "a_pend s = stream_pend (sock s)"
definition a_steps :: "astream \<Rightarrow> nat" where "a_steps s = stream_steps (sock s)"
definition a_flowing :: "astream \<Rightarrow> bool" where "a_flowing s \<longleftrightarrow> stream_flowing (sock s)"

interpretation tokio: async_stream "a_poll_read cx" a_pend a_steps a_flowing for cx
proof unfold_locales
  fix s n r s' assume "a_flowing s" "a_poll_read cx s n = (r, s')"
  then show "a_flowing s'" using a_poll_read_flowing by (simp add: a_flowing_def)
next
  fix s n e s' assume "a_flowing s" "a_poll_read cx s n = (Inl e, s')"
  then show "e = WouldBlock" using a_poll_read_flowing by (auto simp: a_flowing_def)
qed (auto simp: a_pend_def a_steps_def dest!: a_poll_read_sock
    dest: tcp.rd_ok tcp.rd_err tcp.rd_eof tcp.rd_progress)

definition pf_pend :: "prefixed \<Rightarrow> bytes" where
  "pf_pend p = drop (pf_pos p) (pf_prefix p) @ a_pend (pf_inner p)"

definition pf_steps :: "prefixed \<Rightarrow> nat" where
  "pf_steps p = (length (pf_prefix p) - pf_pos p) + a_steps (pf_inner p)"

interpretation pf: async_stream "pf_poll_read cx" pf_pend pf_steps "\<lambda>p. a_flowing (pf_inner p)" for cx
proof unfold_locales
  fix p n bs p' assume "pf_poll_read cx p n = (Inr bs, p')" "0 < n"
  then show "pf_pend p = bs @ pf_pend p' \<and> length bs \<le> n"
    using tokio.rd_ok
    by (fastforce simp: pf_poll_read_def pf_pend_def Let_def min_def append_take_drop_id
        simp flip: append_assoc drop_drop add.commute split: if_splits prod.splits)
next
  fix p n e p' assume "pf_poll_read cx p n = (Inl e, p')"
  then show "pf_pend p' = pf_pend p"
    using tokio.rd_err by (fastforce simp: pf_poll_read_def pf_pend_def Let_def split: if_splits prod.splits)
next
  fix p n p' assume "pf_poll_read cx p n = (Inr [], p')" "0 < n"
  then show "pf_pend p = []"
    using tokio.rd_eof by (fastforce simp: pf_poll_read_def pf_pend_def Let_def split: if_splits prod.splits)
next
  fix p n r p' assume "pf_poll_read cx p n = (r, p')" "0 < n" "r \<noteq> Inr []"
  then show "pf_steps p' < pf_steps p"
    using tokio.rd_progress
    by (fastforce simp: pf_poll_read_def pf_steps_def Let_def split: if_splits prod.splits)
next
  fix p n r p' assume "a_flowing (pf_inner p)" "pf_poll_read cx p n = (r, p')"
  then show "a_flowing (pf_inner p')"
    using tokio.flowing_rd by (fastforce simp: pf_poll_read_def Let_def split: if_splits prod.splits)
next
  fix p n e p' assume "a_flowing (pf_inner p)" "pf_poll_read cx p n = (Inl e, p')"
  then show "e = WouldBlock"
    using tokio.flowing_err by (fastforce simp: pf_poll_read_def Let_def split: if_splits prod.splits)
qed

lemma flush_flowing: "a_flush_out cx w0 = (x, w) \<Longrightarrow> a_flowing (aw_inner w) = a_flowing (aw_inner w0)"
  by (simp add: a_flowing_def stream_flowing_def flush_keeps(8))

lemma a_ws_poll_read_flowing:
  "a_ws_poll_read cx w n = (r, w') \<Longrightarrow> a_flowing (aw_inner w) \<longrightarrow>
   a_flowing (aw_inner w') \<and> (\<forall>e. r = Inl e \<longrightarrow> e = WouldBlock)"
proof (induction rule: a_ws_poll_read_rule)
  case (payload w0 x w p w1 r w')
  then show ?case using flush_flowing [OF payload(1)] a_parse_one_shrinks [OF payload(4)] by simp
next
  case (control w0 x w w1 r w')
  then show ?case using flush_flowing [OF control(1)] a_parse_one_shrinks [OF control(4)] by simp
next
  case (stop w0 x w q w1 r w')
  then show ?case using flush_flowing [OF stop(1)] a_parse_one_shrinks [OF stop(4)] by simp
next
  case (stalled w0 x w e i)
  then show ?case
    using flush_flowing [OF stalled(1)] tokio.flowing_rd tokio.flowing_err by (metis a_ws.select_convs(1) a_ws.surjective a_ws.update_convs(1) sum.inject(1))
next
  case (finished w0 x w i)
  then show ?case using flush_flowing [OF finished(1)] tokio.flowing_rd by fastforce
next
  case (filled w0 x w bs i r w')
  then show ?case using flush_flowing [OF filled(1)] tokio.flowing_rd by fastforce
qed (simp_all add: flush_flowing)

interpretation aws: async_stream "a_ws_poll_read cx" aw_pend aw_steps "\<lambda>w. a_flowing (aw_inner w)" for cx
  by unfold_locales (auto dest: a_ws_poll_read_contract a_ws_poll_read_flowing)

fun sn_pend :: "sniffed \<Rightarrow> bytes" where
  "sn_pend (SRaw p) = pf_pend p"
| "sn_pend (SWs w) = aw_pend w"

fun sn_steps :: "sniffed \<Rightarrow> nat" where
  "sn_steps (SRaw p) = pf_steps p"
| "sn_steps (SWs w) = aw_steps w"

fun sn_inner :: "sniffed \<Rightarrow> astream" where
  "sn_inner (SRaw p) = pf_inner p"
| "sn_inner (SWs w) = aw_inner w"

lemma sn_poll_read_cases:
  assumes "sn_poll_read cx sn n = (r, sn')"
  obtains (raw) p p' where "sn = SRaw p" "sn' = SRaw p'" "pf_poll_read cx p n = (r, p')"
    | (ws) w w' where "sn = SWs w" "sn' = SWs w'" "a_ws_poll_read cx w n = (r, w')"
  using assms by (cases sn) (auto split: prod.splits)

interpretation sniffed: async_stream "sn_poll_read cx" sn_pend sn_steps "\<lambda>sn. a_flowing (sn_inner sn)" for cx
proof unfold_locales
  fix sn n bs sn' assume "sn_poll_read cx sn n = (Inr bs, sn')" "0 < n"
  then show "sn_pend sn = bs @ sn_pend sn' \<and> length bs \<le> n"
    by (auto elim!: sn_poll_read_cases dest: pf.rd_ok aws.rd_ok)
next
  fix sn n e sn' assume "sn_poll_read cx sn n = (Inl e, sn')"
  then show "sn_pend sn' = sn_pend sn" by (auto elim!: sn_poll_read_cases dest: pf.rd_err aws.rd_err)
next
  fix sn n sn' assume "sn_poll_read cx sn n = (Inr [], sn')" "0 < n"
  then show "sn_pend sn = []" by (auto elim!: sn_poll_read_cases dest: pf.rd_eof aws.rd_eof)
next
  fix sn n r sn' assume "sn_poll_read cx sn n = (r, sn')" "0 < n" "r \<noteq> Inr []"
  then show "sn_steps sn' < sn_steps sn"
    by (auto elim!: sn_poll_read_cases dest: pf.rd_progress aws.rd_progress)
next
  fix sn n r sn' assume "a_flowing (sn_inner sn)" "sn_poll_read cx sn n = (r, sn')"
  then show "a_flowing (sn_inner sn')"
    by (auto elim!: sn_poll_read_cases dest: pf.flowing_rd aws.flowing_rd)
next
  fix sn n e sn' assume "a_flowing (sn_inner sn)" "sn_poll_read cx sn n = (Inl e, sn')"
  then show "e = WouldBlock" by (auto elim!: sn_poll_read_cases dest: pf.flowing_err aws.flowing_err)
qed

end
