(* ===== verification/Async_Sniff.thy ===== *)
theory Async_Sniff
  imports Async_Ws
begin

text \<open>
  What the adapters of \<open>Async_Ws\<close> and \<open>sniff_and_wrap\<close> guarantee: the frames read through a
  sniffed stream are those the peer sent, nothing queued for the peer is lost, repeated or
  reordered however little each write takes, and which task is woken when a write had to wait.
\<close>

section \<open>Invariants of awaited calls\<close>

definition preserves :: "('s \<Rightarrow> bool) \<Rightarrow> 's reader \<Rightarrow> bool" where
  "preserves I rd \<longleftrightarrow> (\<forall>s n r s'. rd s n = (r, s') \<longrightarrow> I s \<longrightarrow> I s')"

lemma preservesD: "preserves I rd \<Longrightarrow> rd s n = (r, s') \<Longrightarrow> I s \<Longrightarrow> I s'"
  by (auto simp: preserves_def)

lemma await_read_inv:
  "await_read rd s n = Some p \<Longrightarrow> preserves I rd \<Longrightarrow> I s \<Longrightarrow> I (snd p)"
  by (induction rd s n p rule: await_read.raw_induct [rotated 1, consumes 1])
    (auto split: prod.splits if_splits; metis preservesD)

lemma a_read_exact_inv:
  "a_read_exact rd s n acc = Some p \<Longrightarrow> preserves I rd \<Longrightarrow> I s \<Longrightarrow> I (snd p)"
  by (induction rd s n acc p rule: a_read_exact.raw_induct [rotated 1, consumes 1])
    (auto split: prod.splits if_splits sum.splits option.splits dest: await_read_inv)

lemma a_poll_read_preserves:
  "preserves (\<lambda>s. outbound (sock s) = ob \<and> wpolls s = wp \<and> ffaults (sock s) = ff) (a_poll_read cx)"
  by (auto simp: preserves_def a_poll_read_def split: prod.splits dest: stream_read_frame)

text \<open>A connection that takes what is written, sooner or later.\<close>

definition writable :: "astream \<Rightarrow> bool" where
  "writable s \<longleftrightarrow>
     list_all (\<lambda>p. case p of Takes k \<Rightarrow> 0 < k | WPending \<Rightarrow> True | WFails e \<Rightarrow> e = WouldBlock) (wpolls s) \<and>
     list_all (\<lambda>f. f = None \<or> f = Some WouldBlock) (ffaults (sock s))"

lemma a_poll_write_writable:
  assumes "writable s" and "a_poll_write cx s bs = (r, s')"
  shows "writable s' \<and> inbound (sock s') = inbound (sock s) \<and>
    (r = Inl WouldBlock \<and> outbound (sock s') = outbound (sock s) \<and> length (wpolls s') < length (wpolls s) \<or>
     (\<exists>k. r = Inr k \<and> k \<le> length bs \<and> (bs \<noteq> [] \<longrightarrow> 0 < k) \<and>
        outbound (sock s') = outbound (sock s) @ take k bs \<and> length (wpolls s') \<le> length (wpolls s)))"
  using assms
  by (auto simp: writable_def a_poll_write_def a_put_def min_def split: list.splits write_poll.splits if_splits)

lemma a_write_all_writable:
  assumes "writable s"
  shows "\<exists>s'. a_write_all (a_poll_write cx) s bs = Some (Inr (), s') \<and> writable s' \<and>
    outbound (sock s') = outbound (sock s) @ bs \<and> inbound (sock s') = inbound (sock s)"
  using assms
proof (induction "length (wpolls s) + length bs" arbitrary: s bs rule: less_induct)
  case less
  show ?case
  proof (cases "bs = []")
    case True
    with less.prems show ?thesis by (subst a_write_all.simps) simp
  next
    case False
    obtain r t where w: "a_poll_write cx s bs = (r, t)" by fastforce
    note f = a_poll_write_writable [OF less.prems w]
    then consider "r = Inl WouldBlock" "outbound (sock t) = outbound (sock s)" "length (wpolls t) < length (wpolls s)"
      | k where "r = Inr k" "k \<le> length bs" "0 < k" "outbound (sock t) = outbound (sock s) @ take k bs"
        "length (wpolls t) \<le> length (wpolls s)"
      using False by auto
    then show ?thesis
    proof cases
      case 1
      then have "a_write_all (a_poll_write cx) s bs = a_write_all (a_poll_write cx) t bs"
        using False w by (subst a_write_all.simps) simp
      with less.hyps [of t bs] f 1 show ?thesis by simp
    next
      case (2 k)
      then have eq: "a_write_all (a_poll_write cx) s bs = a_write_all (a_poll_write cx) t (drop k bs)"
        using False w by (subst a_write_all.simps) simp
      have "length (wpolls t) + length (drop k bs) < length (wpolls s) + length bs" using 2 by simp
      with less.hyps [of t "drop k bs"] f 2 eq show ?thesis by auto
    qed
  qed
qed

lemma await_flush_writable:
  assumes "writable s"
  shows "\<exists>s'. await_flush (a_poll_flush cx) s = Some (Inr (), s') \<and> writable s' \<and>
    outbound (sock s') = outbound (sock s) \<and> inbound (sock s') = inbound (sock s)"
  using assms
proof (induction "length (ffaults (sock s))" arbitrary: s rule: less_induct)
  case less
  obtain r t where w: "a_poll_flush cx s = (r, t)" by fastforce
  have t: "writable t" "outbound (sock t) = outbound (sock s)" "inbound (sock t) = inbound (sock s)"
    "r = Inr () \<or> r = Inl WouldBlock \<and> length (ffaults (sock t)) < length (ffaults (sock s))"
    using less.prems w
    by (auto simp: a_poll_flush_def stream_flush_def writable_def split: list.splits prod.splits option.splits)
  from t(4) show ?case
  proof
    assume "r = Inr ()"
    with w t show ?thesis by (subst await_flush.simps) simp
  next
    assume r: "r = Inl WouldBlock \<and> length (ffaults (sock t)) < length (ffaults (sock s))"
    then have "await_flush (a_poll_flush cx) s = await_flush (a_poll_flush cx) t"
      using w by (subst await_flush.simps) simp
    with less.hyps [of t] r t show ?thesis by simp
  qed
qed


section \<open>Reading the request\<close>

lemma a_read_byte:
  assumes "a_flowing s" and "a_pend s = b # rest"
  shows "\<exists>s'. a_read_exact (a_poll_read cx) s 1 [] = Some (Inr [b], s') \<and> a_flowing s' \<and> a_pend s' = rest \<and>
    outbound (sock s') = outbound (sock s) \<and> wpolls s' = wpolls s \<and> ffaults (sock s') = ffaults (sock s)"
proof -
  obtain s' where s': "a_read_exact (a_poll_read cx) s 1 [] = Some (Inr [b], s')" "a_flowing s'" "a_pend s' = rest"
    using tokio.a_read_exact_flowing [OF assms(1), of 1 cx "[]"] assms(2) by auto
  with a_read_exact_inv [OF s'(1) a_poll_read_preserves] show ?thesis by auto
qed

lemma ends_with_request:
  assumes "is_request req" and "req = b @ y"
  shows "ends_with (CRLF @ CRLF) b \<longleftrightarrow> y = []"
proof -
  have len: "length (CRLF @ CRLF) = 4" by (simp add: CRLF_def)
  have suf: "ends_with (CRLF @ CRLF) b \<longleftrightarrow> 4 \<le> length b \<and> take 4 (drop (length b - 4) b) = CRLF @ CRLF"
    unfolding ends_with_def len by (auto simp: CRLF_def)
  have win: "take 4 (drop (length b - 4) b) = take 4 (drop (length b - 4) req)" if "4 \<le> length b"
    using that assms(2) by simp
  have first: "take 4 (drop (length req - 4) req) = CRLF @ CRLF" "4 \<le> length req"
    "\<forall>j < length req - 4. take 4 (drop j req) \<noteq> CRLF @ CRLF"
    using assms(1) is_request_length [OF assms(1)] unfolding is_request_def find_blank_line
    by (simp_all only: le_add_diff_inverse2) blast+
  show ?thesis
  proof (cases "y = []")
    case True
    with suf first assms(2) show ?thesis by simp
  next
    case False
    then have "length b < length req" using assms(2) by simp
    with first(3) suf win False show ?thesis by (metis diff_less_mono)
  qed
qed

lemma a_request_loop_reads:
  assumes "is_request req" and "length req \<le> a_MAX_REQUEST_BYTES"
    and "req = b @ y" and "y \<noteq> []" and "a_flowing s" and "a_pend s = y @ rest"
  shows "\<exists>s'. a_request_loop cx s b = Some (Some req, s') \<and> a_flowing s' \<and> a_pend s' = rest \<and>
    outbound (sock s') = outbound (sock s) \<and> wpolls s' = wpolls s \<and> ffaults (sock s') = ffaults (sock s)"
  using assms(3-6)
proof (induction y arbitrary: s b)
  case (Cons c y)
  obtain t where t: "a_read_exact (a_poll_read cx) s 1 [] = Some (Inr [c], t)" "a_flowing t" "a_pend t = y @ rest"
      "outbound (sock t) = outbound (sock s)" "wpolls t = wpolls s" "ffaults (sock t) = ffaults (sock s)"
    using a_read_byte [OF Cons.prems(3), of c "y @ rest" cx] Cons.prems(4) by auto
  have req: "req = (b @ [c]) @ y" using Cons.prems(1) by simp
  note ends = ends_with_request [OF assms(1) req]
  show ?case
  proof (cases "y = []")
    case True
    with t ends req show ?thesis by (subst a_request_loop.simps) (simp add: Let_def)
  next
    case False
    have "\<not> a_MAX_REQUEST_BYTES < length (b @ [c])" using assms(2) req False by (cases y) auto
    then have "a_request_loop cx s b = a_request_loop cx t (b @ [c])"
      using False t(1) ends by (subst a_request_loop.simps) (simp add: Let_def)
    with Cons.IH [OF req False t(2,3)] t show ?thesis by simp
  qed
qed simp


section \<open>Reading frames to the end\<close>

partial_function (option) a_frames :: "(nat \<Rightarrow> nat) \<Rightarrow> 's reader \<Rightarrow> 's \<Rightarrow> (bytes list \<times> 's) option" where
  "a_frames cap rd s =
     (case a_read_frame cap rd s of
        None \<Rightarrow> None
      | Some (r, s') \<Rightarrow>
          (case r of
             Inr (Some f) \<Rightarrow> Option.bind (a_frames cap rd s') (\<lambda>(fs, s''). Some (f # fs, s''))
           | _ \<Rightarrow> Some ([], s')))"

context async_stream
begin

lemma a_frames_all:
  assumes "flowing s" and "\<And>n. cap n = n"
  shows "\<exists>s'. a_frames cap rd s = Some (fst (split_frames (pend s)), s')"
  using assms(1)
proof (induction "steps s" arbitrary: s rule: less_induct)
  case less
  show ?case
  proof (cases "next_frame (pend s)")
    case None
    with a_read_frame_next [OF less.prems assms(2)] show ?thesis
      by (subst a_frames.simps) (auto simp: split_frames_None)
  next
    case (Some x)
    obtain f rest where x: "next_frame (pend s) = Some (f, rest)" using Some by (cases x) auto
    with a_read_frame_next [OF less.prems assms(2)] obtain t where t: "flowing t"
        "a_read_frame cap rd s = Some (Inr (Some f), t)" "pend t = rest" "steps t < steps s"
      by auto
    from less.hyps [OF t(4,1)] t x show ?thesis
      by (subst a_frames.simps) (auto simp: split_frames_Some)
  qed
qed

end

section \<open>Sniffing\<close>

lemma sniff_raw:
  assumes "a_flowing s" and "a_pend s = 0 # rest"
  shows "\<exists>sn s'. sniff_and_wrap cx s = Some (Inr (Some sn), s') \<and> a_flowing (sn_inner sn) \<and>
    sn_pend sn = 0 # rest \<and> outbound (sock (sn_inner sn)) = outbound (sock s)"
proof -
  obtain t where t: "a_read_exact (a_poll_read cx) s 1 [] = Some (Inr [0], t)" "a_flowing t" "a_pend t = rest"
      "outbound (sock t) = outbound (sock s)"
    using a_read_byte [OF assms, of cx] by auto
  then show ?thesis
    by (auto simp: sniff_and_wrap_def prefixed_new_def pf_pend_def)
qed

lemma sniff_other:
  assumes "a_flowing s" and "a_pend s = b # rest" and "b \<noteq> 0" and "b \<noteq> 0x47"
  shows "\<exists>s'. sniff_and_wrap cx s = Some (Inr None, s') \<and> outbound (sock s') = outbound (sock s)"
  using a_read_byte [OF assms(1,2), of cx] assms(3,4) by (auto simp: sniff_and_wrap_def)

lemma sniff_request:
  assumes "a_flowing s" and "writable s" and "is_request req" and "length req \<le> a_MAX_REQUEST_BYTES"
    and "hd req = 0x47" and "a_pend s = req @ frames"
  shows "case a_parse_upgrade req of
      Inr key \<Rightarrow> \<exists>sn s'. sniff_and_wrap cx s = Some (Inr (Some sn), s') \<and> a_flowing (sn_inner sn) \<and>
        sn_pend sn = ws_data frames \<and>
        outbound (sock (sn_inner sn)) = outbound (sock s) @ a_success_response key
    | Inl status \<Rightarrow> \<exists>s'. sniff_and_wrap cx s = Some (Inr None, s') \<and>
        outbound (sock s') = outbound (sock s) @ a_error_response status"
proof -
  obtain y where req: "req = [0x47] @ y" and "y \<noteq> []"
    using is_request_length [OF assms(3)] assms(5) by (cases req; cases "tl req") auto
  obtain t where t: "a_read_exact (a_poll_read cx) s 1 [] = Some (Inr [0x47], t)" "a_flowing t"
      "a_pend t = y @ frames" "outbound (sock t) = outbound (sock s)" "wpolls t = wpolls s"
      "ffaults (sock t) = ffaults (sock s)"
    using a_read_byte [OF assms(1), of "0x47" "y @ frames" cx] assms(6) req by auto
  obtain u where u: "a_request_loop cx t [0x47] = Some (Some req, u)" "a_flowing u" "a_pend u = frames"
      "outbound (sock u) = outbound (sock s)" "wpolls u = wpolls s" "ffaults (sock u) = ffaults (sock s)"
    using a_request_loop_reads [OF assms(3,4) req \<open>y \<noteq> []\<close> t(2,3), of cx] t(4-6) by auto
  have wr: "writable u" using assms(2) u(5,6) by (simp add: writable_def)
  show ?thesis
  proof (cases "a_parse_upgrade req")
    case (Inl status)
    with a_write_all_writable [OF wr, of cx "a_error_response status"] t(1) u show ?thesis
      by (auto simp: sniff_and_wrap_def)
  next
    case (Inr key)
    obtain v where v: "a_write_all (a_poll_write cx) u (a_success_response key) = Some (Inr (), v)" "writable v"
        "outbound (sock v) = outbound (sock s) @ a_success_response key" "inbound (sock v) = inbound (sock u)"
      using a_write_all_writable [OF wr, of cx "a_success_response key"] u(4) by auto
    obtain x where x: "await_flush (a_poll_flush cx) v = Some (Inr (), x)" "outbound (sock x) = outbound (sock v)"
        "inbound (sock x) = inbound (sock v)"
      using await_flush_writable [OF v(2), of cx] by auto
    have "a_flowing x" "a_pend x = frames"
      using u(2,3) v(4) x(3) by (simp_all add: a_flowing_def stream_flowing_def a_pend_def stream_pend_def)
    with Inr t(1) u(1) v x show ?thesis
      by (auto simp: sniff_and_wrap_def a_ws_new_def aw_pend_def a_raw_def a_pend_def)
  qed
qed


lemma flush_poll_wire:
  assumes "aw_ok w" and "a_ws_poll_flush cx w = (r, w')"
  shows "aw_ok w' \<and> wire w' = wire w \<and> (r = Inr () \<longrightarrow> outbound (sock (aw_inner w')) = wire w)"
proof -
  obtain q w1 where q: "a_flush_out cx w = (q, w1)" by fastforce
  note f = a_flush_out_wire [OF q assms(1)]
  show ?thesis
  proof (cases q)
    case (Inr u)
    with assms(2) q f show ?thesis
      by (auto simp: a_ws_poll_flush_def a_poll_flush_def aw_ok_def wire_def split: prod.splits
          dest: stream_flush_frame)
  qed (use assms(2) q f in \<open>auto simp: a_ws_poll_flush_def\<close>)
qed

lemma shutdown_poll_wire:
  assumes "aw_ok w" and "a_ws_poll_shutdown cx w = (r, w')"
  shows "aw_ok w' \<and> aw_close_sent w' \<and>
    wire w' = wire w @ (if aw_close_sent w then [] else server_frame OP_CLOSE (u16_to_be_bytes 1000)) \<and>
    (r = Inr () \<longrightarrow> outbound (sock (aw_inner w')) = wire w')"
proof -
  let ?w0 = "queue_close 1000 w"
  obtain q w1 where q: "a_flush_out cx ?w0 = (q, w1)" by fastforce
  note f = a_flush_out_wire [OF q queue_wire(3) [OF assms(1)]] a_flush_out_frame [OF q]
    queue_wire(4) [OF assms(1), of 1000]
  show ?thesis
  proof (cases q)
    case (Inr u)
    then have "sock (aw_inner w') = sock (aw_inner w1)" "out_buf w' = out_buf w1" "out_pos w' = out_pos w1"
      "aw_close_sent w' = aw_close_sent w1"
      using assms(2) q
      by (auto simp: a_ws_poll_shutdown_def a_poll_shutdown_def split: list.splits option.splits)
    then have "aw_ok w' = aw_ok w1" "wire w' = wire w1" by (simp_all add: aw_ok_def wire_def)
    moreover have "wire w1 = outbound (sock (aw_inner w1))" using Inr f by (simp add: wire_def)
    ultimately show ?thesis using f \<open>aw_close_sent w' = aw_close_sent w1\<close> \<open>sock (aw_inner w') = sock (aw_inner w1)\<close>
      by simp
  qed (use assms(2) q f in \<open>auto simp: a_ws_poll_shutdown_def\<close>)
qed

text \<open>A poll of the reader that finds nothing to read.\<close>

lemma poll_read_stalls:
  assumes "a_flush_out cx w = (x, w')" and "ready w' = []" and "\<not> aw_eof w'"
    and "parse_client_frame (in_buf w') = (NeedMore, 0)"
    and "inbound (sock (aw_inner w')) = (d, Stall WouldBlock) # es"
  obtains w2 where "a_ws_poll_read cx w n = (Inl WouldBlock, w2)"
    and "w2 = w'\<lparr>aw_inner := (aw_inner w')\<lparr>sock := (sock (aw_inner w'))\<lparr>inbound := es,
      clock := clock (sock (aw_inner w')) + d\<rparr>, rwaker := Some cx\<rparr>\<rparr>"
  using assms
  by (subst (asm) a_ws_poll_read.simps)
    (simp add: a_parse_one_eq a_effect_def a_poll_read_def stream_read_def)


section \<open>Properties\<close>




text \<open>C33. The adapter's output is exact under partial and pending writes: what is on the wire
  together with what is queued grows only at its end, by exactly one binary frame for each
  accepted write (a write that is pending or fails adds nothing), by the pongs and the close that
  the frames consumed by a read call for, by nothing for a flush, and by at most one close for a
  shutdown; a flush that succeeds leaves nothing queued.\<close>

theorem async_ws_output:
  assumes "aw_ok w"
  shows "(\<forall>d r w'. a_ws_poll_write cx w d = (r, w') \<longrightarrow> aw_ok w' \<and>
      (case r of Inr k \<Rightarrow> k = length d \<and> wire w' = wire w @ server_frame OP_BIN d | Inl e \<Rightarrow> wire w' = wire w)) \<and>
    (\<forall>n r w'. a_ws_poll_read cx w n = (r, w') \<longrightarrow> aw_ok w' \<and> (\<exists>new. wire w' = wire w @ new \<and>
      ws_replies (aw_close_sent w) (a_raw w) = new @ ws_replies (aw_close_sent w') (a_raw w'))) \<and>
    (\<forall>r w'. a_ws_poll_flush cx w = (r, w') \<longrightarrow> aw_ok w' \<and> wire w' = wire w \<and>
      (r = Inr () \<longrightarrow> outbound (sock (aw_inner w')) = wire w)) \<and>
    (\<forall>r w'. a_ws_poll_shutdown cx w = (r, w') \<longrightarrow> aw_ok w' \<and> aw_close_sent w' \<and>
      wire w' = wire w @ (if aw_close_sent w then [] else server_frame OP_CLOSE (u16_to_be_bytes 1000)) \<and>
      (r = Inr () \<longrightarrow> outbound (sock (aw_inner w')) = wire w'))"
proof (intro conjI allI impI)
  fix d r w' assume run: "a_ws_poll_write cx w d = (r, w')"
  obtain q w1 where q: "a_flush_out cx w = (q, w1)" by fastforce
  note f = a_flush_out_wire [OF q assms]
  have "aw_ok w' \<and> (case r of Inr k \<Rightarrow> k = length d \<and> wire w' = wire w @ server_frame OP_BIN d | Inl e \<Rightarrow> wire w' = wire w)"
  proof (cases q)
    case (Inl e)
    with run q f show ?thesis by (auto simp: a_ws_poll_write_def)
  next
    case (Inr u)
    let ?w2 = "w1\<lparr>out_buf := out_buf w1 @ a_server_frame a_OP_BIN d\<rparr>"
    obtain y w3 where y: "a_flush_out cx ?w2 = (y, w3)" by fastforce
    have "aw_ok ?w2" "wire ?w2 = wire w1 @ server_frame OP_BIN d"
      using queue_wire(1,2) [of w1 OP_BIN d] f by (simp_all add: queue_frame_def a_op_eq)
    with run q Inr y f a_flush_out_wire [OF y] show ?thesis by (auto simp: a_ws_poll_write_def Let_def)
  qed
  then show "aw_ok w'" and "case r of Inr k \<Rightarrow> k = length d \<and> wire w' = wire w @ server_frame OP_BIN d
      | Inl e \<Rightarrow> wire w' = wire w"
    by blast+
next
  fix n r w' assume "a_ws_poll_read cx w n = (r, w')"
  then show "aw_ok w'" and "\<exists>new. wire w' = wire w @ new \<and>
      ws_replies (aw_close_sent w) (a_raw w) = new @ ws_replies (aw_close_sent w') (a_raw w')"
    using a_ws_poll_read_replies assms unfolding replied_def by blast+
next
  fix r w' assume "a_ws_poll_flush cx w = (r, w')"
  then show "aw_ok w'" and "wire w' = wire w" and "r = Inr () \<Longrightarrow> outbound (sock (aw_inner w')) = wire w"
    using flush_poll_wire [OF assms] by blast+
next
  fix r w' assume "a_ws_poll_shutdown cx w = (r, w')"
  then show "aw_ok w'" and "aw_close_sent w'" and "r = Inr () \<Longrightarrow> outbound (sock (aw_inner w')) = wire w'"
    and "wire w' = wire w @ (if aw_close_sent w then [] else server_frame OP_CLOSE (u16_to_be_bytes 1000))"
    using shutdown_poll_wire [OF assms] by blast+
qed

text \<open>C34. A waiting writer is forgotten: the adapter's read half flushes the shared output with the
  reader's own waker.  When the writer's flush is pending, it is registered to be woken; a poll
  of the reader then replaces it, so that when the connection takes bytes again it is the reader
  that is woken and sends everything that was queued, while the writer, whose flush would now
  succeed, is registered nowhere.\<close>

theorem async_ws_lost_wakeup:
  assumes "out_pos w < length (out_buf w)" and "ready w = []" and "\<not> aw_eof w"
    and "parse_client_frame (in_buf w) = (NeedMore, 0)" and "wpolls (aw_inner w) = [WPending, WPending]"
    and "inbound (sock (aw_inner w)) = (d1, Stall WouldBlock) # (d2, Stall WouldBlock) # es"
    and "reader \<noteq> writer"
  shows "\<exists>w1 w2 w3. a_ws_poll_flush writer w = (Inl WouldBlock, w1) \<and> wwaker (aw_inner w1) = Some writer \<and>
    a_ws_poll_read reader w1 n = (Inl WouldBlock, w2) \<and> wwaker (aw_inner w2) = Some reader \<and>
    a_ws_poll_read reader w2 n = (Inl WouldBlock, w3) \<and> outbound (sock (aw_inner w3)) = wire w \<and>
    out_buf w3 = [] \<and> wwaker (aw_inner w3) \<noteq> Some writer \<and> rwaker (aw_inner w3) \<noteq> Some writer"
proof -
  let ?p = "aw_inner w"
  let ?w1 = "w\<lparr>aw_inner := ?p\<lparr>wpolls := [WPending], wwaker := Some writer\<rparr>\<rparr>"
  have f1: "a_flush_out writer w = (Inl WouldBlock, ?w1)"
    using assms(1,5) by (subst a_flush_out.simps) (simp add: a_poll_write_def)
  let ?w1' = "?w1\<lparr>aw_inner := (aw_inner ?w1)\<lparr>wpolls := [], wwaker := Some reader\<rparr>\<rparr>"
  have f2: "a_flush_out reader ?w1 = (Inl WouldBlock, ?w1')"
    using assms(1) by (subst a_flush_out.simps) (simp add: a_poll_write_def)
  obtain w2 where w2: "a_ws_poll_read reader ?w1 n = (Inl WouldBlock, w2)" "wpolls (aw_inner w2) = []"
      "wwaker (aw_inner w2) = Some reader" "rwaker (aw_inner w2) = Some reader"
      "inbound (sock (aw_inner w2)) = (d2, Stall WouldBlock) # es" "ready w2 = []" "\<not> aw_eof w2"
      "in_buf w2 = in_buf w" "out_buf w2 = out_buf w" "out_pos w2 = out_pos w"
      "outbound (sock (aw_inner w2)) = outbound (sock ?p)"
    by (rule poll_read_stalls [OF f2, where n = n]) (use assms in auto)
  let ?w2' = "(w2\<lparr>aw_inner := a_put (aw_inner w2) (drop (out_pos w2) (out_buf w2)), out_buf := [], out_pos := 0\<rparr>)"
  have f3: "a_flush_out reader w2 = (Inr (), ?w2')"
    using assms(1) w2 by (subst a_flush_out.simps, subst a_flush_out.simps) (simp add: a_poll_write_def)
  obtain w3 where "a_ws_poll_read reader w2 n = (Inl WouldBlock, w3)" "wwaker (aw_inner w3) = Some reader"
      "rwaker (aw_inner w3) = Some reader" "out_buf w3 = []"
      "outbound (sock (aw_inner w3)) = outbound (sock ?p) @ drop (out_pos w) (out_buf w)"
    by (rule poll_read_stalls [OF f3, where n = n]) (use assms w2 in \<open>auto simp: a_put_def\<close>)
  with f1 w2 assms(7) show ?thesis
    by (intro exI [of _ ?w1] exI [of _ w2] exI [of _ w3]) (auto simp: a_ws_poll_flush_def wire_def)
qed


definition demo_ws :: "a_ws" where
  "demo_ws = (a_ws_new \<lparr>sock = \<lparr>inbound = [(1, Stall WouldBlock), (1, Stall WouldBlock)], outbound = [],
       wfaults = [], ffaults = [], clock = 0\<rparr>, wpolls = [WPending, WPending], spolls = [],
       rwaker = None, wwaker = None, write_shut = False\<rparr>)\<lparr>out_buf := [5, 6]\<rparr>"

theorem async_ws_output_witness:
  "wire (snd (a_ws_poll_write 1 demo_ws [9])) = [5, 6]"
proof -
  have ok: "aw_ok demo_ws" by (simp add: aw_ok_def demo_ws_def a_ws_new_def)
  have "fst (a_ws_poll_write 1 demo_ws [9]) = Inl WouldBlock"
    by (simp add: a_ws_poll_write_def a_flush_out.simps a_poll_write_def demo_ws_def a_ws_new_def)
  then obtain w' where "a_ws_poll_write 1 demo_ws [9] = (Inl WouldBlock, w')"
    by (cases "a_ws_poll_write 1 demo_ws [9]") simp
  moreover have "wire demo_ws = [5, 6]" by (simp add: wire_def demo_ws_def a_ws_new_def)
  ultimately show ?thesis using conjunct1 [OF async_ws_output [OF ok, of 1]] by fastforce
qed

theorem async_ws_lost_wakeup_witness:
  "\<exists>w1 w2 w3. a_ws_poll_flush 1 demo_ws = (Inl WouldBlock, w1) \<and> wwaker (aw_inner w1) = Some 1 \<and>
    a_ws_poll_read 2 w1 64 = (Inl WouldBlock, w2) \<and> a_ws_poll_read 2 w2 64 = (Inl WouldBlock, w3) \<and>
    outbound (sock (aw_inner w3)) = [5, 6] \<and> wwaker (aw_inner w3) \<noteq> Some 1 \<and> rwaker (aw_inner w3) \<noteq> Some 1"
  using async_ws_lost_wakeup [of demo_ws 1 1 "[]" 2 1 64]
  by (simp add: demo_ws_def a_ws_new_def parse_client_frame_def wire_def) blast

end
