(* ===== verification/Async_Broker.thy ===== *)
theory Async_Broker
  imports Async_Protocol Broker
begin

text \<open>
  The broker of the asynchronous crate, \<open>rust-lib-async/src/broker.rs\<close>.  It has the tables of the
  synchronous broker, but no timer thread: the resend deadlines are a queue in the broker itself,
  and its task selects between the command channel and the first deadline.

  The structs \<open>Pending\<close>, \<open>SendMode\<close> and \<open>DeliveryGuarantee\<close> have the fields and variants of the
  synchronous crate, so their types are shared; channels are modelled as in \<open>Broker\<close>.  A handler
  that reads the clock gets the time as an argument.

  The main result is a simulation: every reachable state of this broker is, apart from the
  deadlines, a reachable state of the synchronous broker, so what \<open>Broker\<close> and its properties show
  of the tables, the routing and the message ids holds here too.
\<close>

definition a_RESEND_TIMEOUT :: nat where "a_RESEND_TIMEOUT = 5000"
definition a_MAX_RETRIES :: u32 where "a_MAX_RETRIES = 5"

datatype a_command =
    ASend "identity option" bytes
  | AConnectionUp identity chan chan
  | AConnectionDown identity
  | AReceived identity a_envelope
  | AClose

record a_broker =
  a_send_mode :: SendMode
  a_delivery :: DeliveryGuarantee
  a_recv_tx :: "(identity \<times> bytes) list"
  a_conns :: "(identity, chan) hmap"
  a_order :: "identity list"
  a_rr_cursor :: usize
  a_buffer :: "(identity option \<times> bytes) list"
  a_pending :: "(msg_id, pending_msg) hmap"
  a_deadlines :: "(nat \<times> msg_id) list"
  a_msg_id_salt :: bytes
  a_msg_id_counter :: u64
  a_writers :: "chan \<Rightarrow> bytes list"
  a_accepts :: "(chan \<times> bool) list"

definition a_broker_new :: "SendMode \<Rightarrow> DeliveryGuarantee \<Rightarrow> bytes \<Rightarrow> a_broker" where
  "a_broker_new mode guarantee uuid =
     \<lparr>a_send_mode = mode, a_delivery = guarantee, a_recv_tx = [], a_conns = [], a_order = [],
      a_rr_cursor = 0, a_buffer = [], a_pending = [], a_deadlines = [],
      a_msg_id_salt = take 8 uuid, a_msg_id_counter = 0, a_writers = (\<lambda>_. []), a_accepts = []\<rparr>"

definition a_tx_send :: "chan \<Rightarrow> bytes \<Rightarrow> a_broker \<Rightarrow> a_broker" where
  "a_tx_send tx frame b = b\<lparr>a_writers := (a_writers b)(tx := a_writers b tx @ [frame])\<rparr>"

definition a_next_msg_id :: "a_broker \<Rightarrow> msg_id \<times> a_broker" where
  "a_next_msg_id b =
     (let counter = a_msg_id_counter b
      in (a_msg_id_salt b @ u64_to_be_bytes counter, b\<lparr>a_msg_id_counter := counter + 1\<rparr>))"

definition a_next_round_robin :: "a_broker \<Rightarrow> identity option \<times> a_broker" where
  "a_next_round_robin b =
     (if a_order b = [] then (None, b)
      else let i = a_order b ! (unat (a_rr_cursor b) mod length (a_order b))
           in (Some i, b\<lparr>a_rr_cursor := a_rr_cursor b + 1\<rparr>))"

definition a_route :: "identity option \<Rightarrow> bytes \<Rightarrow> a_broker \<Rightarrow> a_broker" where
  "a_route target frame b =
     (case target of
        Some i \<Rightarrow> (case hm_get (a_conns b) i of Some tx \<Rightarrow> a_tx_send tx frame b | None \<Rightarrow> b)
      | None \<Rightarrow>
          (case a_send_mode b of
             Publish \<Rightarrow> fold (\<lambda>(_, tx). a_tx_send tx frame) (a_conns b) b
           | RoundRobin \<Rightarrow>
               (case a_next_round_robin b of
                  (None, b') \<Rightarrow> b'
                | (Some i, b') \<Rightarrow>
                    (case hm_get (a_conns b') i of Some tx \<Rightarrow> a_tx_send tx frame b' | None \<Rightarrow> b'))))"

definition a_transmit :: "nat \<Rightarrow> identity option \<Rightarrow> bytes \<Rightarrow> u32 \<Rightarrow> a_broker \<Rightarrow> a_broker" where
  "a_transmit now target p retries b =
     (let at_least_once =
            a_delivery b = AtLeastOnce \<and> (target \<noteq> None \<or> a_send_mode b = RoundRobin)
      in if at_least_once then
           let (m, b1) = a_next_msg_id b;
               frame = a_data_req m p;
               b2 = b1\<lparr>a_deadlines := a_deadlines b1 @ [(now + a_RESEND_TIMEOUT, m)]\<rparr>;
               b3 = b2\<lparr>a_pending := hm_insert m
                        \<lparr>p_identity = target, p_data = p, p_retries = retries\<rparr> (a_pending b2)\<rparr>
           in a_route target frame b3
         else a_route target (a_data p) b)"

definition a_handle_send :: "nat \<Rightarrow> identity option \<Rightarrow> bytes \<Rightarrow> a_broker \<Rightarrow> a_broker" where
  "a_handle_send now target p b =
     (if a_conns b = [] then b\<lparr>a_buffer := a_buffer b @ [(target, p)]\<rparr>
      else a_transmit now target p a_MAX_RETRIES b)"

definition a_handle_up :: "nat \<Rightarrow> identity \<Rightarrow> chan \<Rightarrow> chan \<Rightarrow> a_broker \<Rightarrow> a_broker" where
  "a_handle_up now i writer accept b =
     (if hm_get (a_conns b) i \<noteq> None then b\<lparr>a_accepts := a_accepts b @ [(accept, False)]\<rparr>
      else
        let b1 = b\<lparr>a_conns := hm_insert i writer (a_conns b), a_order := a_order b @ [i],
                   a_accepts := a_accepts b @ [(accept, True)]\<rparr>
        in if a_buffer b1 = [] then b1
           else fold (\<lambda>(target, p). a_handle_send now target p) (a_buffer b1) (b1\<lparr>a_buffer := []\<rparr>))"

definition a_handle_down :: "identity \<Rightarrow> a_broker \<Rightarrow> a_broker" where
  "a_handle_down i b = b\<lparr>a_conns := hm_remove i (a_conns b), a_order := remove1 i (a_order b)\<rparr>"

definition a_handle_received :: "identity \<Rightarrow> a_envelope \<Rightarrow> a_broker \<Rightarrow> a_broker" where
  "a_handle_received i e b =
     (case e of
        AData p \<Rightarrow> b\<lparr>a_recv_tx := a_recv_tx b @ [(i, p)]\<rparr>
      | ADataReq m p \<Rightarrow> a_route (Some i) (a_ack m) (b\<lparr>a_recv_tx := a_recv_tx b @ [(i, p)]\<rparr>)
      | AAck m \<Rightarrow> b\<lparr>a_pending := hm_remove m (a_pending b)\<rparr>
      | AHello _ _ \<Rightarrow> b
      | AHeartbeat \<Rightarrow> b)"

definition a_fire_resend :: "nat \<Rightarrow> msg_id \<Rightarrow> a_broker \<Rightarrow> a_broker" where
  "a_fire_resend now m b =
     (case hm_get (a_pending b) m of
        None \<Rightarrow> b
      | Some pm \<Rightarrow>
          let b1 = b\<lparr>a_pending := hm_remove m (a_pending b)\<rparr>
          in if p_retries pm = 0 then b1
             else if a_conns b1 = [] then b1\<lparr>a_buffer := a_buffer b1 @ [(p_identity pm, p_data pm)]\<rparr>
             else a_transmit now (p_identity pm) (p_data pm) (p_retries pm - 1) b1)"

lemma a_tx_send_deadlines [simp]: "a_deadlines (a_tx_send tx f b) = a_deadlines b"
  by (simp add: a_tx_send_def)

lemma a_fold_send_deadlines [simp]:
  "a_deadlines (fold (\<lambda>(i, tx). a_tx_send tx f) cs b) = a_deadlines b"
  by (induction cs arbitrary: b) auto

lemma a_route_deadlines [simp]: "a_deadlines (a_route t f b) = a_deadlines b"
  by (simp add: a_route_def a_next_round_robin_def split: option.split SendMode.split)

lemma a_transmit_deadlines:
  "a_deadlines (a_transmit now t p r b) = a_deadlines b \<or>
   (\<exists>m. a_deadlines (a_transmit now t p r b) = a_deadlines b @ [(now + a_RESEND_TIMEOUT, m)])"
  by (simp add: a_transmit_def a_next_msg_id_def Let_def)

lemma a_fire_resend_deadlines:
  "a_deadlines (a_fire_resend now m b) = a_deadlines b \<or>
   (\<exists>m'. a_deadlines (a_fire_resend now m b) = a_deadlines b @ [(now + a_RESEND_TIMEOUT, m')])"
proof (cases "hm_get (a_pending b) m")
  case None
  then show ?thesis by (simp add: a_fire_resend_def)
next
  case (Some pm)
  from a_transmit_deadlines [of now "p_identity pm" "p_data pm" "p_retries pm - 1"
      "b\<lparr>a_pending := hm_remove m (a_pending b)\<rparr>"] Some
  show ?thesis by (auto simp: a_fire_resend_def Let_def)
qed

text \<open>\<open>fire_due_resends\<close>; a message is sent again \<open>lag\<close> after the clock was read for the test.\<close>

function a_fire_due_resends :: "nat \<Rightarrow> nat \<Rightarrow> a_broker \<Rightarrow> a_broker" where
  "a_fire_due_resends now lag b =
     (case a_deadlines b of
        [] \<Rightarrow> b
      | (deadline, m) # rest \<Rightarrow>
          if now < deadline then b
          else a_fire_due_resends now lag (a_fire_resend (now + lag) m (b\<lparr>a_deadlines := rest\<rparr>)))"
  by pat_completeness auto
termination
proof (relation "measure (\<lambda>(now, lag, b). length (filter (\<lambda>(d, m). d \<le> now) (a_deadlines b)))", goal_cases)
  case (2 now lag b p rest deadline m)
  then show ?case
    using a_fire_resend_deadlines [of "now + lag" m "b\<lparr>a_deadlines := rest\<rparr>"]
    by (auto simp: a_RESEND_TIMEOUT_def)
qed simp

declare a_fire_due_resends.simps [simp del]

definition a_handle_command :: "nat \<Rightarrow> a_command \<Rightarrow> a_broker \<Rightarrow> a_broker" where
  "a_handle_command now cmd b =
     (case cmd of
        ASend target p \<Rightarrow> a_handle_send now target p b
      | AConnectionUp i writer accept \<Rightarrow> a_handle_up now i writer accept b
      | AConnectionDown i \<Rightarrow> a_handle_down i b
      | AReceived i e \<Rightarrow> a_handle_received i e b
      | AClose \<Rightarrow> b)"

text \<open>The events that the loop of \<open>run\<close> selects: a command, or the first deadline when it has passed.
  The loop stops at \<open>Close\<close>.\<close>

datatype a_event = ACmd a_command | ADeadline nat  \<comment> \<open>with the lag of the retransmissions\<close>

fun a_run :: "(nat \<times> a_event) list \<Rightarrow> a_broker \<Rightarrow> a_broker" where
  "a_run [] b = b"
| "a_run ((now, ACmd c) # es) b = (if c = AClose then b else a_run es (a_handle_command now c b))"
| "a_run ((now, ADeadline lag) # es) b = a_run es (a_fire_due_resends now lag b)"


section \<open>Simulation by the synchronous broker\<close>

fun cmd :: "a_command \<Rightarrow> command" where
  "cmd (ASend t p) = Send t p"
| "cmd (AConnectionUp i w a) = ConnectionUp i w a"
| "cmd (AConnectionDown i) = ConnectionDown i"
| "cmd (AReceived i e) = Received i (env e)"
| "cmd AClose = Close"

definition sync_of :: "a_broker \<Rightarrow> broker" where
  "sync_of a =
     \<lparr>send_mode = a_send_mode a, delivery = a_delivery a, recv_tx = a_recv_tx a, conns = a_conns a,
      order = a_order a, rr_cursor = a_rr_cursor a, buffer = a_buffer a, pending = a_pending a,
      salt = a_msg_id_salt a, next_id = a_msg_id_counter a, timer_tx = [], writers = a_writers a,
      accepts = a_accepts a\<rparr>"

definition untimed :: "broker \<Rightarrow> broker" where
  "untimed b = b\<lparr>timer_tx := []\<rparr>"

lemma sync_of_fields [simp]:
  "send_mode (sync_of a) = a_send_mode a" "delivery (sync_of a) = a_delivery a"
  "recv_tx (sync_of a) = a_recv_tx a" "conns (sync_of a) = a_conns a" "order (sync_of a) = a_order a"
  "rr_cursor (sync_of a) = a_rr_cursor a" "buffer (sync_of a) = a_buffer a"
  "pending (sync_of a) = a_pending a" "salt (sync_of a) = a_msg_id_salt a"
  "next_id (sync_of a) = a_msg_id_counter a" "writers (sync_of a) = a_writers a"
  "accepts (sync_of a) = a_accepts a"
  by (simp_all add: sync_of_def)

lemma untimed_fields [simp]:
  "send_mode (untimed b) = send_mode b" "delivery (untimed b) = delivery b"
  "recv_tx (untimed b) = recv_tx b" "conns (untimed b) = conns b" "order (untimed b) = order b"
  "rr_cursor (untimed b) = rr_cursor b" "buffer (untimed b) = buffer b"
  "pending (untimed b) = pending b" "salt (untimed b) = salt b" "next_id (untimed b) = next_id b"
  "writers (untimed b) = writers b" "accepts (untimed b) = accepts b"
  by (simp_all add: untimed_def)

text \<open>Two brokers of the two crates in the same state, apart from their timers.\<close>

definition sim :: "a_broker \<Rightarrow> broker \<Rightarrow> bool" where
  "sim a b \<longleftrightarrow> untimed b = sync_of a"

lemma sim_iff:
  "sim a b \<longleftrightarrow> send_mode b = a_send_mode a \<and> delivery b = a_delivery a \<and> recv_tx b = a_recv_tx a \<and>
     conns b = a_conns a \<and> order b = a_order a \<and> rr_cursor b = a_rr_cursor a \<and>
     buffer b = a_buffer a \<and> pending b = a_pending a \<and> salt b = a_msg_id_salt a \<and>
     next_id b = a_msg_id_counter a \<and> writers b = a_writers a \<and> accepts b = a_accepts a"
  by (cases b) (auto simp: sim_def untimed_def sync_of_def)

lemma sim_tx_send: "sim a b \<Longrightarrow> sim (a_tx_send tx f a) (tx_send tx f b)"
  by (simp add: sim_iff a_tx_send_def tx_send_def)

lemma sim_fold_send:
  "sim a b \<Longrightarrow> sim (fold (\<lambda>(_, tx). a_tx_send tx f) cs a) (fold (\<lambda>(_, tx). tx_send tx f) cs b)"
  by (induction cs arbitrary: a b) (auto intro: sim_tx_send)

lemma sim_tables: "sim a b \<Longrightarrow> conns b = a_conns a \<and> send_mode b = a_send_mode a"
  by (simp add: sim_iff)

lemma sim_round_robin:
  "sim a b \<Longrightarrow> a_next_round_robin a = (i, a') \<Longrightarrow>
   \<exists>b'. next_round_robin b = (i, b') \<and> sim a' b'"
  by (auto simp: a_next_round_robin_def next_round_robin_def sim_iff Let_def split: if_splits)

lemma sim_send_to:
  "sim a b \<Longrightarrow>
   sim (case hm_get (a_conns a) i of Some tx \<Rightarrow> a_tx_send tx f a | None \<Rightarrow> a)
     (case hm_get (conns b) i of Some tx \<Rightarrow> tx_send tx f b | None \<Rightarrow> b)"
  using sim_tables [of a b] by (auto intro: sim_tx_send split: option.split)

lemma sim_route:
  assumes "sim a b"
  shows "sim (a_route t f a) (route t f b)"
proof (cases t)
  case (Some i)
  with sim_send_to [OF assms] show ?thesis by (simp add: a_route_def route_def)
next
  case None
  show ?thesis
  proof (cases "a_send_mode a")
    case Publish
    with None sim_fold_send [OF assms] sim_tables [OF assms] show ?thesis
      by (simp add: a_route_def route_def)
  next
    case RoundRobin
    obtain i a' where a': "a_next_round_robin a = (i, a')" by fastforce
    from sim_round_robin [OF assms this] obtain b' where b': "next_round_robin b = (i, b')" "sim a' b'"
      by blast
    with a' None RoundRobin sim_send_to [OF b'(2)] sim_tables [OF assms] show ?thesis
      by (cases i) (simp_all add: a_route_def route_def)
  qed
qed

lemma sim_transmit: "sim a b \<Longrightarrow> sim (a_transmit now t p r a) (transmit t p r b)"
  unfolding a_transmit_def transmit_def a_next_msg_id_def next_msg_id_def Let_def
  by (auto simp: a_encoders sim_iff [of a b] intro!: sim_route) (simp_all add: sim_iff)

lemma sim_handle_send: "sim a b \<Longrightarrow> sim (a_handle_send now t p a) (handle_send t p b)"
  using sim_transmit [of a b now t p a_MAX_RETRIES]
  by (simp add: a_handle_send_def handle_send_def a_MAX_RETRIES_def MAX_RETRIES_def sim_iff)


lemma sim_fold_handle_send:
  "sim a b \<Longrightarrow> sim (fold (\<lambda>(t, p). a_handle_send now t p) xs a) (fold (\<lambda>(t, p). handle_send t p) xs b)"
  by (induction xs arbitrary: a b) (auto intro: sim_handle_send)

lemma sim_handle_up: "sim a b \<Longrightarrow> sim (a_handle_up now i w c a) (handle_up i w c b)"
  unfolding a_handle_up_def handle_up_def Let_def
  by (auto simp: sim_iff [of a b] intro!: sim_fold_handle_send) (simp_all add: sim_iff)

lemma sim_handle_down: "sim a b \<Longrightarrow> sim (a_handle_down i a) (handle_down i b)"
  by (simp add: sim_iff a_handle_down_def handle_down_def)

lemma sim_handle_received: "sim a b \<Longrightarrow> sim (a_handle_received i e a) (handle_received i (env e) b)"
proof (cases e)
  case (ADataReq m p)
  assume "sim a b"
  then have "sim (a\<lparr>a_recv_tx := a_recv_tx a @ [(i, p)]\<rparr>) (b\<lparr>recv_tx := recv_tx b @ [(i, p)]\<rparr>)"
    by (simp add: sim_iff)
  from sim_route [OF this] show ?thesis
    by (simp add: ADataReq a_handle_received_def handle_received_def a_encoders)
qed (auto simp: a_handle_received_def handle_received_def sim_iff hm_remove_absent)

lemma sim_resend: "sim a b \<Longrightarrow> sim (a_fire_resend now m a) (handle_resend m b)"
  unfolding a_fire_resend_def handle_resend_def Let_def
  by (auto simp: sim_iff [of a b] split: option.split intro!: sim_transmit) (simp_all add: sim_iff)

lemma sim_command: "sim a b \<Longrightarrow> sim (a_handle_command now c a) (handle_command (cmd c) b)"
  by (cases c)
    (simp_all add: a_handle_command_def handle_command_def sim_handle_send sim_handle_up
      sim_handle_down sim_handle_received)

lemma sim_deadlines [simp]: "sim (a\<lparr>a_deadlines := ds\<rparr>) b = sim a b"
  by (simp add: sim_iff)

text \<open>Firing the due deadlines is the sequence of timeouts of the synchronous broker for the ids
  whose deadline has passed, in the order of the queue.\<close>

definition due_ids :: "nat \<Rightarrow> a_broker \<Rightarrow> msg_id list" where
  "due_ids now a = map snd (takeWhile (\<lambda>(d, m). d \<le> now) (a_deadlines a))"

lemma due_ids_resend:
  "a_deadlines a = (d, m) # rest \<Longrightarrow> d \<le> now \<Longrightarrow>
   due_ids now a = m # due_ids now (a_fire_resend (now + lag) m (a\<lparr>a_deadlines := rest\<rparr>))"
  using a_fire_resend_deadlines [of "now + lag" m "a\<lparr>a_deadlines := rest\<rparr>"]
  by (auto simp: due_ids_def takeWhile_append a_RESEND_TIMEOUT_def)
    (metis takeWhile_eq_all_conv)

lemma a_fire_due_none:
  "due_ids now a = [] \<Longrightarrow> a_fire_due_resends now lag a = a"
  by (subst a_fire_due_resends.simps) (auto simp: due_ids_def split: list.split if_splits)

text \<open>Induction over the due messages.\<close>

lemma a_fire_due_rule [case_names none some]:
  assumes "\<And>a. due_ids now a = [] \<Longrightarrow> P a a"
    and "\<And>a d m rest. a_deadlines a = (d, m) # rest \<Longrightarrow> d \<le> now \<Longrightarrow>
      P (a_fire_resend (now + lag) m (a\<lparr>a_deadlines := rest\<rparr>)) (a_fire_due_resends now lag a) \<Longrightarrow>
      P a (a_fire_due_resends now lag a)"
  shows "P a (a_fire_due_resends now lag a)"
proof (induction "due_ids now a" arbitrary: a)
  case Nil
  with assms(1) [of a] a_fire_due_none [of now a lag] show ?case by simp
next
  case (Cons x xs)
  then obtain d m rest where d: "a_deadlines a = (d, m) # rest" "d \<le> now"
    by (cases "a_deadlines a") (auto simp: due_ids_def split: if_splits)
  let ?a = "a_fire_resend (now + lag) m (a\<lparr>a_deadlines := rest\<rparr>)"
  have "xs = due_ids now ?a" using Cons.hyps(2) due_ids_resend [OF d, of lag] by simp
  then have "P ?a (a_fire_due_resends now lag ?a)" by (rule Cons.hyps(1))
  moreover have "a_fire_due_resends now lag a = a_fire_due_resends now lag ?a"
    using d by (subst a_fire_due_resends.simps) simp
  ultimately show ?case using assms(2) [OF d] by simp
qed

lemma sim_fire_due:
  "sim a b \<Longrightarrow> sim (a_fire_due_resends now lag a) (fold handle_resend (due_ids now a) b)"
proof (induction arbitrary: b rule: a_fire_due_rule)
  case (none a)
  then show ?case by simp
next
  case (some a d m rest)
  have "sim (a_fire_resend (now + lag) m (a\<lparr>a_deadlines := rest\<rparr>)) (handle_resend m b)"
    using some(4) by (intro sim_resend) simp
  from some(3) [OF this] due_ids_resend [OF some(1,2), of lag] show ?case by simp
qed


section \<open>Reachable states\<close>

text \<open>The broker's task with its clock: time passes, a command is taken, or the first deadline has
  passed and the due messages are sent again.\<close>

inductive a_step :: "nat \<times> a_broker \<Rightarrow> nat \<times> a_broker \<Rightarrow> bool" where
  wait: "a_step (now, a) (now + d, a)"
| command: "command_ok (cmd c) (sync_of a) \<Longrightarrow> a_step (now, a) (now, a_handle_command now c a)"
| deadline: "a_deadlines a = (d, m) # rest \<Longrightarrow> d \<le> now \<Longrightarrow>
    a_step (now, a) (now + lag, a_fire_due_resends now lag a)"

inductive a_reach :: "nat \<times> a_broker \<Rightarrow> bool" where
  init: "length uuid = 16 \<Longrightarrow> a_reach (now, a_broker_new mode guarantee uuid)"
| step: "a_reach s \<Longrightarrow> a_step s s' \<Longrightarrow> a_reach s'"

lemma broker_reach_resends: "broker_reach b \<Longrightarrow> broker_reach (fold handle_resend ms b)"
proof (induction ms arbitrary: b)
  case Nil
  then show ?case by simp
next
  case (Cons m ms)
  have "broker_reach (handle_command (ResendTimeout m) b)"
    using Cons.prems by (rule broker_reach.step) (simp add: command_ok_def)
  with Cons.IH show ?case by (simp add: handle_command_def)
qed

lemma command_ok_untimed: "command_ok c (untimed b) = command_ok c b"
  by (simp add: command_ok_def split: command.split)

lemma a_reach_sim: "a_reach (now, a) \<Longrightarrow> \<exists>b. broker_reach b \<and> sim a b"
proof (induction "(now, a)" arbitrary: now a rule: a_reach.induct)
  case (init uuid now mode guarantee)
  have "sim (a_broker_new mode guarantee uuid) (broker_new mode guarantee uuid)"
    by (simp add: sim_iff a_broker_new_def broker_new_def)
  then show ?case using broker_reach.init [OF init] by blast
next
  case (step s now a)
  obtain now0 a0 where s: "s = (now0, a0)" by fastforce
  from step(2) [OF s] obtain b where b: "broker_reach b" "sim a0 b" by blast
  from step(3) [unfolded s] show ?case
  proof cases
    case (wait d)
    with b show ?thesis by blast
  next
    case (command c)
    have "command_ok (cmd c) b"
      using command(3) b(2) command_ok_untimed [of "cmd c" b] by (simp add: sim_def)
    with broker_reach.step [OF b(1)] sim_command [OF b(2)] command show ?thesis by blast
  next
    case (deadline d m rest lag)
    with sim_fire_due [OF b(2)] broker_reach_resends [OF b(1)] show ?thesis by blast
  qed
qed


section \<open>The deadlines\<close>

text \<open>The invariant of the deadline queue: it is in order, no deadline is further away than the
  timeout, and every unacknowledged message has one.\<close>

definition deadlines_inv :: "nat \<Rightarrow> a_broker \<Rightarrow> bool" where
  "deadlines_inv now a \<longleftrightarrow>
     sorted (map fst (a_deadlines a)) \<and>
     (\<forall>(d, m) \<in> set (a_deadlines a). d \<le> now + a_RESEND_TIMEOUT) \<and>
     hm_keys (a_pending a) \<subseteq> snd ` set (a_deadlines a)"


lemma deadlines_inv_cong:
  "deadlines_inv now a \<Longrightarrow> a_deadlines a' = a_deadlines a \<Longrightarrow> hm_keys (a_pending a') \<subseteq> hm_keys (a_pending a) \<Longrightarrow>
   deadlines_inv now a'"
  by (auto simp: deadlines_inv_def)

lemma a_fold_send_pending [simp]:
  "a_pending (fold (\<lambda>(i, tx). a_tx_send tx f) cs b) = a_pending b"
  by (induction cs arbitrary: b) (auto simp: a_tx_send_def)

lemma a_route_pending [simp]: "a_pending (a_route t f b) = a_pending b"
  by (simp add: a_route_def a_next_round_robin_def a_tx_send_def split: option.split SendMode.split)

lemma a_transmit_tracks:
  "a_deadlines (a_transmit now t p r a) = a_deadlines a \<and> a_pending (a_transmit now t p r a) = a_pending a \<or>
   (\<exists>m pm. a_deadlines (a_transmit now t p r a) = a_deadlines a @ [(now + a_RESEND_TIMEOUT, m)] \<and>
      a_pending (a_transmit now t p r a) = hm_insert m pm (a_pending a))"
  by (simp add: a_transmit_def a_next_msg_id_def Let_def) blast

lemma deadlines_inv_transmit:
  assumes "deadlines_inv now a"
  shows "deadlines_inv now (a_transmit now t p r a)"
  using a_transmit_tracks [of now t p r a]
proof (elim disjE exE conjE)
  fix m pm
  assume "a_deadlines (a_transmit now t p r a) = a_deadlines a @ [(now + a_RESEND_TIMEOUT, m)]"
    "a_pending (a_transmit now t p r a) = hm_insert m pm (a_pending a)"
  with assms show ?thesis
    by (auto simp: deadlines_inv_def sorted_append hm.keys_insert)
qed (use assms in \<open>auto intro: deadlines_inv_cong\<close>)

lemma deadlines_inv_send: "deadlines_inv now a \<Longrightarrow> deadlines_inv now (a_handle_send now t p a)"
  by (auto simp: a_handle_send_def intro: deadlines_inv_transmit deadlines_inv_cong)

lemma deadlines_inv_sends:
  "deadlines_inv now a \<Longrightarrow> deadlines_inv now (fold (\<lambda>(t, p). a_handle_send now t p) xs a)"
  by (induction xs arbitrary: a) (auto intro: deadlines_inv_send)

lemma deadlines_inv_command: "deadlines_inv now a \<Longrightarrow> deadlines_inv now (a_handle_command now c a)"
proof (cases c)
  case (AConnectionUp i w x)
  assume inv: "deadlines_inv now a"
  let ?b = "a\<lparr>a_conns := hm_insert i w (a_conns a), a_order := a_order a @ [i],
    a_accepts := a_accepts a @ [(x, True)], a_buffer := []\<rparr>"
  have "deadlines_inv now ?b" using inv by (rule deadlines_inv_cong) simp_all
  from deadlines_inv_sends [OF this, of "a_buffer a"] inv show ?thesis
    by (auto simp: AConnectionUp a_handle_command_def a_handle_up_def Let_def intro: deadlines_inv_cong)
qed (auto simp: a_handle_command_def a_handle_down_def a_handle_received_def hm.keys_remove
    intro: deadlines_inv_send deadlines_inv_cong split: a_envelope.split)

lemma deadlines_inv_later: "deadlines_inv now a \<Longrightarrow> now \<le> t \<Longrightarrow> deadlines_inv t a"
  by (fastforce simp: deadlines_inv_def)

lemma deadlines_inv_resend:
  assumes "deadlines_inv now a" and "a_deadlines a = (d, m) # rest"
  shows "deadlines_inv (now + lag) (a_fire_resend (now + lag) m (a\<lparr>a_deadlines := rest\<rparr>))"
proof -
  let ?b = "a\<lparr>a_deadlines := rest, a_pending := hm_remove m (a_pending a)\<rparr>"
  have inv: "deadlines_inv (now + lag) ?b"
    using assms by (auto simp: deadlines_inv_def hm.keys_remove)
  show ?thesis
  proof (cases "hm_get (a_pending a) m")
    case None
    with inv have "deadlines_inv (now + lag) (a\<lparr>a_deadlines := rest\<rparr>)"
      by (auto simp: deadlines_inv_def hm_remove_absent)
    with None show ?thesis by (simp add: a_fire_resend_def)
  next
    case (Some pm)
    with inv deadlines_inv_transmit [OF inv] show ?thesis
      by (auto simp: a_fire_resend_def Let_def intro: deadlines_inv_cong [OF inv])
  qed
qed

lemma deadlines_inv_fire:
  "deadlines_inv t a \<Longrightarrow> t = now \<or> t = now + lag \<Longrightarrow>
   deadlines_inv (now + lag) (a_fire_due_resends now lag a) \<and>
   (\<forall>(d, m) \<in> set (a_deadlines (a_fire_due_resends now lag a)). now < d)"
proof (induction arbitrary: t rule: a_fire_due_rule)
  case (none a)
  have "\<forall>(d, m) \<in> set (a_deadlines a). now < d"
  proof (cases "a_deadlines a")
    case (Cons x xs)
    with none show ?thesis
      by (fastforce simp: due_ids_def deadlines_inv_def split: if_splits)
  qed simp
  with none show ?case using deadlines_inv_later by force
next
  case (some a d m rest)
  from some(4,5) have "deadlines_inv (now + lag) a" using deadlines_inv_later by force
  from deadlines_inv_resend [OF this some(1), of 0] some(3) show ?case by simp
qed

lemma a_reach_deadlines: "a_reach (now, a) \<Longrightarrow> deadlines_inv now a"
proof (induction "(now, a)" arbitrary: now a rule: a_reach.induct)
  case (init uuid now mode guarantee)
  then show ?case by (simp add: deadlines_inv_def a_broker_new_def hm.keys_empty)
next
  case (step s now a)
  obtain now0 a0 where s: "s = (now0, a0)" by fastforce
  note inv = step(2) [OF s]
  from step(3) [unfolded s] show ?case
    by cases (use inv deadlines_inv_later deadlines_inv_command deadlines_inv_fire in auto)
qed


section \<open>Properties\<close>

text \<open>C29. The asynchronous broker refines the synchronous one: every reachable state is, apart from the
  timers, a reachable state of the synchronous broker; from there every command has the same
  effect on all tables, channels and replies; and when a deadline has passed, the due messages
  are handled as the synchronous broker handles the same timeouts, in the order of the deadlines.\<close>

theorem async_refines_sync:
  assumes "a_reach (now, a)"
  shows "\<exists>b. broker_reach b \<and> untimed b = sync_of a \<and>
    untimed (handle_command (cmd c) b) = sync_of (a_handle_command now c a) \<and>
    untimed (fold (\<lambda>m. handle_command (ResendTimeout m)) (due_ids now a) b) =
      sync_of (a_fire_due_resends now lag a)"
proof -
  obtain b where b: "broker_reach b" "sim a b" using a_reach_sim [OF assms] by blast
  have "(\<lambda>m. handle_command (ResendTimeout m)) = handle_resend"
    by (simp add: handle_command_def fun_eq_iff)
  with b sim_command [OF b(2), of now c] sim_fire_due [OF b(2), of now lag] show ?thesis
    unfolding sim_def by auto
qed

text \<open>C30. Resends of the asynchronous broker are in time: in every reachable state the deadlines are in
  order, every unacknowledged message has one at most the resend timeout away, and after the
  due deadlines were handled no deadline is left that has passed.\<close>

theorem async_resends_in_time:
  assumes "a_reach (now, a)"
  shows "sorted (map fst (a_deadlines a)) \<and>
    (m \<in> hm_keys (a_pending a) \<longrightarrow> (\<exists>d. (d, m) \<in> set (a_deadlines a) \<and> d \<le> now + a_RESEND_TIMEOUT)) \<and>
    (\<forall>(d, m') \<in> set (a_deadlines (a_fire_due_resends now lag a)). now < d) \<and>
    (m \<in> hm_keys (a_pending (a_fire_due_resends now lag a)) \<longrightarrow>
      (\<exists>d. (d, m) \<in> set (a_deadlines (a_fire_due_resends now lag a)) \<and> now < d))"
proof -
  note inv = a_reach_deadlines [OF assms]
  note fired = deadlines_inv_fire [OF inv, of now lag]
  from inv have "\<exists>d. (d, m) \<in> set (a_deadlines a) \<and> d \<le> now + a_RESEND_TIMEOUT"
    if "m \<in> hm_keys (a_pending a)"
    using that by (fastforce simp: deadlines_inv_def)
  moreover from fired have "\<exists>d. (d, m) \<in> set (a_deadlines (a_fire_due_resends now lag a)) \<and> now < d"
    if "m \<in> hm_keys (a_pending (a_fire_due_resends now lag a))"
    using that by (fastforce simp: deadlines_inv_def)
  ultimately show ?thesis using inv fired by (auto simp: deadlines_inv_def)
qed

text \<open>A reachable state with a message that waits for its acknowledgement.\<close>

definition a_demo :: a_broker where
  "a_demo = a_handle_command 7 (ASend None [9])
     (a_handle_command 7 (AConnectionUp (replicate 16 1) 0 1)
       (a_broker_new RoundRobin AtLeastOnce (replicate 16 4)))"

lemma a_demo_reach: "a_reach (7, a_demo)"
proof -
  let ?b0 = "a_broker_new RoundRobin AtLeastOnce (replicate 16 4)"
  let ?b1 = "a_handle_command 7 (AConnectionUp (replicate 16 1) 0 1) ?b0"
  have "a_reach (7, ?b0)" by (rule a_reach.init) simp
  moreover have "a_step (7, ?b0) (7, ?b1)"
    by (rule a_step.command) (simp add: command_ok_def is_id_def a_broker_new_def sync_of_def)
  moreover have "a_step (7, ?b1) (7, a_demo)"
    unfolding a_demo_def by (rule a_step.command) (simp add: command_ok_def)
  ultimately show ?thesis by (blast intro: a_reach.step)
qed

lemma a_demo_pending:
  "a_deadlines a_demo = [(5007, replicate 8 4 @ u64_to_be_bytes 0)]"
  "hm_keys (a_pending a_demo) = {replicate 8 4 @ u64_to_be_bytes 0}"
  by (simp_all add: a_demo_def a_handle_command_def a_handle_up_def a_handle_send_def a_transmit_def
      a_next_msg_id_def a_broker_new_def a_RESEND_TIMEOUT_def hm_insert_def hm_keys_def hm_get_def Let_def)

theorem async_refines_sync_witness:
  "\<exists>b. broker_reach b \<and> untimed b = sync_of a_demo \<and>
    untimed (handle_command (Received (replicate 16 1) (Ack (replicate 16 2))) b) =
      sync_of (a_handle_command 7 (AReceived (replicate 16 1) (AAck (replicate 16 2))) a_demo)"
  using async_refines_sync [OF a_demo_reach, of "AReceived (replicate 16 1) (AAck (replicate 16 2))"]
  by auto

theorem async_resends_in_time_witness:
  "\<exists>d. (d, replicate 8 4 @ u64_to_be_bytes 0) \<in> set (a_deadlines a_demo) \<and> d \<le> 7 + a_RESEND_TIMEOUT"
  using async_resends_in_time [OF a_demo_reach, of "replicate 8 4 @ u64_to_be_bytes 0" 0]
  by (simp add: a_demo_pending)

end
