(* ===== verification/Async_Conn.thy ===== *)
theory Async_Conn
  imports Async_Sniff Async_Broker Conn_Loops
begin

text \<open>
  The connections of the asynchronous crate, \<open>rust-lib-async/src/conn.rs\<close>: the handshake, the reader
  and the writer of a connection, the accept loop and the connect loop with its reconnections.

  \<open>handle_connection\<close> is generic over the byte stream; the record \<open>aio\<close> holds the stream's polling
  operations and its clock.  The halves of the split stream are the reading and the writing side of
  the state after the handshake, as in the plain session of the synchronous crate.  The shutdown
  signal is the time at which \<open>close\<close> gives it, if it does.  A \<open>select!\<close> takes the branch that is ready
  first; among branches that become ready at the same time it takes one at random, which is the
  argument \<open>pick\<close>.
\<close>

definition a_HEARTBEAT_INTERVAL :: nat where "a_HEARTBEAT_INTERVAL = 5000"
definition a_HEARTBEAT_TIMEOUT :: nat where "a_HEARTBEAT_TIMEOUT = 15000"
definition a_CONNECT_TIMEOUT :: nat where "a_CONNECT_TIMEOUT = 1000"

datatype 'srv a_acceptor = AAcceptPlain | AAcceptTls 'srv

datatype ('cli, 'name) a_connector = AConnectPlain | AConnectTls 'cli 'name

record 's aio =
  io_read :: "'s reader"
  io_write :: "'s \<Rightarrow> bytes \<Rightarrow> nat io_result \<times> 's"
  io_flush :: "'s \<Rightarrow> unit io_result \<times> 's"
  io_now :: "'s \<Rightarrow> nat"
  io_cap :: "nat \<Rightarrow> nat"     \<comment> \<open>the capacity of a \<open>BytesMut\<close>\<close>

record a_link =
  ak_sent :: "a_command list"
  ak_room :: "nat option"
  ak_answer :: "bool option"
  ak_feed :: writer_rx
  ak_fresh :: chan

definition a_cmd_send :: "a_command \<Rightarrow> a_link \<Rightarrow> bool \<times> a_link" where
  "a_cmd_send c k =
     (case ak_room k of
        None \<Rightarrow> (True, k\<lparr>ak_sent := ak_sent k @ [c]\<rparr>)
      | Some 0 \<Rightarrow> (False, k)
      | Some (Suc n) \<Rightarrow> (True, k\<lparr>ak_sent := ak_sent k @ [c], ak_room := Some n\<rparr>))"

definition a_write :: "'s aio \<Rightarrow> 's \<Rightarrow> bytes \<Rightarrow> (unit io_result \<times> 's) option" where
  "a_write io = a_write_frame (io_write io) (io_flush io)"

definition a_next_frame :: "'s aio \<Rightarrow> 's \<Rightarrow> (bytes option io_result \<times> 's) option" where
  "a_next_frame io = a_read_frame (io_cap io) (io_read io)"


section \<open>The shutdown signal\<close>

text \<open>\<open>Shutdown\<close> of \<open>rust-lib-async/src/lib.rs\<close>: whether it was given, and when awaiting it completes.\<close>

definition is_shutdown :: "shutdown_flag \<Rightarrow> nat \<Rightarrow> bool" where
  "is_shutdown flag now = (case flag of None \<Rightarrow> False | Some t \<Rightarrow> t \<le> now)"

definition shutdown_recv :: "shutdown_flag \<Rightarrow> nat \<Rightarrow> nat option" where
  "shutdown_recv flag now = (if is_shutdown flag now then Some now else flag)"

text \<open>A race of the signal with another branch that is ready at \<open>t\<close>: whether the signal wins.\<close>

definition shut_first :: "shutdown_flag \<Rightarrow> nat \<Rightarrow> nat \<Rightarrow> bool \<Rightarrow> bool" where
  "shut_first flag now t pick =
     (case shutdown_recv flag now of None \<Rightarrow> False | Some u \<Rightarrow> u < t \<or> u = t \<and> pick)"


section \<open>The writer\<close>

datatype writer_event = WStop | WFrame bytes | WGone | WBeat

text \<open>The branches of the writer's \<open>select!\<close> with the times at which they are ready.\<close>

definition writer_branches :: "shutdown_flag \<Rightarrow> nat \<Rightarrow> writer_rx \<Rightarrow> nat \<Rightarrow> (nat \<times> writer_event) list" where
  "writer_branches flag now q beat =
     (case shutdown_recv flag now of None \<Rightarrow> [] | Some t \<Rightarrow> [(t, WStop)]) @
     (case queue q of (t, f) # _ \<Rightarrow> [(max now t, WFrame f)] | [] \<Rightarrow> [(max now (hangup q), WGone)]) @
     [(max now beat, WBeat)]"

definition select :: "nat \<Rightarrow> (nat \<times> 'e) list \<Rightarrow> nat \<times> 'e" where
  "select n bs =
     (let first = Min (fst ` set bs); ready = filter (\<lambda>(t, _). t = first) bs
      in ready ! (n mod length ready))"

text \<open>The writer's task until it breaks or is aborted: \<open>beat\<close> is the next tick of its interval, which is
  counted from the tick before (\<open>MissedTickBehavior::Delay\<close>).\<close>

partial_function (option) a_writer :: "'s aio \<Rightarrow> shutdown_flag \<Rightarrow> nat \<Rightarrow> (nat \<Rightarrow> nat) \<Rightarrow> nat \<Rightarrow> 's \<Rightarrow> nat \<Rightarrow>
    writer_rx \<Rightarrow> nat \<Rightarrow> 's option" where
  "a_writer io flag abort pick i w now q beat =
     (case select (pick i) (writer_branches flag now q beat) of (t, e) \<Rightarrow>
        if abort < t then Some w
        else case e of
          WStop \<Rightarrow> Some w
        | WGone \<Rightarrow> Some w
        | WFrame f \<Rightarrow>
            (case a_write io w f of
               None \<Rightarrow> None
             | Some (r, w1) \<Rightarrow>
                 if r \<noteq> Inr () then Some w1
                 else a_writer io flag abort pick (Suc i) w1 t (q\<lparr>queue := tl (queue q)\<rparr>) beat)
        | WBeat \<Rightarrow>
            (case a_write io w a_heartbeat of
               None \<Rightarrow> None
             | Some (r, w1) \<Rightarrow>
                 if r \<noteq> Inr () then Some w1
                 else a_writer io flag abort pick (Suc i) w1 t q (t + a_HEARTBEAT_INTERVAL)))"


section \<open>The reader\<close>

text \<open>\<open>timeout(HEARTBEAT_TIMEOUT, read_frame)\<close>: the frame in time, or nothing; and when that is known.\<close>

definition timed_frame :: "'s aio \<Rightarrow> 's \<Rightarrow> bytes option io_result option \<times> nat \<times> 's" where
  "timed_frame io s =
     (let limit = io_now io s + a_HEARTBEAT_TIMEOUT
      in case a_next_frame io s of
           None \<Rightarrow> (None, limit, s)
         | Some (r, s') \<Rightarrow> if io_now io s' \<le> limit then (Some r, io_now io s', s') else (None, limit, s'))"

definition a_traffic :: "bytes \<Rightarrow> a_envelope option" where
  "a_traffic frame =
     (case a_decode frame of
        Some AHeartbeat \<Rightarrow> None
      | Some (AHello _ _) \<Rightarrow> None
      | None \<Rightarrow> None
      | Some e \<Rightarrow> Some e)"

partial_function (option) a_reader :: "'s aio \<Rightarrow> shutdown_flag \<Rightarrow> (nat \<Rightarrow> bool) \<Rightarrow> nat \<Rightarrow> 's \<Rightarrow> a_link \<Rightarrow> identity \<Rightarrow>
    (a_link \<times> nat) option" where
  "a_reader io flag pick i s k peer =
     (case timed_frame io s of (r, t, s') \<Rightarrow>
        if shut_first flag (io_now io s) t (pick i)
        then Some (k, the (shutdown_recv flag (io_now io s)))
        else case r of
          Some (Inr (Some frame)) \<Rightarrow>
            (case a_traffic frame of
               None \<Rightarrow> a_reader io flag pick (Suc i) s' k peer
             | Some e \<Rightarrow>
                 (case a_cmd_send (AReceived peer e) k of (ok, k') \<Rightarrow>
                    if ok then a_reader io flag pick (Suc i) s' k' peer else Some (k', t)))
        | _ \<Rightarrow> Some (k, t))"


section \<open>One connection\<close>

definition a_hello_peer :: "bytes \<Rightarrow> identity option" where
  "a_hello_peer frame =
     (case a_decode frame of
        Some (AHello v i) \<Rightarrow> if v \<noteq> a_PROTOCOL_VERSION then None else Some i
      | _ \<Rightarrow> None)"

definition a_register :: "a_link \<Rightarrow> identity \<Rightarrow> writer_rx option \<times> a_link" where
  "a_register k peer =
     (let k1 = k\<lparr>ak_fresh := ak_fresh k + 2\<rparr>
      in case a_cmd_send (AConnectionUp peer (ak_fresh k) (Suc (ak_fresh k))) k1 of
           (False, k2) \<Rightarrow> (None, k2)
         | (True, k2) \<Rightarrow>
             (case ak_answer k2 of Some True \<Rightarrow> (Some (ak_feed k2), k2) | _ \<Rightarrow> (None, k2)))"

text \<open>
  The result: what it returns, the link to the broker, the time at which the connection ends, and
  the writing side when the writer has ended.  \<^term>\<open>None\<close> means that it never returns.
\<close>

definition a_handle_connection :: "'s aio \<Rightarrow> shutdown_flag \<Rightarrow> (nat \<Rightarrow> bool) \<Rightarrow> (nat \<Rightarrow> nat) \<Rightarrow> 's \<Rightarrow> a_link \<Rightarrow>
    identity \<Rightarrow> (unit io_result \<times> a_link \<times> nat \<times> 's option) option" where
  "a_handle_connection io flag rpick wpick s k my_identity =
     (case a_write io s (a_hello my_identity) of
        None \<Rightarrow> None
      | Some (Inl e, s1) \<Rightarrow> Some (Inl e, k, io_now io s1, None)
      | Some (Inr _, s1) \<Rightarrow>
          (case a_next_frame io s1 of
             None \<Rightarrow> None
           | Some (Inl e, s2) \<Rightarrow> Some (Inl e, k, io_now io s2, None)
           | Some (Inr None, s2) \<Rightarrow> Some (Inr (), k, io_now io s2, None)
           | Some (Inr (Some frame), s2) \<Rightarrow>
               (case a_hello_peer frame of
                  None \<Rightarrow> Some (Inr (), k, io_now io s2, None)
                | Some peer \<Rightarrow>
                    (case a_register k peer of
                       (None, k1) \<Rightarrow> Some (Inr (), k1, io_now io s2, None)
                     | (Some writer_rx, k1) \<Rightarrow>
                         (case a_reader io flag rpick 0 s2 k1 peer of
                            None \<Rightarrow> None
                          | Some (k2, t) \<Rightarrow>
                              Some (Inr (), snd (a_cmd_send (AConnectionDown peer) k2), t,
                                a_writer io flag t wpick 0 s2 (io_now io s2) writer_rx
                                  (io_now io s2 + a_HEARTBEAT_INTERVAL)))))))"

text \<open>TCP and the sniffed streams of the bind side; \<open>cx\<close> is the polling task.\<close>

definition tcp_io :: "task \<Rightarrow> astream aio" where
  "tcp_io cx = \<lparr>io_read = a_poll_read cx, io_write = a_poll_write cx, io_flush = a_poll_flush cx,
     io_now = (\<lambda>s. clock (sock s)), io_cap = id\<rparr>"

definition sniffed_io :: "task \<Rightarrow> sniffed aio" where
  "sniffed_io cx = \<lparr>io_read = sn_poll_read cx, io_write = sn_poll_write cx, io_flush = sn_poll_flush cx,
     io_now = (\<lambda>s. clock (sock (sn_inner s))), io_cap = id\<rparr>"

definition sniff_then_handle :: "task \<Rightarrow> shutdown_flag \<Rightarrow> (nat \<Rightarrow> bool) \<Rightarrow> (nat \<Rightarrow> nat) \<Rightarrow> astream \<Rightarrow> a_link \<Rightarrow>
    identity \<Rightarrow> (unit io_result \<times> a_link \<times> nat) option" where
  "sniff_then_handle cx flag rpick wpick s k my_identity =
     (case sniff_and_wrap cx s of
        None \<Rightarrow> None
      | Some (Inl e, s1) \<Rightarrow> Some (Inl e, k, clock (sock s1))
      | Some (Inr None, s1) \<Rightarrow> Some (Inr (), k, clock (sock s1))
      | Some (Inr (Some sn), s1) \<Rightarrow>
          map_option (\<lambda>(r, k', t, _). (r, k', t))
            (a_handle_connection (sniffed_io cx) flag rpick wpick sn k my_identity))"


section \<open>The loops\<close>

text \<open>The \<open>tokio_rustls\<close> crate: what the TLS handshakes give for a TCP stream, if they succeed, and
  when they are over.\<close>

record ('srv, 'cli, 'name) a_tls =
  tls_accept :: "'srv \<Rightarrow> astream \<Rightarrow> astream option \<times> nat"
  tls_connect :: "'cli \<Rightarrow> 'name \<Rightarrow> astream \<Rightarrow> astream option \<times> nat"

text \<open>A connection as the environment makes it: its stream, the broker's side and the random choices.\<close>

record a_conn =
  ac_stream :: astream
  ac_link :: a_link
  ac_rpick :: "nat \<Rightarrow> bool"
  ac_wpick :: "nat \<Rightarrow> nat"

definition a_accepted :: "('srv, 'cli, 'name) a_tls \<Rightarrow> shutdown_flag \<Rightarrow> 'srv a_acceptor \<Rightarrow> identity \<Rightarrow> a_conn \<Rightarrow>
    (a_link \<times> nat) option" where
  "a_accepted tls flag a me c =
     (let run = (\<lambda>s. map_option snd (sniff_then_handle 0 flag (ac_rpick c) (ac_wpick c) s (ac_link c) me))
      in case a of
           AAcceptPlain \<Rightarrow> run (ac_stream c)
         | AAcceptTls cfg \<Rightarrow>
             (case tls_accept tls cfg (ac_stream c) of
                (Some s, _) \<Rightarrow> run s
              | (None, t) \<Rightarrow> Some (ac_link c, t)))"

text \<open>The accept loop; an arrival is a connection or a failing \<open>accept\<close>.  It returns the connections whose
  handlers it spawned, with the times, and the time at which it ends.\<close>

fun a_accept_loop :: "shutdown_flag \<Rightarrow> (nat \<Rightarrow> bool) \<Rightarrow> nat \<Rightarrow> nat \<Rightarrow> (nat \<times> a_conn io_result) list \<Rightarrow>
    (nat \<times> a_conn) list \<times> nat option" where
  "a_accept_loop flag pick i now [] = ([], shutdown_recv flag now)"
| "a_accept_loop flag pick i now ((a, r) # rest) =
     (if shut_first flag now (max now a) (pick i) then ([], shutdown_recv flag now)
      else case a_accept_loop flag pick (Suc i) (max now a) rest of (hs, t) \<Rightarrow>
        (case r of Inr c \<Rightarrow> ((max now a, c) # hs, t) | Inl e \<Rightarrow> (hs, t)))"

record a_attempt =
  aa_took :: nat              \<comment> \<open>until the connection is there or refused\<close>
  aa_conn :: "a_conn option"
  aa_pick :: bool
  aa_sleep_pick :: bool

text \<open>The streams of an attempt start at the time the connection is made.\<close>

definition a_at :: "nat \<Rightarrow> astream \<Rightarrow> astream" where
  "a_at t s = s\<lparr>sock := (sock s)\<lparr>clock := t\<rparr>\<rparr>"

definition a_run_connection :: "('srv, 'cli, 'name) a_tls \<Rightarrow> shutdown_flag \<Rightarrow> ('cli, 'name) a_connector \<Rightarrow>
    identity \<Rightarrow> nat \<Rightarrow> a_conn \<Rightarrow> a_link \<Rightarrow> (a_link \<times> nat) option" where
  "a_run_connection tls flag cn me t c k =
     (let k1 = k\<lparr>ak_answer := ak_answer (ac_link c), ak_feed := ak_feed (ac_link c)\<rparr>;
          run = (\<lambda>s. map_option (\<lambda>(_, k', t', _). (k', t'))
                   (a_handle_connection (tcp_io 0) flag (ac_rpick c) (ac_wpick c) s k1 me))
      in case cn of
           AConnectPlain \<Rightarrow> run (a_at t (ac_stream c))
         | AConnectTls cfg name \<Rightarrow>
             (case tls_connect tls cfg name (a_at t (ac_stream c)) of
                (Some s, _) \<Rightarrow> run s
              | (None, t') \<Rightarrow> Some (k, t')))"

partial_function (option) a_connect_loop :: "('srv, 'cli, 'name) a_tls \<Rightarrow> shutdown_flag \<Rightarrow>
    ('cli, 'name) a_connector \<Rightarrow> identity \<Rightarrow> (nat \<Rightarrow> nat) \<Rightarrow> (nat \<Rightarrow> a_attempt) \<Rightarrow> nat \<Rightarrow> a_link \<Rightarrow> nat \<Rightarrow>
    (nat \<times> a_link \<times> nat) option" where
  "a_connect_loop tls flag cn me delay attempts i k now =
     (if is_shutdown flag now then Some (i, k, now)
      else
        let a = attempts i; t = now + min (aa_took a) a_CONNECT_TIMEOUT
        in if shut_first flag now t (aa_pick a) then Some (i, k, the (shutdown_recv flag now))
           else case (case (if aa_took a \<le> a_CONNECT_TIMEOUT then aa_conn a else None) of
                        None \<Rightarrow> Some (k, t)
                      | Some c \<Rightarrow> a_run_connection tls flag cn me t c k) of
                  None \<Rightarrow> None
                | Some (k1, t1) \<Rightarrow>
                    if is_shutdown flag t1 then Some (Suc i, k1, t1)
                    else if shut_first flag t1 (t1 + delay i) (aa_sleep_pick a)
                    then Some (Suc i, k1, the (shutdown_recv flag t1))
                    else a_connect_loop tls flag cn me delay attempts (Suc i) k1 (t1 + delay i))"



section \<open>Waiting keeps what its polls keep\<close>

lemma a_write_all_keeps:
  "a_write_all wr s bs = Some p \<Longrightarrow> (\<forall>s bs. f (snd (wr s bs)) = f s) \<Longrightarrow> f (snd p) = f s"
  by (induction wr s bs p rule: a_write_all.raw_induct [rotated 1, consumes 1])
    (auto split: if_splits sum.splits prod.splits; metis snd_conv)

lemma await_flush_keeps:
  "await_flush fl s = Some p \<Longrightarrow> (\<forall>s. f (snd (fl s)) = f s) \<Longrightarrow> f (snd p) = f s"
  by (induction fl s p rule: await_flush.raw_induct [rotated 1, consumes 1])
    (auto split: if_splits prod.splits; metis snd_conv)

lemma a_write_frame_keeps:
  assumes "a_write_frame wr fl s bs = Some (r, s')" and "\<forall>s bs. f (snd (wr s bs)) = f s" and "\<forall>s. f (snd (fl s)) = f s"
  shows "f s' = f s"
proof -
  from assms(1) obtain q s1 where w: "a_write_all wr s bs = Some (q, s1)"
    and "s' = s1 \<or> (\<exists>x. await_flush fl s1 = Some (x, s'))"
    by (auto simp: a_write_frame_def split: option.splits prod.splits sum.splits)
  with a_write_all_keeps [where f = f, OF w assms(2)] show ?thesis
    using await_flush_keeps [where f = f, OF _ assms(3)] by force
qed

lemma a_fill_inv:
  "a_fill cap rd s len body = Some p \<Longrightarrow> preserves I rd \<Longrightarrow> I s \<Longrightarrow> I (snd p)"
  by (induction cap rd s len body p rule: a_fill.raw_induct [rotated 1, consumes 1])
    (auto split: prod.splits if_splits sum.splits option.splits dest: await_read_inv)

lemma a_read_frame_inv:
  assumes "a_read_frame cap rd s = Some (r, s')" and "preserves I rd" and "I s"
  shows "I s'"
proof -
  from assms(1) obtain q s1 where w: "a_read_exact rd s 4 [] = Some (q, s1)"
    and "s' = s1 \<or> (\<exists>len x. a_fill cap rd s1 len [] = Some (x, s'))"
    by (auto simp: a_read_frame_def Let_def split: option.splits prod.splits sum.splits)
  with a_read_exact_inv [OF w assms(2,3)] show ?thesis using a_fill_inv [OF _ assms(2)] by force
qed


section \<open>The link to the broker\<close>

text \<open>The link seen as a link of the synchronous crate.\<close>

definition link_of :: "a_link \<Rightarrow> broker_link" where
  "link_of k = \<lparr>sent = map cmd (ak_sent k), room = ak_room k, answer = ak_answer k, feed_rx = ak_feed k,
     fresh = ak_fresh k\<rparr>"

lemma link_of_fields [simp]:
  "sent (link_of k) = map cmd (ak_sent k)" "room (link_of k) = ak_room k" "answer (link_of k) = ak_answer k"
  "feed_rx (link_of k) = ak_feed k" "fresh (link_of k) = ak_fresh k"
  by (simp_all add: link_of_def)

lemma link_send: "a_cmd_send c k = (ok, k') \<Longrightarrow> cmd_send (cmd c) (link_of k) = (ok, link_of k')"
  by (auto simp: a_cmd_send_def cmd_send_def link_of_def split: option.splits nat.splits)

lemma link_register: "a_register k peer = (r, k1) \<Longrightarrow> register (link_of k) peer = (r, link_of k1)"
  by (auto simp: a_register_def register_def Let_def a_cmd_send_def cmd_send_def link_of_def
      split: option.splits nat.splits bool.splits)

lemma a_traffic_env: "map_option env (a_traffic f) = traffic f"
  unfolding traffic_def a_traffic_def a_decode_env [symmetric] by (auto split: option.split a_envelope.split)

lemma send_forwards:
  "a_cmd_send (AReceived peer e) k = (ok, k') \<Longrightarrow> forwards peer (link_of k) (link_of k')"
  by (auto simp: forwards_def a_cmd_send_def split: option.splits nat.splits intro!: exI [of _ "[env e]"])

lemma a_reader_forwards:
  "a_reader io flag pick i s k peer = Some p \<Longrightarrow> forwards peer (link_of k) (link_of (fst p))"
proof (induction io flag pick i s k peer p rule: a_reader.raw_induct [rotated 1, consumes 1])
  case (1 loop io flag pick i s k peer p)
  show ?case
  proof (cases "fst p = k")
    case False
    obtain r t s' where f: "timed_frame io s = (r, t, s')" by (cases "timed_frame io s")
    with 1(2) False obtain frame where r: "r = Some (Inr (Some frame))" "\<not> shut_first flag (io_now io s) t (pick i)"
      by (auto split: if_splits option.splits sum.splits)
    show ?thesis
    proof (cases "a_traffic frame")
      case None
      with 1 f r show ?thesis by simp
    next
      case (Some e)
      obtain ok k1 where k1: "a_cmd_send (AReceived peer e) k = (ok, k1)" by fastforce
      with 1(2) f r Some have "fst p = k1 \<or> loop io flag pick (Suc i) s' k1 peer = Some p" by (auto split: if_splits)
      with 1(1) send_forwards [OF k1] show ?thesis by (metis forwards_trans)
    qed
  qed simp
qed


lemma a_hello_peer_sync: "a_hello_peer f = hello_peer f"
  unfolding hello_peer_def a_hello_peer_def a_decode_env [symmetric]
  by (auto simp: a_proto_consts proto_consts split: option.split a_envelope.split)

text \<open>Whatever happens, the broker sees one well-formed session.\<close>

lemma a_handle_connection_logs:
  assumes "a_handle_connection io flag rp wp s k me = Some (r, k', t, w)"
  shows "logs (link_of k) (link_of k')"
proof (cases "k' = k")
  case False
  with assms obtain f peer rx k1 s2 where h: "a_hello_peer f = Some peer" and r: "a_register k peer = (rx, k1)"
    and out: "rx = None \<and> k' = k1 \<or> (\<exists>q k2 t. rx = Some q \<and> a_reader io flag rp 0 s2 k1 peer = Some (k2, t) \<and>
      k' = snd (a_cmd_send (AConnectionDown peer) k2))"
    by (fastforce simp: a_handle_connection_def split: option.splits prod.splits sum.splits)
  have id: "is_id peer" using h by (simp add: a_hello_peer_sync hello_peer_id)
  from out show ?thesis
  proof (elim disjE exE conjE)
    assume "rx = None" "k' = k1"
    with register_logs [OF link_register [OF r] id] show ?thesis by simp
  next
    fix q k2 t
    assume out: "rx = Some q" "a_reader io flag rp 0 s2 k1 peer = Some (k2, t)" "k' = snd (a_cmd_send (AConnectionDown peer) k2)"
    obtain ok k3 where k3: "a_cmd_send (AConnectionDown peer) k2 = (ok, k3)" by fastforce
    have "forwards peer (link_of k1) (link_of k2)" using a_reader_forwards [OF out(2)] by simp
    from session_logs(2) [OF link_register [OF r, unfolded out(1)] id this] link_send [OF k3]
    show ?thesis by (simp add: out(3) k3)
  qed
qed simp


section \<open>Connections over streams that deliver in time\<close>

locale async_io = async_stream "io_read io" pend steps flowing
  for io :: "'s aio" and pend steps flowing +
  fixes horizon :: "'s \<Rightarrow> nat"
  assumes cap: "io_cap io n = n"
    and now_le: "io_now io s \<le> horizon s"
    and rd_time: "io_read io s n = (r, s') \<Longrightarrow> horizon s' = horizon s \<and> io_now io s \<le> io_now io s'"
begin

lemma next_frame_time:
  assumes "a_next_frame io s = Some (r, s')"
  shows "horizon s' = horizon s \<and> io_now io s \<le> io_now io s'"
proof -
  have "preserves (\<lambda>x. horizon x = horizon s \<and> io_now io s \<le> io_now io x) (io_read io)"
    using rd_time by (fastforce simp: preserves_def)
  from a_read_frame_inv [OF assms [unfolded a_next_frame_def] this] show ?thesis by simp
qed

lemma next_frame_flowing:
  assumes "flowing s"
  shows "\<exists>s'. flowing s' \<and>
    (case next_frame (pend s) of
       Some (f, rest) \<Rightarrow> a_next_frame io s = Some (Inr (Some f), s') \<and> pend s' = rest \<and> steps s' < steps s
     | None \<Rightarrow> a_next_frame io s = Some (Inr None, s') \<and> pend s' = [])"
  unfolding a_next_frame_def by (rule a_read_frame_next [OF assms]) (rule cap)

text \<open>The reader ends, at the latest when the shutdown signal is given.\<close>

lemma reader_returns:
  assumes "flowing s"
  shows "\<exists>k' t. a_reader io flag pick i s k peer = Some (k', t) \<and> io_now io s \<le> t \<and>
    (\<forall>T. flag = Some T \<longrightarrow> t \<le> max (io_now io s) T)"
  using assms
proof (induction "steps s" arbitrary: i s k rule: less_induct)
  case less
  obtain r t s' where f: "timed_frame io s = (r, t, s')" by (cases "timed_frame io s")
  obtain x where x: "a_next_frame io s = Some (x, s')" and s': "flowing s'"
      "\<And>g. x = Inr (Some g) \<Longrightarrow> steps s' < steps s" and now: "io_now io s \<le> io_now io s'"
    using next_frame_flowing [OF less.prems] next_frame_time f
    by (fastforce simp: timed_frame_def Let_def split: option.splits if_splits)
  have t: "io_now io s \<le> t" "r \<noteq> None \<Longrightarrow> r = Some x \<and> t = io_now io s'"
    using f x now by (auto simp: timed_frame_def Let_def split: if_splits)
  have stop: "\<forall>T. flag = Some T \<longrightarrow> t \<le> max (io_now io s) T" if "\<not> shut_first flag (io_now io s) t (pick i)"
    using that t(1) by (auto simp: shut_first_def shutdown_recv_def is_shutdown_def split: if_splits)
  show ?case
  proof (cases "shut_first flag (io_now io s) t (pick i)")
    case True
    then show ?thesis
      by (subst a_reader.simps) (auto simp: f shut_first_def shutdown_recv_def is_shutdown_def split: option.splits if_splits)
  next
    case False
    show ?thesis
    proof (cases "\<exists>g. r = Some (Inr (Some g))")
      case True
      then obtain g where g: "r = Some (Inr (Some g))" by blast
      have IH: "\<exists>k' t'. a_reader io flag pick (Suc i) s' k1 peer = Some (k', t') \<and> io_now io s \<le> t' \<and>
          (\<forall>T. flag = Some T \<longrightarrow> t' \<le> max (io_now io s) T)" for k1
      proof -
        obtain k' t' where "a_reader io flag pick (Suc i) s' k1 peer = Some (k', t')" "io_now io s' \<le> t'"
            "\<forall>T. flag = Some T \<longrightarrow> t' \<le> max (io_now io s') T"
          using less.hyps [OF s'(2) s'(1), of g "Suc i" k1] t(2) g by auto
        with stop [OF False] now t(2) g show ?thesis by fastforce
      qed
      obtain ok k1 where "a_cmd_send (AReceived peer (the (a_traffic g))) k = (ok, k1)" by fastforce
      with IH [of k] IH [of k1] stop [OF False] t(1) show ?thesis
        by (subst a_reader.simps) (auto simp: f False g split: option.split)
    next
      case no: False
      then show ?thesis using stop [OF False] t(1)
        by (subst a_reader.simps) (auto simp: f False split: option.splits sum.splits)
    qed
  qed
qed

lemma reader_all:
  assumes "flowing s" and "horizon s < io_now io s + a_HEARTBEAT_TIMEOUT" and "ak_room k = None"
  shows "\<exists>t k'. a_reader io None pick i s k peer = Some (k', t) \<and>
    link_of k' = (link_of k)\<lparr>sent := sent (link_of k) @ received peer (fst (split_frames (pend s)))\<rparr>"
  using assms
proof (induction "steps s" arbitrary: i s k rule: less_induct)
  case less
  have no: "\<not> shut_first None n t b" for n t b by (simp add: shut_first_def shutdown_recv_def is_shutdown_def)
  show ?case
  proof (cases "next_frame (pend s)")
    case None
    with next_frame_flowing [OF less.prems(1)] obtain s' where "a_next_frame io s = Some (Inr None, s')" by auto
    with None no show ?thesis
      by (subst a_reader.simps)
        (auto simp: timed_frame_def Let_def split_frames_None link_of_def split: if_splits)
  next
    case (Some q)
    then obtain f rest where q: "next_frame (pend s) = Some (f, rest)" by (cases q) auto
    with next_frame_flowing [OF less.prems(1)] obtain s' where s': "a_next_frame io s = Some (Inr (Some f), s')"
        "flowing s'" "pend s' = rest" "steps s' < steps s" by auto
    have h: "horizon s' = horizon s" "io_now io s \<le> io_now io s'" using next_frame_time [OF s'(1)] by auto
    have tf: "timed_frame io s = (Some (Inr (Some f)), io_now io s', s')"
      using s'(1) now_le [of s'] h less.prems(2) by (auto simp: timed_frame_def Let_def)
    let ?k = "case a_traffic f of None \<Rightarrow> k | Some e \<Rightarrow> k\<lparr>ak_sent := ak_sent k @ [AReceived peer e]\<rparr>"
    have "horizon s' < io_now io s' + a_HEARTBEAT_TIMEOUT" "ak_room ?k = None"
      using h less.prems(2,3) by (auto split: option.split)
    from less.hyps [OF s'(4,2) this, of "Suc i"] obtain t k' where IH:
      "a_reader io None pick (Suc i) s' ?k peer = Some (k', t)"
      "link_of k' = (link_of ?k)\<lparr>sent := sent (link_of ?k) @ received peer (fst (split_frames rest))\<rparr>"
      using s'(3) by auto
    have "a_reader io None pick i s k peer = Some (k', t)"
      using IH(1) less.prems(3) by (subst a_reader.simps) (auto simp: tf no a_cmd_send_def split: option.splits)
    moreover have "link_of k' = (link_of k)\<lparr>sent := sent (link_of k) @ received peer (fst (split_frames (pend s)))\<rparr>"
      using IH(2) a_traffic_env [of f, symmetric] by (auto simp: split_frames_Some [OF q] link_of_def split: option.splits)
    ultimately show ?thesis by blast
  qed
qed

lemma connection_delivers:
  assumes "a_write io s (a_hello me) = Some (Inr (), s1)" and "flowing s1"
    and "horizon s1 < io_now io s1 + a_HEARTBEAT_TIMEOUT"
    and "is_id peer" and "pend s1 = hello peer @ concat (map encode es) @ rest" and "list_all sendable es"
    and "next_frame rest = None" and "ak_room k = None" and "ak_answer k = Some True"
  shows "\<exists>k' t s2. a_handle_connection io None rp wp s k me = Some (Inr (), k', t,
      a_writer io None t wp 0 s2 (io_now io s2) (ak_feed k) (io_now io s2 + a_HEARTBEAT_INTERVAL)) \<and>
    a_next_frame io s1 = Some (Inr (Some (envelope_bytes (Hello PROTOCOL_VERSION peer))), s2) \<and> io_now io s2 \<le> t \<and>
    sent (link_of k') = sent (link_of k) @ ConnectionUp peer (ak_fresh k) (Suc (ak_fresh k)) #
      map (Received peer) (filter is_traffic es) @ [ConnectionDown peer]"
proof -
  let ?f = "envelope_bytes (Hello PROTOCOL_VERSION peer)"
  have nf: "next_frame (pend s1) = Some (?f, concat (map encode es) @ rest)"
    using assms(4,5) hello_fits [OF assms(4)] by (simp add: hello_wire next_frame_wire)
  with next_frame_flowing [OF assms(2)] obtain s2 where s2: "a_next_frame io s1 = Some (Inr (Some ?f), s2)" "flowing s2"
      "pend s2 = concat (map encode es) @ rest" by auto
  have time: "horizon s2 < io_now io s2 + a_HEARTBEAT_TIMEOUT" using next_frame_time [OF s2(1)] assms(3) by auto
  have hp: "a_hello_peer ?f = Some peer" unfolding a_hello_peer_sync using assms(4) hello_peer_hello by blast
  obtain k1 where reg: "a_register k peer = (Some (ak_feed k), k1)" "ak_room k1 = None"
      "sent (link_of k1) = sent (link_of k) @ [ConnectionUp peer (ak_fresh k) (Suc (ak_fresh k))]"
    using assms(8,9) by (simp add: a_register_def a_cmd_send_def)
  obtain t k2 where rd: "a_reader io None rp 0 s2 k1 peer = Some (k2, t)"
      "link_of k2 = (link_of k1)\<lparr>sent := sent (link_of k1) @ received peer (map envelope_bytes es)\<rparr>"
    using reader_all [OF s2(2) time reg(2), of rp 0 peer] s2(3) split_encoded [OF assms(6,7)] by auto
  obtain ok k3 where k3: "a_cmd_send (AConnectionDown peer) k2 = (ok, k3)" by fastforce
  have "room (link_of k2) = None" using rd(2) reg(2) by simp
  then have "sent (link_of k3) = sent (link_of k2) @ [ConnectionDown peer]"
    using k3 by (auto simp: a_cmd_send_def)
  moreover have "io_now io s2 \<le> t" using reader_returns [OF s2(2), of None rp 0 k1 peer] rd(1) by auto
  ultimately show ?thesis using assms(1) s2(1) hp reg rd k3 received_envelopes [OF assms(6), of peer]
    by (simp add: a_handle_connection_def)
qed

end

lemma tcp_io_simps [simp]:
  "io_read (tcp_io cx) = a_poll_read cx" "io_write (tcp_io cx) = a_poll_write cx" "io_flush (tcp_io cx) = a_poll_flush cx"
  "io_now (tcp_io cx) s = clock (sock s)" "io_cap (tcp_io cx) n = n"
  by (simp_all add: tcp_io_def)

interpretation dial: async_io "tcp_io cx" a_pend a_steps a_flowing "\<lambda>s. stream_horizon (sock s)" for cx
  unfolding async_io_def async_io_axioms_def
  by (auto simp: stream_horizon_def a_poll_read_def tokio.async_stream_axioms
      split: prod.splits dest: stream_read_delay stream_read_clock)

text \<open>Writing to a connection that takes what is written takes no time and leaves the reading side alone.\<close>

lemma a_write_writable:
  assumes "writable s"
  shows "\<exists>s'. a_write (tcp_io cx) s f = Some (Inr (), s') \<and> writable s' \<and> outbound (sock s') = outbound (sock s) @ f \<and>
    inbound (sock s') = inbound (sock s) \<and> clock (sock s') = clock (sock s)"
proof -
  obtain s1 where s1: "a_write_all (a_poll_write cx) s f = Some (Inr (), s1)" "writable s1"
      "outbound (sock s1) = outbound (sock s) @ f" "inbound (sock s1) = inbound (sock s)"
    using a_write_all_writable [OF assms] by blast
  obtain s2 where s2: "await_flush (a_poll_flush cx) s1 = Some (Inr (), s2)" "writable s2"
      "outbound (sock s2) = outbound (sock s1)" "inbound (sock s2) = inbound (sock s1)"
    using await_flush_writable [OF s1(2)] by blast
  have run: "a_write (tcp_io cx) s f = Some (Inr (), s2)" using s1 s2 by (simp add: a_write_def a_write_frame_def)
  have "clock (sock s2) = clock (sock s)"
    using a_write_frame_keeps [where f = "\<lambda>s. clock (sock s)", OF run [unfolded a_write_def]]
    by (auto simp: a_poll_write_def a_put_def a_poll_flush_def stream_flush_def split: list.splits write_poll.splits option.splits)
  with run s1 s2 show ?thesis by auto
qed



section \<open>The writer's schedule\<close>

lemma select_first:
  assumes "bs \<noteq> []" and "select n bs = (t, e)"
  shows "(t, e) \<in> set bs \<and> (\<forall>(u, x) \<in> set bs. t \<le> u)"
proof -
  let ?m = "Min (fst ` set bs)" and ?r = "filter (\<lambda>(t, _). t = Min (fst ` set bs)) bs"
  have "?m \<in> fst ` set bs" using assms(1) by (intro Min_in) auto
  then have "?r \<noteq> []" by (auto simp: filter_empty_conv)
  then have "?r ! (n mod length ?r) \<in> set ?r" by (intro nth_mem) simp
  with assms(2) have "(t, e) \<in> set bs" "t = ?m" by (auto simp: select_def Let_def)
  moreover have "?m \<le> u" if "(u, x) \<in> set bs" for u x using that by (intro Min_le) force+
  ultimately show ?thesis by auto
qed

text \<open>Heartbeats come at their ticks, and no frame is written later than the next tick.\<close>

fun ticking :: "nat \<Rightarrow> (nat \<times> bytes option) list \<Rightarrow> bool" where
  "ticking beat [] \<longleftrightarrow> True"
| "ticking beat ((t, None) # ws) \<longleftrightarrow> t = beat \<and> ticking (beat + a_HEARTBEAT_INTERVAL) ws"
| "ticking beat ((t, Some f) # ws) \<longleftrightarrow> t \<le> beat \<and> ticking beat ws"

lemma a_writer_schedule:
  assumes "writable w" and "now \<le> beat" and "sorted (map fst (queue q))"
  shows "\<exists>w' ws rest. a_writer (tcp_io cx) flag abort pick i w now q beat = Some w' \<and>
    outbound (sock w') = outbound (sock w) @ written ws \<and> ticking beat ws \<and>
    map snd (queue q) = map snd (queued ws) @ map snd rest \<and>
    (flag = None \<longrightarrow> now \<le> abort \<longrightarrow> (\<forall>(t, f) \<in> set rest. abort < t))"
  using assms
proof (induction "length (queue q) + (Suc abort - beat)" arbitrary: i w now q beat rule: less_induct)
  case less
  let ?bs = "writer_branches flag now q beat"
  obtain t e where se: "select (pick i) ?bs = (t, e)" by fastforce
  have "?bs \<noteq> []" by (simp add: writer_branches_def)
  note first = select_first [OF this se]
  have t: "now \<le> t" "t \<le> beat" using first less.prems(2)
    by (auto simp: writer_branches_def shutdown_recv_def is_shutdown_def split: option.splits list.splits if_splits)
  have halt: ?case if run: "a_writer (tcp_io cx) flag abort pick i w now q beat = Some w"
    and late: "flag = None \<Longrightarrow> now \<le> abort \<Longrightarrow> \<forall>(t, f) \<in> set (queue q). abort < t"
    using run late by (intro exI [of _ w] exI [of _ "[]"] exI [of _ "queue q"]) simp
  show ?case
  proof (cases "abort < t")
    case True
    then have "\<forall>(u, f) \<in> set (queue q). abort < u" if "now \<le> abort"
      using first that less.prems(3) by (cases "queue q") (force simp: writer_branches_def max_def split: if_splits)+
    with True se show ?thesis by (intro halt) (subst a_writer.simps, simp_all)
  next
    case False
    show ?thesis
    proof (cases e)
      case WStop
      with first have "flag \<noteq> None"
        by (cases flag) (auto simp: writer_branches_def shutdown_recv_def is_shutdown_def split: list.splits)
      with WStop False se show ?thesis by (intro halt) (subst a_writer.simps, simp_all)
    next
      case WGone
      with first have "queue q = []" by (auto simp: writer_branches_def split: list.splits option.splits)
      with WGone False se show ?thesis by (intro halt) (subst a_writer.simps, simp_all)
    next
      case (WFrame f)
      with first obtain u qs where q: "queue q = (u, f) # qs" "t = max now u"
        by (auto simp: writer_branches_def split: list.splits option.splits)
      obtain w1 where w1: "a_write (tcp_io cx) w f = Some (Inr (), w1)" "writable w1"
          "outbound (sock w1) = outbound (sock w) @ f" using a_write_writable [OF less.prems(1)] by blast
      have eq: "a_writer (tcp_io cx) flag abort pick i w now q beat =
          a_writer (tcp_io cx) flag abort pick (Suc i) w1 t (q\<lparr>queue := qs\<rparr>) beat"
        using WFrame False se w1 q by (subst a_writer.simps) simp
      obtain w' ws rest where "a_writer (tcp_io cx) flag abort pick (Suc i) w1 t (q\<lparr>queue := qs\<rparr>) beat = Some w'"
          "outbound (sock w') = outbound (sock w1) @ written ws" "ticking beat ws"
          "map snd qs = map snd (queued ws) @ map snd rest"
          "flag = None \<longrightarrow> t \<le> abort \<longrightarrow> (\<forall>(t, f) \<in> set rest. abort < t)"
        using less.hyps [of "q\<lparr>queue := qs\<rparr>" beat w1 t "Suc i"] q w1(2) t less.prems(3) by auto
      with eq w1 q t False show ?thesis by (intro exI [of _ w'] exI [of _ "(t, Some f) # ws"] exI [of _ rest]) simp
    next
      case WBeat
      then have tb: "t = beat" using first less.prems(2) by (auto simp: writer_branches_def split: list.splits option.splits)
      obtain w1 where w1: "a_write (tcp_io cx) w a_heartbeat = Some (Inr (), w1)" "writable w1"
          "outbound (sock w1) = outbound (sock w) @ a_heartbeat" using a_write_writable [OF less.prems(1)] by blast
      let ?b = "t + a_HEARTBEAT_INTERVAL"
      have eq: "a_writer (tcp_io cx) flag abort pick i w now q beat = a_writer (tcp_io cx) flag abort pick (Suc i) w1 t q ?b"
        using WBeat False se w1 by (subst a_writer.simps) simp
      have "length (queue q) + (Suc abort - ?b) < length (queue q) + (Suc abort - beat)"
        using False tb by (simp add: a_HEARTBEAT_INTERVAL_def)
      from less.hyps [OF this w1(2), of t "Suc i"] less.prems(3) obtain w' ws rest where
          "a_writer (tcp_io cx) flag abort pick (Suc i) w1 t q ?b = Some w'"
          "outbound (sock w') = outbound (sock w1) @ written ws" "ticking ?b ws"
          "map snd (queue q) = map snd (queued ws) @ map snd rest"
          "flag = None \<longrightarrow> t \<le> abort \<longrightarrow> (\<forall>(t, f) \<in> set rest. abort < t)" by auto
      with eq w1 tb False show ?thesis
        by (intro exI [of _ w'] exI [of _ "(t, None) # ws"] exI [of _ rest]) (simp add: a_encoders)
    qed
  qed
qed

end
