(* ===== verification/Async_Session.thy ===== *)
theory Async_Session
  imports Async_Conn
begin

text \<open>
  What the connections of the asynchronous crate guarantee: a connection delivers what its peer
  sends and writes what the broker queues, the broker sees well-formed sessions whatever happens,
  how long a connection can keep a closing socket waiting, and the accept and connect loops.
\<close>

section \<open>One connection\<close>





section \<open>A closing socket\<close>

lemma stream_read_waits:
  assumes "inbound s = (d, ev) # es" and "stream_read s n = (r, s')"
  shows "clock s + d \<le> clock s'"
  using assms by (cases ev) (auto simp: stream_read_def dest: read_script_clock split: prod.splits if_splits)

text \<open>What holds after the first poll and is kept by every poll holds when the frame is there.\<close>

lemma a_read_frame_after:
  assumes "a_read_frame cap rd s = Some (r, s')" and "preserves I rd" and first: "I (snd (rd s 4))"
  shows "I s'"
proof -
  obtain q s1 where ex: "a_read_exact rd s 4 [] = Some (q, s1)"
    and out: "s' = s1 \<or> (\<exists>len x. a_fill cap rd s1 len [] = Some (x, s'))"
    using assms(1) by (auto simp: a_read_frame_def Let_def split: option.splits prod.splits sum.splits)
  obtain x t where aw: "await_read rd s 4 = Some (x, t)" and rest: "s1 = t \<or> (\<exists>n acc. a_read_exact rd t n acc = Some (q, s1))"
    using ex by (subst (asm) a_read_exact.simps) (auto split: option.splits prod.splits sum.splits if_splits)
  have "I t" using aw first await_read_inv [OF _ assms(2)]
    by (subst (asm) await_read.simps) (auto split: prod.splits if_splits)
  then have "I s1" using rest a_read_exact_inv [OF _ assms(2)] by force
  with out show ?thesis using a_fill_inv [OF _ assms(2)] by force
qed

lemma next_frame_waits:
  assumes "a_next_frame (tcp_io cx) s = Some (x, s')" and "inbound (sock s) = (d, ev) # es"
  shows "clock (sock s) + d \<le> clock (sock s')"
proof (rule a_read_frame_after [where I = "\<lambda>z. clock (sock s) + d \<le> clock (sock z)", OF assms(1) [unfolded a_next_frame_def]])
  show "preserves (\<lambda>z. clock (sock s) + d \<le> clock (sock z)) (io_read (tcp_io cx))"
    by (auto simp: preserves_def a_poll_read_def split: prod.splits dest: stream_read_clock)
  show "clock (sock s) + d \<le> clock (sock (snd (io_read (tcp_io cx) s 4)))"
    using stream_read_waits [OF assms(2)] by (auto simp: a_poll_read_def split: prod.split)
qed

text \<open>On a stream that delivers and takes everything, sooner or later, a connection always ends.\<close>

lemma connection_returns:
  assumes "a_flowing s" and "writable s"
  obtains s1 x s2 k' t w where "a_write (tcp_io cx) s (a_hello me) = Some (Inr (), s1)"
    and "inbound (sock s1) = inbound (sock s)" and "clock (sock s1) = clock (sock s)"
    and "a_next_frame (tcp_io cx) s1 = Some (x, s2)"
    and "a_handle_connection (tcp_io cx) flag rp wp s k me = Some (Inr (), k', t, w)"
    and "clock (sock s2) \<le> t" and "\<And>T. flag = Some T \<Longrightarrow> t \<le> max (clock (sock s2)) T"
proof -
  obtain s1 where s1: "a_write (tcp_io cx) s (a_hello me) = Some (Inr (), s1)"
      "inbound (sock s1) = inbound (sock s)" "clock (sock s1) = clock (sock s)"
    using a_write_writable [OF assms(2)] by blast
  have "a_flowing s1" using assms(1) s1(2) by (simp add: a_flowing_def stream_flowing_def)
  from dial.next_frame_flowing [OF this, of cx] obtain f s2 where
      s2: "a_next_frame (tcp_io cx) s1 = Some (Inr f, s2)" "a_flowing s2"
    by (cases "next_frame (a_pend s1)") auto
  show thesis
  proof (cases "\<exists>frame peer rx k1. f = Some frame \<and> a_hello_peer frame = Some peer \<and> a_register k peer = (Some rx, k1)")
    case False
    then have "\<exists>k'. a_handle_connection (tcp_io cx) flag rp wp s k me = Some (Inr (), k', clock (sock s2), None)"
      by (auto simp: a_handle_connection_def s1(1) s2(1) split: option.split prod.split)
    with s1 s2(1) that show thesis by fastforce
  next
    case True
    then obtain frame peer rx k1 where r: "f = Some frame" "a_hello_peer frame = Some peer" "a_register k peer = (Some rx, k1)"
      by blast
    obtain k2 t where rd: "a_reader (tcp_io cx) flag rp 0 s2 k1 peer = Some (k2, t)" "clock (sock s2) \<le> t"
        "\<forall>T. flag = Some T \<longrightarrow> t \<le> max (clock (sock s2)) T"
      using dial.reader_returns [OF s2(2), of cx flag rp 0 k1 peer] by auto
    with s1(1) s2(1) r obtain k' w where "a_handle_connection (tcp_io cx) flag rp wp s k me = Some (Inr (), k', t, w)"
      by (simp add: a_handle_connection_def)
    with s1 s2(1) rd(2,3) that show thesis by blast
  qed
qed

text \<open>C23. What the shutdown signal can do for a connection that is being made, and what it cannot: a
  connection ends no earlier than its peer sends something or closes, however early the signal was
  given, because the HELLO is awaited without the signal and without a timeout; a connection whose
  handshake is over ends with the signal at the latest.\<close>

theorem async_shutdown_waits_for_hello:
  assumes "a_flowing s" and "writable s" and "inbound (sock s) = (d, ev) # es"
  shows "\<exists>r k' t w s1 x s2. a_handle_connection (tcp_io cx) (Some T) rp wp s k me = Some (r, k', t, w) \<and>
    a_write (tcp_io cx) s (a_hello me) = Some (Inr (), s1) \<and> a_next_frame (tcp_io cx) s1 = Some (x, s2) \<and>
    clock (sock s) + d \<le> clock (sock s2) \<and> clock (sock s2) \<le> t \<and> t \<le> max (clock (sock s2)) T"
proof (rule connection_returns [OF assms(1,2), of cx me "Some T" rp wp k])
  fix s1 x s2 k' t w
  assume *: "a_write (tcp_io cx) s (a_hello me) = Some (Inr (), s1)" "inbound (sock s1) = inbound (sock s)"
    "clock (sock s1) = clock (sock s)" "a_next_frame (tcp_io cx) s1 = Some (x, s2)"
    "a_handle_connection (tcp_io cx) (Some T) rp wp s k me = Some (Inr (), k', t, w)"
    "clock (sock s2) \<le> t" "\<And>T'. Some T = Some T' \<Longrightarrow> t \<le> max (clock (sock s2)) T'"
  from next_frame_waits [OF *(4)] *(2,3) assms(3) have "clock (sock s) + d \<le> clock (sock s2)" by auto
  with * show ?thesis by blast
qed

theorem async_shutdown_waits_for_hello_witness:
  "\<exists>r k' t w. a_handle_connection (tcp_io 1) (Some 10) (\<lambda>_. True) (\<lambda>_. 0)
      \<lparr>sock = \<lparr>inbound = [(86400000, Arrive [0])], outbound = [], wfaults = [], ffaults = [], clock = 5\<rparr>,
       wpolls = [], spolls = [], rwaker = None, wwaker = None, write_shut = False\<rparr>
      \<lparr>ak_sent = [], ak_room = None, ak_answer = Some True, ak_feed = \<lparr>queue = [], hangup = 0\<rparr>, ak_fresh = 0\<rparr>
      (replicate 16 5) = Some (r, k', t, w) \<and> 86400005 \<le> t"
proof -
  let ?s = "\<lparr>sock = \<lparr>inbound = [(86400000, Arrive [0])], outbound = [], wfaults = [], ffaults = [], clock = 5\<rparr>,
       wpolls = [], spolls = [], rwaker = None, wwaker = None, write_shut = False\<rparr>"
  have "a_flowing ?s" "writable ?s" "inbound (sock ?s) = (86400000, Arrive [0]) # []"
    by (simp_all add: a_flowing_def stream_flowing_def writable_def)
  from async_shutdown_waits_for_hello [OF this, of 1 10 "\<lambda>_. True" "\<lambda>_. 0" "\<lparr>ak_sent = [], ak_room = None,
      ak_answer = Some True, ak_feed = \<lparr>queue = [], hangup = 0\<rparr>, ak_fresh = 0\<rparr>" "replicate 16 5"]
  show ?thesis by fastforce
qed



section \<open>The accept loop\<close>

definition accepts_of :: "nat \<Rightarrow> (nat \<times> a_conn io_result) list \<Rightarrow> (nat \<times> a_conn) list" where
  "accepts_of now as = List.map_filter (\<lambda>(a, r). case r of Inr c \<Rightarrow> Some (max now a, c) | Inl e \<Rightarrow> None) as"

lemma accepts_of_simps:
  "accepts_of now [] = []"
  "accepts_of now ((a, r) # as) = (case r of Inr c \<Rightarrow> (max now a, c) # accepts_of now as | Inl e \<Rightarrow> accepts_of now as)"
  by (simp_all add: accepts_of_def List.map_filter_def split: sum.split)

lemma accepts_of_later: "\<forall>(b, r) \<in> set as. a \<le> b \<Longrightarrow> accepts_of (max now a) as = accepts_of now as"
  by (induction as) (auto simp: accepts_of_simps split: sum.split)

text \<open>The accept loop of the asynchronous crate serves every connection at the moment it arrives, in
  order, also after calls of \<open>accept\<close> that failed, until the shutdown signal, and ends with the signal;
  only connections that arrive at that very moment may go either way.\<close>

theorem async_accept_loop_serves:
  assumes "sorted (map fst as)" and "now \<le> T"
  shows "\<exists>n. a_accept_loop (Some T) pick i now as = (accepts_of now (take n as), Some T) \<and>
    (\<forall>(a, r) \<in> set (take n as). a \<le> T) \<and> (\<forall>(a, r) \<in> set (drop n as). T \<le> max now a)"
  using assms
proof (induction as arbitrary: now i)
  case Nil
  then show ?case by (simp add: accepts_of_simps shutdown_recv_def is_shutdown_def)
next
  case (Cons x as)
  obtain a r where x: "x = (a, r)" by (cases x)
  have later: "\<forall>(b, r) \<in> set as. a \<le> b" using Cons.prems(1) x by auto
  have sd: "shutdown_recv (Some T) now = Some T" using Cons.prems(2) by (simp add: shutdown_recv_def is_shutdown_def)
  show ?case
  proof (cases "shut_first (Some T) now (max now a) (pick i)")
    case True
    then have "T \<le> max now a" using Cons.prems(2) by (auto simp: shut_first_def sd)
    with later True sd x show ?thesis by (intro exI [of _ 0]) (auto simp: accepts_of_simps max_def split: if_splits)
  next
    case False
    then have aT: "max now a \<le> T" by (auto simp: shut_first_def sd)
    obtain n where n: "a_accept_loop (Some T) pick (Suc i) (max now a) as = (accepts_of (max now a) (take n as), Some T)"
        "\<forall>(a, r) \<in> set (take n as). a \<le> T" "\<forall>(b, r) \<in> set (drop n as). T \<le> max (max now a) b"
      using Cons.IH [OF _ aT, of "Suc i"] Cons.prems(1) by auto
    have "accepts_of (max now a) (take n as) = accepts_of now (take n as)"
      using later by (intro accepts_of_later) (auto dest: in_set_takeD)
    moreover have "\<forall>(b, r) \<in> set (drop n as). T \<le> max now b"
      using n(3) later by (fastforce dest: in_set_dropD)
    ultimately show ?thesis using n(1,2) False aT x
      by (intro exI [of _ "Suc n"]) (auto simp: accepts_of_simps split: sum.split)
  qed
qed


definition a_demo_conn :: a_conn where
  "a_demo_conn = \<lparr>ac_stream = \<lparr>sock = \<lparr>inbound = [(3, Arrive (hello (replicate 16 7)))], outbound = [], wfaults = [],
       ffaults = [], clock = 0\<rparr>, wpolls = [WPending], spolls = [], rwaker = None, wwaker = None, write_shut = False\<rparr>,
     ac_link = \<lparr>ak_sent = [], ak_room = None, ak_answer = Some True, ak_feed = \<lparr>queue = [], hangup = 900\<rparr>, ak_fresh = 0\<rparr>,
     ac_rpick = (\<lambda>_. True), ac_wpick = (\<lambda>_. 0)\<rparr>"

theorem async_accept_loop_serves_witness:
  "\<exists>n. a_accept_loop (Some 130) (\<lambda>_. True) 0 0 [(60, Inl OtherKind), (90, Inr a_demo_conn), (500, Inr a_demo_conn)] =
    (accepts_of 0 (take n [(60, Inl OtherKind), (90, Inr a_demo_conn), (500, Inr a_demo_conn)]), Some 130)"
  using async_accept_loop_serves [of "[(60, Inl OtherKind), (90, Inr a_demo_conn), (500, Inr a_demo_conn)]" 0 130 "\<lambda>_. True" 0]
  by auto


section \<open>The connect loop\<close>

definition reachable_peers :: "(nat \<Rightarrow> a_attempt) \<Rightarrow> bool" where
  "reachable_peers attempts \<longleftrightarrow>
     (\<forall>i c. aa_conn (attempts i) = Some c \<longrightarrow> a_flowing (ac_stream c) \<and> writable (ac_stream c))"

lemma run_connection_returns:
  assumes "a_flowing (ac_stream c)" and "writable (ac_stream c)"
  obtains k' t' where "a_run_connection tls flag AConnectPlain me t c k = Some (k', t')" and "t \<le> t'"
    and "logs (link_of k) (link_of k')"
proof -
  let ?s = "a_at t (ac_stream c)" and ?k = "k\<lparr>ak_answer := ak_answer (ac_link c), ak_feed := ak_feed (ac_link c)\<rparr>"
  have s: "a_flowing ?s" "writable ?s"
    using assms by (simp_all add: a_at_def a_flowing_def stream_flowing_def writable_def)
  show thesis
  proof (rule connection_returns [OF s, of 0 me flag "ac_rpick c" "ac_wpick c" ?k])
    fix s1 x s2 k' t' w
    assume *: "clock (sock s1) = clock (sock ?s)" "a_next_frame (tcp_io 0) s1 = Some (x, s2)"
      "a_handle_connection (tcp_io 0) flag (ac_rpick c) (ac_wpick c) ?s ?k me = Some (Inr (), k', t', w)" "clock (sock s2) \<le> t'"
    have "t \<le> t'" using dial.next_frame_time [OF *(2)] *(1,4) by (simp add: a_at_def)
    moreover have "logs (link_of k) (link_of k')" using a_handle_connection_logs [OF *(3)] by (simp add: logs_def)
    ultimately show thesis using *(3) by (intro that) (simp_all add: a_run_connection_def)
  qed
qed

lemma connect_loop_from:
  assumes "\<And>i. 0 < delay i" and "reachable_peers attempts"
  shows "\<exists>n k' t ls. a_connect_loop tls (Some T) AConnectPlain me delay attempts i k now = Some (i + n, k', t) \<and>
    T \<le> t \<and> length ls = n \<and> map cmd (ak_sent k') = map cmd (ak_sent k) @ concat ls \<and> sessions (ak_fresh k) ls"
proof (induction "T - now" arbitrary: i k now rule: less_induct)
  case less
  have halt: ?case if "a_connect_loop tls (Some T) AConnectPlain me delay attempts i k now = Some (i, k, t)" "T \<le> t" for t
    using that by (intro exI [of _ 0] exI [of _ k] exI [of _ t] exI [of _ "[]"]) simp
  let ?a = "attempts i" let ?t = "now + min (aa_took ?a) a_CONNECT_TIMEOUT"
  let ?run = "case (if aa_took ?a \<le> a_CONNECT_TIMEOUT then aa_conn ?a else None) of
      None \<Rightarrow> Some (k, ?t) | Some c \<Rightarrow> a_run_connection tls (Some T) AConnectPlain me ?t c k"
  obtain k1 t1 where run: "?run = Some (k1, t1)" "?t \<le> t1" and "logs (link_of k) (link_of k1)"
  proof (cases "if aa_took ?a \<le> a_CONNECT_TIMEOUT then aa_conn ?a else None")
    case None
    with that show thesis by simp
  next
    case (Some c)
    then have "a_flowing (ac_stream c)" "writable (ac_stream c)"
      using assms(2) by (auto simp: reachable_peers_def split: if_splits)
    with Some that show thesis by (elim run_connection_returns [where t = ?t and k = k]) auto
  qed
  then obtain log where log: "map cmd (ak_sent k1) = map cmd (ak_sent k) @ log" "session_log (ak_fresh k) log"
      "ak_fresh k \<le> ak_fresh k1" "log \<noteq> [] \<longrightarrow> ak_fresh k1 = ak_fresh k + 2" by (auto simp: logs_def)
  have one: "sessions (ak_fresh k) [log]" using log by auto
  have halt1: ?case if "a_connect_loop tls (Some T) AConnectPlain me delay attempts i k now = Some (Suc i, k1, t)" "T \<le> t" for t
    using that one log(1) by (intro exI [of _ 1] exI [of _ k1] exI [of _ t] exI [of _ "[log]"]) (simp del: sessions.simps)
  have unfold: "a_connect_loop tls (Some T) AConnectPlain me delay attempts i k now =
     (if is_shutdown (Some T) now then Some (i, k, now)
      else if shut_first (Some T) now ?t (aa_pick ?a) then Some (i, k, the (shutdown_recv (Some T) now))
      else if is_shutdown (Some T) t1 then Some (Suc i, k1, t1)
      else if shut_first (Some T) t1 (t1 + delay i) (aa_sleep_pick ?a) then Some (Suc i, k1, the (shutdown_recv (Some T) t1))
      else a_connect_loop tls (Some T) AConnectPlain me delay attempts (Suc i) k1 (t1 + delay i))"
    by (subst a_connect_loop.simps) (simp only: Let_def run option.case prod.case)
  consider (early) "T \<le> now" | (dialling) "now < T" "shut_first (Some T) now ?t (aa_pick ?a)"
    | (late) "now < T" "\<not> shut_first (Some T) now ?t (aa_pick ?a)" "T \<le> t1"
    | (sleeping) "now < T" "\<not> shut_first (Some T) now ?t (aa_pick ?a)" "t1 < T"
        "shut_first (Some T) t1 (t1 + delay i) (aa_sleep_pick ?a)"
    | (again) "now < T" "\<not> shut_first (Some T) now ?t (aa_pick ?a)" "t1 < T"
        "\<not> shut_first (Some T) t1 (t1 + delay i) (aa_sleep_pick ?a)" by linarith
  then show ?case
  proof cases
    case early
    then show ?thesis using unfold by (intro halt [of now]) (simp_all add: is_shutdown_def)
  next
    case dialling
    then show ?thesis using unfold by (intro halt [of T]) (simp_all add: is_shutdown_def shutdown_recv_def)
  next
    case late
    then show ?thesis using unfold by (intro halt1 [of t1]) (simp_all add: is_shutdown_def)
  next
    case sleeping
    then show ?thesis using unfold by (intro halt1 [of T]) (simp_all add: is_shutdown_def shutdown_recv_def)
  next
    case again
    then have "T - (t1 + delay i) < T - now" using run(2) assms(1) [of i] by linarith
    from less [OF this, of "Suc i" k1] obtain n k' t ls where
        "a_connect_loop tls (Some T) AConnectPlain me delay attempts (Suc i) k1 (t1 + delay i) = Some (Suc i + n, k', t)"
        "T \<le> t" "length ls = n" "map cmd (ak_sent k') = map cmd (ak_sent k1) @ concat ls" "sessions (ak_fresh k1) ls"
      by blast
    with again unfold log show ?thesis
      by (intro exI [of _ "Suc n"] exI [of _ k'] exI [of _ t] exI [of _ "log # ls"]) (auto simp: is_shutdown_def)
  qed
qed

text \<open>The connect loop of the asynchronous crate, for any outcomes of its attempts and any peers that
  answer or close in the end: it ends, not before the shutdown signal, and shows the broker one
  well-formed session per attempt, in order, each on channels of its own.\<close>

theorem async_connect_loop_retries:
  assumes "\<And>i. 0 < delay i" and "reachable_peers attempts"
  shows "\<exists>n k' t ls. a_connect_loop tls (Some T) AConnectPlain me delay attempts 0 k now = Some (n, k', t) \<and>
    T \<le> t \<and> length ls = n \<and> map cmd (ak_sent k') = map cmd (ak_sent k) @ concat ls \<and> sessions (ak_fresh k) ls"
  using connect_loop_from [OF assms, where i = 0] by simp


text \<open>One peer that answers, one attempt that is refused, and so on.\<close>

definition a_demo_attempt :: "nat \<Rightarrow> a_attempt" where
  "a_demo_attempt i = \<lparr>aa_took = 2, aa_conn = (if even i then Some a_demo_conn else None), aa_pick = True,
     aa_sleep_pick = False\<rparr>"

definition a_demo_tls :: "(unit, unit, unit) a_tls" where
  "a_demo_tls = \<lparr>tls_accept = \<lambda>_ s. (Some s, 0), tls_connect = \<lambda>_ _ s. (Some s, 0)\<rparr>"

lemma a_demo_reachable: "reachable_peers a_demo_attempt"
  by (auto simp: reachable_peers_def a_demo_attempt_def a_demo_conn_def a_flowing_def stream_flowing_def writable_def)

theorem async_connect_loop_retries_witness:
  "\<exists>n k' t ls. a_connect_loop a_demo_tls (Some 500) AConnectPlain (replicate 16 9) (\<lambda>_. 100)
      a_demo_attempt 0 (ac_link a_demo_conn) 0 = Some (n, k', t) \<and> 500 \<le> t \<and> length ls = n \<and>
    map cmd (ak_sent k') = map cmd (ak_sent (ac_link a_demo_conn)) @ concat ls \<and> sessions (ak_fresh (ac_link a_demo_conn)) ls"
  by (rule async_connect_loop_retries) (simp_all add: a_demo_reachable)

end
