(* ===== verification/Async_Socket.thy ===== *)
theory Async_Socket
  imports Socket Async_Session
begin

text \<open>
  The public API of the asynchronous crate (\<open>rust-lib-async/src/lib.rs\<close>): the builder, the socket and
  its operations.

  The record \<open>a_inner\<close> has the fields of the Rust struct, with the broker's task as in \<open>Socket\<close>.  The
  \<open>watch\<close> channel of the shutdown signal holds the time at which \<open>true\<close> was sent.  Binding, random
  UUIDs and the parser of server names are arguments.  A task that was spawned runs in an
  environment of its own, \<open>a_task_env\<close>: when it starts, what arrives at its listener or how its
  attempts to connect go, and which branch wins when two are ready at once.
\<close>

datatype a_error = AIo error_kind | AClosed | AInvalidServerName

type_synonym 'a a_result = "a_error + 'a"


section \<open>The builder\<close>

record a_socket_builder =
  asb_send_mode :: SendMode
  asb_delivery :: DeliveryGuarantee
  asb_identity :: "identity option"
  asb_reconnect_delay :: "nat \<Rightarrow> nat"   \<comment> \<open>what the \<open>i\<close>-th call of the closure returns, in milliseconds\<close>

definition a_builder :: a_socket_builder where
  "a_builder = \<lparr>asb_send_mode = RoundRobin, asb_delivery = AtMostOnce, asb_identity = None,
     asb_reconnect_delay = (\<lambda>_. 100)\<rparr>"

definition a_set_send_mode :: "SendMode \<Rightarrow> a_socket_builder \<Rightarrow> a_socket_builder" where
  "a_set_send_mode mode b = b\<lparr>asb_send_mode := mode\<rparr>"

definition a_set_delivery_guarantee :: "DeliveryGuarantee \<Rightarrow> a_socket_builder \<Rightarrow> a_socket_builder" where
  "a_set_delivery_guarantee guarantee b = b\<lparr>asb_delivery := guarantee\<rparr>"

definition a_set_identity :: "identity \<Rightarrow> a_socket_builder \<Rightarrow> a_socket_builder" where
  "a_set_identity i b = b\<lparr>asb_identity := Some i\<rparr>"

definition a_set_reconnect_delay :: "(nat \<Rightarrow> nat) \<Rightarrow> a_socket_builder \<Rightarrow> a_socket_builder" where
  "a_set_reconnect_delay f b = b\<lparr>asb_reconnect_delay := f\<rparr>"

datatype ('srv, 'cli, 'name, 'addr) a_task =
    AAcceptTask 'addr "'srv a_acceptor"
  | AConnectTask 'addr "('cli, 'name) a_connector"

record ('srv, 'cli, 'name, 'addr) a_inner =
  ai_identity :: identity
  ai_reconnect_delay :: "nat \<Rightarrow> nat"
  ai_cmds :: "a_command list"
  ai_broker :: a_broker
  ai_running :: bool             \<comment> \<open>the broker's task has not ended\<close>
  ai_close :: shutdown_flag      \<comment> \<open>the value of the \<open>watch\<close> channel\<close>
  ai_closed :: bool
  ai_joinable :: bool            \<comment> \<open>\<open>broker_handle\<close> still holds the handle\<close>
  ai_tasks :: "('srv, 'cli, 'name, 'addr) a_task list"

definition a_build :: "identity \<Rightarrow> bytes \<Rightarrow> a_socket_builder \<Rightarrow> ('srv, 'cli, 'name, 'addr) a_inner" where
  "a_build fresh_id uuid b =
     \<lparr>ai_identity = (case asb_identity b of Some i \<Rightarrow> i | None \<Rightarrow> fresh_id),
      ai_reconnect_delay = asb_reconnect_delay b, ai_cmds = [],
      ai_broker = a_broker_new (asb_send_mode b) (asb_delivery b) uuid, ai_running = True,
      ai_close = None, ai_closed = False, ai_joinable = True, ai_tasks = []\<rparr>"

definition a_socket_new :: "identity \<Rightarrow> bytes \<Rightarrow> ('srv, 'cli, 'name, 'addr) a_inner" where
  "a_socket_new fresh_id uuid = a_build fresh_id uuid a_builder"

definition a_sock_identity :: "('srv, 'cli, 'name, 'addr) a_inner \<Rightarrow> identity" where
  "a_sock_identity s = ai_identity s"


section \<open>Binding and connecting\<close>

definition spawn_accept :: "'addr \<Rightarrow> 'srv a_acceptor \<Rightarrow> ('srv, 'cli, 'name, 'addr) a_inner \<Rightarrow>
    ('srv, 'cli, 'name, 'addr) a_inner" where
  "spawn_accept addr a s = s\<lparr>ai_tasks := ai_tasks s @ [AAcceptTask addr a]\<rparr>"

definition a_bind :: "'addr io_result \<Rightarrow> 'addr io_result \<Rightarrow>
    ('srv, 'cli, 'name, 'addr) a_inner \<Rightarrow> 'addr a_result \<times> ('srv, 'cli, 'name, 'addr) a_inner" where
  "a_bind listening local_addr s =
     (case listening of
        Inl e \<Rightarrow> (Inl (AIo e), s)
      | Inr listener \<Rightarrow>
          (case local_addr of
             Inl e \<Rightarrow> (Inl (AIo e), s)
           | Inr l \<Rightarrow> (Inr l, spawn_accept listener AAcceptPlain s)))"

definition a_bind_tls :: "'addr io_result \<Rightarrow> 'addr io_result \<Rightarrow> 'srv \<Rightarrow>
    ('srv, 'cli, 'name, 'addr) a_inner \<Rightarrow> 'addr a_result \<times> ('srv, 'cli, 'name, 'addr) a_inner" where
  "a_bind_tls listening local_addr config s =
     (case listening of
        Inl e \<Rightarrow> (Inl (AIo e), s)
      | Inr listener \<Rightarrow>
          (case local_addr of
             Inl e \<Rightarrow> (Inl (AIo e), s)
           | Inr l \<Rightarrow> (Inr l, spawn_accept listener (AAcceptTls config) s)))"

definition spawn_connect :: "'addr \<Rightarrow> ('cli, 'name) a_connector \<Rightarrow>
    ('srv, 'cli, 'name, 'addr) a_inner \<Rightarrow> unit a_result \<times> ('srv, 'cli, 'name, 'addr) a_inner" where
  "spawn_connect addr c s =
     (if ai_closed s then (Inl AClosed, s)
      else (Inr (), s\<lparr>ai_tasks := ai_tasks s @ [AConnectTask addr c]\<rparr>))"

definition a_connect :: "'addr \<Rightarrow>
    ('srv, 'cli, 'name, 'addr) a_inner \<Rightarrow> unit a_result \<times> ('srv, 'cli, 'name, 'addr) a_inner" where
  "a_connect addr = spawn_connect addr AConnectPlain"

definition a_connect_tls :: "(string \<Rightarrow> 'name option) \<Rightarrow> 'addr \<Rightarrow> string \<Rightarrow> 'cli \<Rightarrow>
    ('srv, 'cli, 'name, 'addr) a_inner \<Rightarrow> unit a_result \<times> ('srv, 'cli, 'name, 'addr) a_inner" where
  "a_connect_tls parse_name addr server_name config s =
     (case parse_name server_name of
        None \<Rightarrow> (Inl AInvalidServerName, s)
      | Some name \<Rightarrow> spawn_connect addr (AConnectTls config name) s)"


section \<open>Sending and receiving\<close>

definition a_sock_command :: "a_command \<Rightarrow> ('srv, 'cli, 'name, 'addr) a_inner \<Rightarrow>
    bool \<times> ('srv, 'cli, 'name, 'addr) a_inner" where
  "a_sock_command c s = (if ai_running s then (True, s\<lparr>ai_cmds := ai_cmds s @ [c]\<rparr>) else (False, s))"

definition a_sock_dispatch :: "identity option \<Rightarrow> bytes \<Rightarrow>
    ('srv, 'cli, 'name, 'addr) a_inner \<Rightarrow> unit a_result \<times> ('srv, 'cli, 'name, 'addr) a_inner" where
  "a_sock_dispatch target p s =
     (case a_sock_command (ASend target p) s of (ok, s') \<Rightarrow> (if ok then Inr () else Inl AClosed, s'))"

definition a_send :: "bytes \<Rightarrow>
    ('srv, 'cli, 'name, 'addr) a_inner \<Rightarrow> unit a_result \<times> ('srv, 'cli, 'name, 'addr) a_inner" where
  "a_send p = a_sock_dispatch None p"

definition a_send_to :: "identity \<Rightarrow> bytes \<Rightarrow>
    ('srv, 'cli, 'name, 'addr) a_inner \<Rightarrow> unit a_result \<times> ('srv, 'cli, 'name, 'addr) a_inner" where
  "a_send_to i p = a_sock_dispatch (Some i) p"

text \<open>\<open>UnboundedReceiver::recv\<close> behind the mutex, which is held while waiting.\<close>

definition a_recv_identity :: "nat \<Rightarrow> recv_rx \<Rightarrow> ((identity \<times> bytes) option \<times> nat \<times> recv_rx) option" where
  "a_recv_identity now r =
     (let locked = max now (rx_free r)
      in case rx_items r of
           (t, m) # rest \<Rightarrow> Some (Some m, max locked t, r\<lparr>rx_items := rest, rx_free := max locked t\<rparr>)
         | [] \<Rightarrow>
             (case rx_gone r of
                None \<Rightarrow> None
              | Some g \<Rightarrow> Some (None, max locked g, r\<lparr>rx_free := max locked g\<rparr>)))"

definition a_recv :: "nat \<Rightarrow> recv_rx \<Rightarrow> (bytes option \<times> nat \<times> recv_rx) option" where
  "a_recv now r = map_option (\<lambda>(m, t, r'). (map_option snd m, t, r')) (a_recv_identity now r)"

text \<open>The streams, polled as soon as they have yielded; \<open>got\<close> is what they yielded so far.\<close>

partial_function (option) a_identity_messages :: "nat \<Rightarrow> recv_rx \<Rightarrow> (identity \<times> bytes) list \<Rightarrow>
    ((identity \<times> bytes) list \<times> nat) option" where
  "a_identity_messages now r got =
     (case a_recv_identity now r of
        None \<Rightarrow> None
      | Some (Some m, t, r') \<Rightarrow> a_identity_messages t r' (got @ [m])
      | Some (None, t, r') \<Rightarrow> Some (got, t))"

partial_function (option) a_messages :: "nat \<Rightarrow> recv_rx \<Rightarrow> bytes list \<Rightarrow> (bytes list \<times> nat) option" where
  "a_messages now r got =
     (case a_recv now r of
        None \<Rightarrow> None
      | Some (Some p, t, r') \<Rightarrow> a_messages t r' (got @ [p])
      | Some (None, t, r') \<Rightarrow> Some (got, t))"


section \<open>Closing\<close>

record a_task_env =
  te_start :: nat
  te_pick :: "nat \<Rightarrow> bool"
  te_arrivals :: "(nat \<times> a_conn io_result) list"
  te_attempts :: "nat \<Rightarrow> a_attempt"
  te_link :: a_link

text \<open>When a task ends: the body that \<open>spawn_accept\<close> and \<open>spawn_connect\<close> give it.\<close>

definition task_end :: "('srv, 'cli, 'name) a_tls \<Rightarrow> ('srv, 'cli, 'name, 'addr) a_inner \<Rightarrow> a_task_env \<Rightarrow>
    ('srv, 'cli, 'name, 'addr) a_task \<Rightarrow> nat option" where
  "task_end tls s te task =
     (case task of
        AAcceptTask _ _ \<Rightarrow> snd (a_accept_loop (ai_close s) (te_pick te) 0 (te_start te) (te_arrivals te))
      | AConnectTask _ c \<Rightarrow>
          map_option (snd \<circ> snd)
            (a_connect_loop tls (ai_close s) c (ai_identity s) (ai_reconnect_delay s) (te_attempts te) 0
               (te_link te) (te_start te)))"

fun await_all :: "nat \<Rightarrow> nat option list \<Rightarrow> nat option" where
  "await_all now [] = Some now"
| "await_all now (None # ts) = None"
| "await_all now (Some t # ts) = await_all (max now t) ts"

text \<open>When the broker's task takes the \<open>Close\<close>.\<close>

fun run_end :: "(nat \<times> a_event) list \<Rightarrow> nat option" where
  "run_end [] = None"
| "run_end ((t, e) # es) = (if e = ACmd AClose then Some t else run_end es)"

text \<open>
  A whole call.  \<open>envs\<close> are the environments of the tasks in the order of their handles, and
  \<open>schedule\<close> tells when the broker takes the commands that are queued for it, and when it
  retransmits meanwhile; \<open>late\<close> are the commands that connections still send, behind the \<open>Close\<close>.
  The result has the time at which the call returns; \<^term>\<open>None\<close> means that it never does.
\<close>

definition a_close :: "('srv, 'cli, 'name) a_tls \<Rightarrow> a_task_env list \<Rightarrow> (a_command list \<Rightarrow> (nat \<times> a_event) list) \<Rightarrow>
    a_command list \<Rightarrow> nat \<Rightarrow> ('srv, 'cli, 'name, 'addr) a_inner \<Rightarrow> nat option \<times> ('srv, 'cli, 'name, 'addr) a_inner" where
  "a_close tls envs schedule late now s =
     (if ai_closed s then (Some now, s)
      else
        let s1 = s\<lparr>ai_closed := True, ai_close := Some now\<rparr>;
            s2 = snd (a_sock_command AClose s1);
            tasks = ai_tasks s2;
            s3 = s2\<lparr>ai_tasks := []\<rparr>;
            es = schedule (ai_cmds s3 @ late)
        in case await_all now (map2 (task_end tls s3) envs tasks) of
             None \<Rightarrow> (None, s3)
           | Some t \<Rightarrow>
               let s4 = s3\<lparr>ai_joinable := False\<rparr>
               in if ai_joinable s3 \<and> ai_running s3
                  then (map_option (max t) (run_end es),
                        s4\<lparr>ai_broker := a_run es (ai_broker s4), ai_cmds := [], ai_running := False\<rparr>)
                  else (Some t, s4))"


section \<open>The asynchronous socket refines the synchronous one\<close>

fun err_of :: "a_error \<Rightarrow> error" where
  "err_of (AIo e) = Io e"
| "err_of AClosed = Closed"
| "err_of AInvalidServerName = InvalidServerName"

fun acceptor_of :: "'srv a_acceptor \<Rightarrow> 'srv acceptor" where
  "acceptor_of AAcceptPlain = AcceptPlain"
| "acceptor_of (AAcceptTls cfg) = AcceptTls cfg"

fun connector_of :: "('cli, 'name) a_connector \<Rightarrow> ('cli, 'name) connector" where
  "connector_of AConnectPlain = ConnectPlain"
| "connector_of (AConnectTls cfg name) = ConnectTls cfg name"

fun thread_of :: "('srv, 'cli, 'name, 'addr) a_task \<Rightarrow> ('srv, 'cli, 'name, 'addr) thread" where
  "thread_of (AAcceptTask addr a) = AcceptLoop addr (acceptor_of a)"
| "thread_of (AConnectTask addr c) = ConnectLoop addr (connector_of c)"

text \<open>There is no registry of sockets: the asynchronous connections watch the signal themselves.\<close>

definition sock_of :: "('srv, 'cli, 'name, 'addr) a_inner \<Rightarrow> ('srv, 'cli, 'name, 'addr) inner" where
  "sock_of s =
     \<lparr>in_identity = ai_identity s, in_reconnect_delay = ai_reconnect_delay s, in_cmds = map cmd (ai_cmds s),
      in_broker = sync_of (ai_broker s), in_running = ai_running s, in_shutdown = (ai_close s \<noteq> None),
      in_registry = registry_new, in_threads = map thread_of (ai_tasks s), in_joinable = ai_joinable s,
      in_closed = ai_closed s\<rparr>"

text \<open>The same state, apart from the timers of the broker and the registry; an open socket has the handle of
  its broker.\<close>

definition sock_sim :: "('srv, 'cli, 'name, 'addr) a_inner \<Rightarrow> ('srv, 'cli, 'name, 'addr) inner \<Rightarrow> bool" where
  "sock_sim a s \<longleftrightarrow> sock_of a = s\<lparr>in_broker := untimed (in_broker s), in_registry := registry_new\<rparr> \<and>
     (ai_closed a \<or> ai_joinable a)"

fun sim_result :: "'a a_result \<times> ('srv, 'cli, 'name, 'addr) a_inner \<Rightarrow> 'a result \<times> ('srv, 'cli, 'name, 'addr) inner \<Rightarrow> bool" where
  "sim_result (r, a) (r', s) \<longleftrightarrow> map_sum err_of id r = r' \<and> sock_sim a s"

lemma sock_sim_iff:
  "sock_sim a s \<longleftrightarrow> in_identity s = ai_identity a \<and> in_reconnect_delay s = ai_reconnect_delay a \<and>
     in_cmds s = map cmd (ai_cmds a) \<and> sim (ai_broker a) (in_broker s) \<and> in_running s = ai_running a \<and>
     in_shutdown s = (ai_close a \<noteq> None) \<and> in_threads s = map thread_of (ai_tasks a) \<and>
     in_joinable s = ai_joinable a \<and> in_closed s = ai_closed a \<and> (ai_closed a \<or> ai_joinable a)"
  by (cases s) (auto simp: sock_sim_def sock_of_def sim_def)

definition builder_of :: "a_socket_builder \<Rightarrow> socket_builder" where
  "builder_of b = \<lparr>sb_send_mode = asb_send_mode b, sb_delivery = asb_delivery b, sb_identity = asb_identity b,
     sb_reconnect_delay = asb_reconnect_delay b\<rparr>"

lemma sim_build: "sock_sim (a_build i u b) (build i u (builder_of b))"
  by (simp add: sock_sim_iff a_build_def build_def builder_of_def sim_iff a_broker_new_def broker_new_def)

lemma sim_new: "sock_sim (a_socket_new i u) (socket_new i u)"
  using sim_build [of i u a_builder] by (simp add: a_socket_new_def socket_new_def builder_of_def a_builder_def builder_def)

lemma sim_identity: "sock_sim a s \<Longrightarrow> a_sock_identity a = sock_identity s"
  by (simp add: sock_sim_iff a_sock_identity_def sock_identity_def)

lemma sim_bind:
  assumes "sock_sim a s"
  shows "sim_result (a_bind l loc a) (bind l loc s)"
    and "sim_result (a_bind_tls l loc cfg a) (bind_tls l loc cfg s)"
  using assms
  by (auto simp: a_bind_def a_bind_tls_def bind_def bind_tls_def bind_with_def spawn_accept_def sock_sim_iff split: sum.split)

lemma sim_spawn_connect:
  "sock_sim a s \<Longrightarrow> sim_result (spawn_connect addr c a) (connect_with (Inr (addr # addrs)) (connector_of c) s)"
  by (auto simp: spawn_connect_def connect_with_def sock_sim_iff)

lemma sim_connect:
  assumes "sock_sim a s"
  shows "sim_result (a_connect addr a) (connect (Inr (addr # addrs)) s)"
    and "sim_result (a_connect_tls parse addr name cfg a) (connect_tls parse (Inr (addr # addrs)) name cfg s)"
  using sim_spawn_connect [OF assms, of addr AConnectPlain addrs] sim_spawn_connect [OF assms, of addr "AConnectTls cfg x" addrs for x]
    assms
  by (auto simp: a_connect_def connect_def a_connect_tls_def connect_tls_def split: option.split)

lemma sim_dispatch: "sock_sim a s \<Longrightarrow> sim_result (a_sock_dispatch target p a) (dispatch target p s)"
  by (auto simp: a_sock_dispatch_def dispatch_def a_sock_command_def sock_command_def sock_sim_iff)

lemma a_recv_same: "a_recv_identity = recv_identity" "a_recv = recv"
  by (auto simp: fun_eq_iff a_recv_identity_def recv_identity_def a_recv_def recv_def)

lemma a_streams_all:
  assumes "rx_gone r = Some g"
  shows "a_identity_messages now r got = identity_messages now r got" and "a_messages now r ps = messages now r ps"
  using assms
proof (induction "rx_items r" arbitrary: r now got ps)
  case Nil
  {
    case 1
    with Nil show ?case
      by (subst a_identity_messages.simps, subst identity_messages.simps) (simp add: a_recv_same recv_identity_def Let_def)
  next
    case 2
    with Nil show ?case
      by (subst a_messages.simps, subst messages.simps) (simp add: a_recv_same recv_def recv_identity_def Let_def)
  }
next
  case (Cons x xs)
  obtain t m where x: "x = (t, m)" by (rule prod.exhaust)
  {
    case 1
    let ?t = "max (max now (rx_free r)) t" let ?r = "r\<lparr>rx_items := xs, rx_free := ?t\<rparr>"
    from 1 have "a_identity_messages ?t ?r (got @ [m]) = identity_messages ?t ?r (got @ [m])"
      using Cons.hyps(1) [of ?r] by simp
    then show ?case using Cons.hyps(3) [symmetric] x
      by (subst a_identity_messages.simps, subst identity_messages.simps) (simp add: a_recv_same recv_identity_def Let_def)
  next
    case 2
    let ?t = "max (max now (rx_free r)) t" let ?r = "r\<lparr>rx_items := xs, rx_free := ?t\<rparr>"
    from 2 have "a_messages ?t ?r (ps @ [snd m]) = messages ?t ?r (ps @ [snd m])"
      using Cons.hyps(2) [of ?r] by simp
    then show ?case using Cons.hyps(3) [symmetric] x
      by (subst a_messages.simps, subst messages.simps) (simp add: a_recv_same recv_def recv_identity_def Let_def)
  }
qed


section \<open>The broker's task until the socket closes\<close>

definition commands_of :: "(nat \<times> a_event) list \<Rightarrow> a_command list" where
  "commands_of es = List.map_filter (\<lambda>(t, e). case e of ACmd c \<Rightarrow> Some c | ADeadline _ \<Rightarrow> None) es"

lemma commands_of_simps [simp]:
  "commands_of [] = []"
  "commands_of ((t, ACmd c) # es) = c # commands_of es"
  "commands_of ((t, ADeadline lag) # es) = commands_of es"
  by (simp_all add: commands_of_def List.map_filter_def)

definition is_timeout :: "command \<Rightarrow> bool" where
  "is_timeout c \<longleftrightarrow> (\<exists>m. c = ResendTimeout m)"

lemma cmd_not_timeout [simp]: "\<not> is_timeout (cmd c)" "cmd c = Close \<longleftrightarrow> c = AClose" "Close = cmd c \<longleftrightarrow> c = AClose"
  by (cases c; simp add: is_timeout_def)+

lemma fold_timeouts: "fold handle_command (map ResendTimeout ms) b = fold handle_resend ms b"
  by (simp add: fold_map comp_def handle_command_def [abs_def])

text \<open>It handles the commands before the \<open>Close\<close> as the synchronous broker does, with timeouts between them.\<close>

lemma sim_run:
  assumes "sim a b" and "commands_of es = cs @ AClose # late" and "AClose \<notin> set cs"
  shows "\<exists>cs'. filter (\<lambda>c. \<not> is_timeout c) cs' = map cmd cs \<and> Close \<notin> set cs' \<and>
    sim (a_run es a) (fold handle_command cs' b)"
  using assms
proof (induction es arbitrary: a b cs)
  case Nil
  then show ?case by simp
next
  case (Cons x es)
  obtain t e where x: "x = (t, e)" by (rule prod.exhaust)
  show ?case
  proof (cases e)
    case (ADeadline lag)
    let ?ms = "due_ids t a"
    have "commands_of es = cs @ AClose # late" using Cons.prems(2) x ADeadline by simp
    from Cons.IH [OF sim_fire_due [OF Cons.prems(1)] this Cons.prems(3), of t lag]
    obtain cs' where "filter (\<lambda>c. \<not> is_timeout c) cs' = map cmd cs" "Close \<notin> set cs'"
        "sim (a_run es (a_fire_due_resends t lag a)) (fold handle_command cs' (fold handle_resend ?ms b))"
      by blast
    with x ADeadline show ?thesis
      by (intro exI [of _ "map ResendTimeout ?ms @ cs'"]) (auto simp: is_timeout_def fold_timeouts)
  next
    case (ACmd c)
    show ?thesis
    proof (cases "c = AClose")
      case True
      with Cons.prems(2,3) x ACmd have "cs = []" by (cases cs) auto
      with True Cons.prems(1) x ACmd show ?thesis by (intro exI [of _ "[]"]) simp
    next
      case False
      with Cons.prems(2) x ACmd obtain cs1 where c: "cs = c # cs1" "commands_of es = cs1 @ AClose # late"
        by (cases cs) auto
      from Cons.IH [OF sim_command [OF Cons.prems(1)] c(2), of t c] Cons.prems(3) c(1)
      obtain cs' where "filter (\<lambda>c. \<not> is_timeout c) cs' = map cmd cs1" "Close \<notin> set cs'"
          "sim (a_run es (a_handle_command t c a)) (fold handle_command cs' (handle_command (cmd c) b))"
        by auto
      with x ACmd False c(1) show ?thesis by (intro exI [of _ "cmd c # cs'"]) auto
    qed
  qed
qed

lemma run_end_some:
  "commands_of es = cs @ AClose # late \<Longrightarrow> AClose \<notin> set cs \<Longrightarrow> \<exists>t. run_end es = Some t"
proof (induction es arbitrary: cs)
  case (Cons x es)
  then show ?case by (cases x; cases "snd x"; cases cs) auto
qed simp


section \<open>The tasks end with the signal\<close>

lemma await_all_some:
  "list_all (\<lambda>t. t \<noteq> None) ts \<Longrightarrow>
   \<exists>t. await_all now ts = Some t \<and> now \<le> t \<and> (\<forall>u. Some u \<in> set ts \<longrightarrow> u \<le> t)"
proof (induction ts arbitrary: now)
  case (Cons x ts)
  then obtain u where "x = Some u" by auto
  with Cons.IH [of "max now u"] Cons.prems show ?case by auto
qed simp

text \<open>The environments of tasks that the signal at \<open>now\<close> can end: started before, and with peers that
  answer or close in the end.\<close>

fun ending_task :: "nat \<Rightarrow> a_task_env \<Rightarrow> ('srv, 'cli, 'name, 'addr) a_task \<Rightarrow> bool" where
  "ending_task now te (AAcceptTask addr a) \<longleftrightarrow> True"
| "ending_task now te (AConnectTask addr c) \<longleftrightarrow> c = AConnectPlain \<and> reachable_peers (te_attempts te)"

lemma accept_loop_ends: "\<exists>u \<ge> T. snd (a_accept_loop (Some T) pick i now as) = Some u"
  by (induction "Some T :: shutdown_flag" pick i now as rule: a_accept_loop.induct)
    (auto simp: shutdown_recv_def is_shutdown_def split: sum.split prod.split)

lemma task_end_some:
  assumes "ending_task now te task" and "ai_close s = Some now" and "\<And>i. 0 < ai_reconnect_delay s i"
  shows "\<exists>u. task_end tls s te task = Some u"
proof (cases task)
  case (AAcceptTask addr a)
  from accept_loop_ends [of now "te_pick te" 0 "te_start te" "te_arrivals te"] AAcceptTask assms(2) show ?thesis
    by (auto simp: task_end_def)
next
  case (AConnectTask addr c)
  with assms connect_loop_from [where delay = "ai_reconnect_delay s" and attempts = "te_attempts te" and T = now and tls = tls
      and me = "ai_identity s" and i = 0 and k = "te_link te" and now = "te_start te"] show ?thesis
    by (auto simp: task_end_def)
qed

lemma tasks_end:
  assumes "list_all2 (ending_task now) envs tasks" and "ai_close s = Some now" and "\<And>i. 0 < ai_reconnect_delay s i"
  shows "list_all (\<lambda>t. t \<noteq> None) (map2 (task_end tls s) envs tasks)"
  using assms(1) by (induction rule: list_all2_induct) (use task_end_some [OF _ assms(2,3)] in auto)

lemma task_end_cong:
  "ai_close s = ai_close s' \<Longrightarrow> ai_identity s = ai_identity s' \<Longrightarrow> ai_reconnect_delay s = ai_reconnect_delay s' \<Longrightarrow>
   task_end tls s = task_end tls s'"
  by (intro ext) (simp add: task_end_def split: a_task.split)


section \<open>Closing both\<close>

lemma sim_self [simp]: "sim a (sync_of a)"
  by (simp add: sim_iff)

lemma filter_cmds [simp]: "filter (\<lambda>c. \<not> is_timeout c) (map cmd cs) = map cmd cs"
  by (induction cs) auto

lemma sim_close:
  assumes "sock_sim a s" and "\<And>cs. commands_of (schedule cs) = cs" and "AClose \<notin> set (ai_cmds a)"
  shows "\<forall>t a'. a_close tls envs schedule late now a = (Some t, a') \<longrightarrow>
    (\<exists>cs. filter (\<lambda>c. \<not> is_timeout c) cs = in_cmds s \<and>
      sock_sim a' (snd (close (map cmd late) leave (s\<lparr>in_cmds := cs\<rparr>))))"
proof (intro allI impI)
  fix t a' assume c: "a_close tls envs schedule late now a = (Some t, a')"
  have s: "in_cmds s = map cmd (ai_cmds a)" "sim (ai_broker a) (in_broker s)"
    using assms(1) by (simp_all add: sock_sim_iff)
  show "\<exists>cs. filter (\<lambda>c. \<not> is_timeout c) cs = in_cmds s \<and> sock_sim a' (snd (close (map cmd late) leave (s\<lparr>in_cmds := cs\<rparr>)))"
  proof (cases "\<not> ai_closed a \<and> ai_running a \<and> ai_joinable a")
    case True
    from sim_run [OF s(2) assms(2) assms(3)] obtain cs where
      cs: "filter (\<lambda>c. \<not> is_timeout c) cs = in_cmds s" "Close \<notin> set cs"
        "sim (a_run (schedule (ai_cmds a @ AClose # late)) (ai_broker a)) (fold handle_command cs (in_broker s))"
      using s(1) by auto
    with c True assms(1) show ?thesis
      by (intro exI [of _ cs])
        (auto simp: a_close_def close_def close_swap_def close_flag_def close_send_def close_take_def a_sock_command_def
          sock_command_def sock_sim_iff Let_def run_close sim_iff split: option.splits)
  next
    case False
    with c assms(1) show ?thesis
      by (intro exI [of _ "in_cmds s"])
        (auto simp: a_close_def close_def close_swap_def close_flag_def close_send_def close_take_def a_sock_command_def
          sock_command_def sock_sim_iff Let_def split: option.splits if_splits)
  qed
qed


text \<open>The call waits for every task, then for the broker.\<close>

lemma close_waits:
  assumes "\<not> ai_closed s" and "ai_running s" and "ai_joinable s" and "AClose \<notin> set (ai_cmds s)"
    and "\<And>i. 0 < ai_reconnect_delay s i" and "list_all2 (ending_task now) envs (ai_tasks s)"
    and "\<And>cs. commands_of (schedule cs) = cs"
    and "s' = s\<lparr>ai_closed := True, ai_close := Some now, ai_tasks := [], ai_joinable := False,
      ai_broker := a_run (schedule (ai_cmds s @ AClose # late)) (ai_broker s), ai_cmds := [], ai_running := False\<rparr>"
  shows "\<exists>t. a_close tls envs schedule late now s = (Some t, s') \<and> now \<le> t \<and>
    (\<forall>(te, task) \<in> set (zip envs (ai_tasks s)). \<exists>u. task_end tls s' te task = Some u \<and> u \<le> t)"
proof -
  let ?s = "s\<lparr>ai_closed := True, ai_close := Some now, ai_cmds := ai_cmds s @ [AClose], ai_tasks := []\<rparr>"
  obtain v where v: "run_end (schedule (ai_cmds s @ AClose # late)) = Some v" using run_end_some assms(4,7) by blast
  have ends: "list_all (\<lambda>t. t \<noteq> None) (map2 (task_end tls ?s) envs (ai_tasks s))"
    using assms(5,6) by (intro tasks_end [of now]) simp_all
  from await_all_some [OF this, of now] obtain t where
    t: "await_all now (map2 (task_end tls ?s) envs (ai_tasks s)) = Some t" "now \<le> t"
      "\<forall>u. Some u \<in> set (map2 (task_end tls ?s) envs (ai_tasks s)) \<longrightarrow> u \<le> t" by blast
  have same: "task_end tls s' = task_end tls ?s" using assms(8) by (intro task_end_cong) simp_all
  have "a_close tls envs schedule late now s = (Some (max t v), s')"
    using assms(1-3,8) t(1) v by (simp add: a_close_def a_sock_command_def)
  moreover have "\<exists>u. task_end tls s' te task = Some u \<and> u \<le> max t v" if "(te, task) \<in> set (zip envs (ai_tasks s))" for te task
  proof -
    have m: "task_end tls ?s te task \<in> set (map2 (task_end tls ?s) envs (ai_tasks s))"
      using that by (auto intro!: image_eqI [of _ _ "(te, task)"])
    with ends obtain u where "task_end tls ?s te task = Some u" by (auto simp only: list_all_iff)
    with m t(3) same show ?thesis by (metis max.coboundedI1)
  qed
  ultimately show ?thesis using t(2) by (intro exI [of _ "max t v"]) auto
qed


section \<open>Properties\<close>


text \<open>C37. \<open>close\<close> of the asynchronous socket returns, whatever its accept and connect loops are doing, as long
  as the peers of the outgoing connections answer or close in the end, and when it returns every
  one of these tasks has ended and the broker has handled exactly the commands sent before, with
  timeouts between them.  Afterwards sending and connecting report that the socket is closed and
  change nothing, a second call returns at once, and only \<open>bind\<close> still succeeds.\<close>

theorem async_close_returns:
  assumes "\<not> ai_closed s" and "ai_running s" and "ai_joinable s" and "AClose \<notin> set (ai_cmds s)"
    and "\<And>i. 0 < ai_reconnect_delay s i" and "list_all2 (ending_task now) envs (ai_tasks s)"
    and "\<And>cs. commands_of (schedule cs) = cs"
  shows "\<exists>t s'. a_close tls envs schedule late now s = (Some t, s') \<and> now \<le> t \<and>
    (\<forall>(te, task) \<in> set (zip envs (ai_tasks s)). \<exists>u. task_end tls s' te task = Some u \<and> u \<le> t) \<and>
    (\<exists>cs. filter (\<lambda>c. \<not> is_timeout c) cs = map cmd (ai_cmds s) \<and>
      sim (ai_broker s') (fold handle_command cs (sync_of (ai_broker s)))) \<and>
    a_send p s' = (Inl AClosed, s') \<and> a_connect addr s' = (Inl AClosed, s') \<and>
    a_close tls envs' schedule' late' t s' = (Some t, s') \<and> fst (a_bind (Inr l) (Inr loc) s') = Inr loc"
proof -
  let ?s' = "s\<lparr>ai_closed := True, ai_close := Some now, ai_tasks := [], ai_joinable := False,
    ai_broker := a_run (schedule (ai_cmds s @ AClose # late)) (ai_broker s), ai_cmds := [], ai_running := False\<rparr>"
  obtain t where "a_close tls envs schedule late now s = (Some t, ?s')" "now \<le> t"
      "\<forall>(te, task) \<in> set (zip envs (ai_tasks s)). \<exists>u. task_end tls ?s' te task = Some u \<and> u \<le> t"
    using close_waits [OF assms refl] by blast
  moreover from sim_run [OF sim_self assms(7) assms(4)] obtain cs where
    "filter (\<lambda>c. \<not> is_timeout c) cs = map cmd (ai_cmds s)"
    "sim (ai_broker ?s') (fold handle_command cs (sync_of (ai_broker s)))" by auto
  ultimately show ?thesis
    by (intro exI [of _ t] exI [of _ ?s'])
      (auto simp: a_send_def a_sock_dispatch_def a_sock_command_def a_connect_def spawn_connect_def a_close_def a_bind_def)
qed


text \<open>A socket that has sent a message, is bound and connects to a peer.\<close>

definition a_demo_sock :: "(unit, unit, unit, nat) a_inner" where
  "a_demo_sock = snd (a_connect 7 (snd (a_bind (Inr 5) (Inr 5) (snd (a_send [1] (a_build (replicate 16 1) (replicate 16 9) a_builder))))))"

definition demo_sock :: "(unit, unit, unit, nat) inner" where
  "demo_sock = snd (connect (Inr [7]) (snd (bind (Inr 5) (Inr 5) (snd (send [1] (build (replicate 16 1) (replicate 16 9) builder))))))"

definition at_once :: "a_command list \<Rightarrow> (nat \<times> a_event) list" where
  "at_once cs = map (\<lambda>c. (0, ACmd c)) cs"

lemma at_once_commands [simp]: "commands_of (at_once cs) = cs"
  by (induction cs) (simp_all add: at_once_def)

lemmas sock_ops = a_connect_def spawn_connect_def a_bind_def spawn_accept_def a_send_def a_sock_dispatch_def a_sock_command_def
  a_build_def a_builder_def connect_def connect_with_def bind_def bind_with_def send_def dispatch_def sock_command_def
  build_def builder_def


theorem async_close_returns_witness:
  "\<exists>t s'. a_close a_demo_tls (replicate 2 \<lparr>te_start = 0, te_pick = \<lambda>_. True, te_arrivals = [(60, Inr a_demo_conn)],
      te_attempts = a_demo_attempt, te_link = ac_link a_demo_conn\<rparr>) at_once [] 30 a_demo_sock = (Some t, s') \<and> 30 \<le> t \<and>
    a_send [3] s' = (Inl AClosed, s') \<and> a_connect 8 s' = (Inl AClosed, s')"
proof -
  let ?te = "\<lparr>te_start = 0, te_pick = \<lambda>_. True, te_arrivals = [(60, Inr a_demo_conn)],
      te_attempts = a_demo_attempt, te_link = ac_link a_demo_conn\<rparr>"
  have "\<not> ai_closed a_demo_sock" "ai_running a_demo_sock" "ai_joinable a_demo_sock" "AClose \<notin> set (ai_cmds a_demo_sock)"
    "\<And>i. 0 < ai_reconnect_delay a_demo_sock i" "list_all2 (ending_task 30) (replicate 2 ?te) (ai_tasks a_demo_sock)"
    by (simp_all add: a_demo_sock_def sock_ops a_demo_reachable numeral_2_eq_2)
  from async_close_returns [OF this at_once_commands, of a_demo_tls "[]" "[3]" 8 "[]" at_once "[]"] show ?thesis by blast
qed

end
