(* ===== verification/Async_Agent.thy ===== *)
theory Async_Agent
  imports Agent Async_Socket
begin

text \<open>
  The conformance agent of the asynchronous crate (\<open>rust-lib-async/examples/conformance_agent.rs\<close>, with the
  \<open>tls\<close> feature).  It has the flags and behaviours of the synchronous agent, but wants the address of its
  peer as an IP address and a port, wants the flags for TLS files to be given, and ends at the first
  call that fails.
\<close>

record ('srv, 'cli, 'name, 'addr) a_agent_os = "('srv, 'cli, 'name, 'addr) agent_os" +
  os_runtime :: bool                      \<comment> \<open>whether tokio's runtime starts\<close>
  os_addr :: "bytes \<Rightarrow> 'addr option"      \<comment> \<open>parsing a \<open>SocketAddr\<close>\<close>

definition a_agent_bind_tls :: "('srv, 'cli, 'name, 'addr) a_agent_os \<Rightarrow> bytes \<Rightarrow> (bytes, bytes) hmap \<Rightarrow>
    ('srv, 'cli, 'name, 'addr) a_inner \<Rightarrow> (unit a_result \<times> ('srv, 'cli, 'name, 'addr) a_inner) option" where
  "a_agent_bind_tls os addr args s =
     (case hm_get args (ascii ''tls-cert'') of
        None \<Rightarrow> None
      | Some cert \<Rightarrow>
          (case hm_get args (ascii ''tls-key'') of
             None \<Rightarrow> None
           | Some key \<Rightarrow>
               (case os_server_config os cert key of
                  None \<Rightarrow> None
                | Some cfg \<Rightarrow>
                    (case a_bind_tls (os_listen os addr) (os_local os addr) cfg s of
                       (Inl e, s') \<Rightarrow> Some (Inl e, s')
                     | (Inr _, s') \<Rightarrow> Some (Inr (), s')))))"

definition a_agent_connect_tls :: "('srv, 'cli, 'name, 'addr) a_agent_os \<Rightarrow> 'addr \<Rightarrow> bytes \<Rightarrow> (bytes, bytes) hmap \<Rightarrow>
    ('srv, 'cli, 'name, 'addr) a_inner \<Rightarrow> (unit a_result \<times> ('srv, 'cli, 'name, 'addr) a_inner) option" where
  "a_agent_connect_tls os addr host args s =
     (case hm_get args (ascii ''tls-ca'') of
        None \<Rightarrow> None
      | Some ca \<Rightarrow>
          (let name = (case hm_get args (ascii ''tls-server-name'') of Some n \<Rightarrow> n | None \<Rightarrow> host)
           in case os_client_config os ca of
                None \<Rightarrow> None
              | Some cfg \<Rightarrow> Some (a_connect_tls (os_server_name os) addr (text_of name) cfg s)))"

definition a_agent_socket :: "identity \<Rightarrow> bytes \<Rightarrow> agent_config \<Rightarrow> ('srv, 'cli, 'name, 'addr) a_inner" where
  "a_agent_socket fresh_id uuid c =
     (let b = a_set_delivery_guarantee (ag_delivery c) (a_set_send_mode (ag_send_mode c) a_builder);
          b' = (case ag_identity c of Some i \<Rightarrow> a_set_identity i b | None \<Rightarrow> b)
      in a_build fresh_id uuid b')"

definition a_agent_open :: "('srv, 'cli, 'name, 'addr) a_agent_os \<Rightarrow> (bytes, bytes) hmap \<Rightarrow> agent_config \<Rightarrow>
    ('srv, 'cli, 'name, 'addr) a_inner \<Rightarrow> (unit a_result \<times> ('srv, 'cli, 'name, 'addr) a_inner) option" where
  "a_agent_open os args c s =
     (let at = agent_addr c
      in case os_addr os at of
           None \<Rightarrow> None
         | Some addr \<Rightarrow>
             if ag_role c = ascii ''bind'' then
               if ag_tls c then a_agent_bind_tls os at args s
               else (case a_bind (os_listen os at) (os_local os at) s of
                       (Inl e, s') \<Rightarrow> Some (Inl e, s')
                     | (Inr _, s') \<Rightarrow> Some (Inr (), s'))
             else if ag_tls c then a_agent_connect_tls os addr (ag_host c) args s
             else Some (a_connect addr s))"


section \<open>The behaviours\<close>

fun a_source_loop :: "(nat \<Rightarrow> ('srv, 'cli, 'name, 'addr) a_inner \<Rightarrow> ('srv, 'cli, 'name, 'addr) a_inner) \<Rightarrow> bytes \<Rightarrow> nat list \<Rightarrow>
    ('srv, 'cli, 'name, 'addr) a_inner \<Rightarrow> unit a_result \<times> ('srv, 'cli, 'name, 'addr) a_inner" where
  "a_source_loop world pre [] s = (Inr (), s)"
| "a_source_loop world pre (i # is) s =
     (case a_send (message pre i) s of
        (Inl e, s') \<Rightarrow> (Inl e, s')
      | (Inr _, s') \<Rightarrow> a_source_loop world pre is (world i s'))"

fun a_echo_loop :: "(nat \<Rightarrow> ('srv, 'cli, 'name, 'addr) a_inner \<Rightarrow> ('srv, 'cli, 'name, 'addr) a_inner) \<Rightarrow> nat \<Rightarrow> nat \<Rightarrow> recv_rx \<Rightarrow>
    ('srv, 'cli, 'name, 'addr) a_inner \<Rightarrow> (nat a_result \<times> ('srv, 'cli, 'name, 'addr) a_inner) option" where
  "a_echo_loop world 0 t0 r s = Some (Inr t0, s)"
| "a_echo_loop world (Suc n) t0 r s =
     (case a_recv_identity t0 r of
        None \<Rightarrow> None
      | Some (Some (i, msg), t, r') \<Rightarrow>
          (case a_send_to i msg s of
             (Inl e, s') \<Rightarrow> Some (Inl e, s')
           | (Inr _, s') \<Rightarrow> a_echo_loop world n t r' (world n s'))
      | Some (None, t, r') \<Rightarrow> a_echo_loop world n t r' s)"

fun a_sink_loop :: "nat \<Rightarrow> nat \<Rightarrow> recv_rx \<Rightarrow> bytes \<Rightarrow> (nat \<times> bytes) option" where
  "a_sink_loop 0 t0 r stdout = Some (t0, stdout)"
| "a_sink_loop (Suc n) t0 r stdout =
     (case a_recv t0 r of
        None \<Rightarrow> None
      | Some (Some msg, t, r') \<Rightarrow> a_sink_loop n t r' (stdout @ msg @ [10])
      | Some (None, t, r') \<Rightarrow> Some (t, stdout))"

text \<open>How a behaviour ends: it is done at a time, an operation failed, or the pause panicked.\<close>

datatype a_done = Finished nat bytes | Failed a_error | Panicked

definition a_rest :: "('srv, 'cli, 'name, 'addr) a_agent_os \<Rightarrow> agent_config \<Rightarrow> nat \<Rightarrow> a_done" where
  "a_rest os c t = (case os_pause os (ag_linger c) of None \<Rightarrow> Panicked | Some pause \<Rightarrow> Finished (t + pause) [])"

definition a_agent_behave :: "('srv, 'cli, 'name, 'addr) a_agent_os \<Rightarrow>
    (nat \<Rightarrow> ('srv, 'cli, 'name, 'addr) a_inner \<Rightarrow> ('srv, 'cli, 'name, 'addr) a_inner) \<Rightarrow> agent_config \<Rightarrow>
    nat \<Rightarrow> recv_rx \<Rightarrow> ('srv, 'cli, 'name, 'addr) a_inner \<Rightarrow> (a_done \<times> ('srv, 'cli, 'name, 'addr) a_inner) option" where
  "a_agent_behave os world c t0 r s =
     (let count = unat (ag_count c)
      in if ag_behavior c = ascii ''source'' then
           (case a_source_loop world (ag_prefix c) [0..<count] s of
              (Inl e, s') \<Rightarrow> Some (Failed e, s')
            | (Inr _, s') \<Rightarrow> Some (a_rest os c t0, s'))
         else if ag_behavior c = ascii ''echo'' then
           (case a_echo_loop world count t0 r s of
              None \<Rightarrow> None
            | Some (Inl e, s') \<Rightarrow> Some (Failed e, s')
            | Some (Inr t, s') \<Rightarrow> Some (a_rest os c t, s'))
         else map_option (\<lambda>(t, stdout). (Finished t stdout, s)) (a_sink_loop count t0 r []))"

text \<open>The whole program; \<open>envs\<close>, \<open>schedule\<close> and \<open>late\<close> as for \<open>close\<close>.  An error that \<open>main\<close> returns is
  exit code 1.\<close>

definition a_agent_main :: "('srv, 'cli, 'name, 'addr) a_agent_os \<Rightarrow>
    (nat \<Rightarrow> ('srv, 'cli, 'name, 'addr) a_inner \<Rightarrow> ('srv, 'cli, 'name, 'addr) a_inner) \<Rightarrow>
    ('srv, 'cli, 'name) a_tls \<Rightarrow> a_task_env list \<Rightarrow> (a_command list \<Rightarrow> (nat \<times> a_event) list) \<Rightarrow> a_command list \<Rightarrow>
    identity \<Rightarrow> bytes \<Rightarrow> nat \<Rightarrow> recv_rx \<Rightarrow> bytes list \<Rightarrow> (agent_end \<times> bytes) option" where
  "a_agent_main os world tls envs schedule late fresh_id uuid t0 r argv =
     (let args = parse_args argv; c = a_agent_config_of args
      in if \<not> os_runtime os then Some (Exit 1, [])
         else case a_agent_open os args c (a_agent_socket fresh_id uuid c) of
                None \<Rightarrow> Some (Panic, [])
              | Some (Inl e, s) \<Rightarrow> Some (Exit 1, [])
              | Some (Inr _, s) \<Rightarrow>
                  (case a_agent_behave os world c t0 r s of
                     None \<Rightarrow> None
                   | Some (Panicked, s') \<Rightarrow> Some (Panic, [])
                   | Some (Failed e, s') \<Rightarrow> Some (Exit 1, [])
                   | Some (Finished t stdout, s') \<Rightarrow>
                       (case a_close tls envs schedule late t s' of
                          (None, _) \<Rightarrow> None
                        | (Some _, _) \<Rightarrow> Some (Exit 0, stdout))))"


section \<open>The two agents agree\<close>

text \<open>Open sockets in corresponding states, with these tasks and a broker that runs and was not told to stop.\<close>

definition same_open :: "('srv, 'cli, 'name, 'addr) a_task list \<Rightarrow> ('srv, 'cli, 'name, 'addr) a_inner \<Rightarrow> ('srv, 'cli, 'name, 'addr) inner \<Rightarrow> bool" where
  "same_open tasks a s \<longleftrightarrow> sock_sim a s \<and> ai_tasks a = tasks \<and> ai_running a \<and> \<not> ai_closed a \<and> AClose \<notin> set (ai_cmds a) \<and> (\<forall>i. 0 < ai_reconnect_delay a i)"

text \<open>The broker's task takes the next command.\<close>

definition a_broker_turn :: "nat \<Rightarrow> ('srv, 'cli, 'name, 'addr) a_inner \<Rightarrow> ('srv, 'cli, 'name, 'addr) a_inner" where
  "a_broker_turn t s =
     (if \<not> ai_running s then s
      else case ai_cmds s of
             [] \<Rightarrow> s
           | c # cs \<Rightarrow>
               if c = AClose then s\<lparr>ai_running := False, ai_cmds := []\<rparr>
               else s\<lparr>ai_cmds := cs, ai_broker := a_handle_command t c (ai_broker s)\<rparr>)"

lemma same_open_turn: "same_open tasks a s \<Longrightarrow> same_open tasks (a_broker_turn t a) (broker_turn s)"
  by (cases "ai_cmds a") (auto simp: same_open_def a_broker_turn_def broker_turn_def sock_sim_iff sim_command)

lemma same_open_dispatch:
  assumes "same_open tasks a s"
  shows "fst (a_sock_dispatch target p a) = Inr () \<and> same_open tasks (snd (a_sock_dispatch target p a)) (snd (dispatch target p s))"
  using assms sim_dispatch [of a s target p]
  by (auto simp: same_open_def a_sock_dispatch_def a_sock_command_def dispatch_def sock_command_def sock_sim_iff)

lemma a_source_same:
  assumes "\<And>i a s. same_open tasks a s \<Longrightarrow> same_open tasks (aenv i a) (world i s)" and "same_open tasks a s"
  shows "fst (a_source_loop aenv pre ns a) = Inr () \<and>
    same_open tasks (snd (a_source_loop aenv pre ns a)) (source_loop world pre ns s)"
  using assms(2)
proof (induction ns arbitrary: a s)
  case (Cons i ns)
  obtain x a' where a': "a_send (message pre i) a = (x, a')" by fastforce
  with same_open_dispatch [OF Cons.prems, of None "message pre i"]
  have "x = Inr ()" "same_open tasks a' (snd (send (message pre i) s))" by (simp_all add: a_send_def send_def)
  with a' Cons.IH [OF assms(1)] show ?case by simp
qed simp

lemma a_echo_same:
  assumes "\<And>i a s. same_open tasks a s \<Longrightarrow> same_open tasks (aenv i a) (world i s)" and "same_open tasks a s"
  shows "case echo_loop world n t0 r s of
      None \<Rightarrow> a_echo_loop aenv n t0 r a = None
    | Some (t, r', s') \<Rightarrow> \<exists>a'. a_echo_loop aenv n t0 r a = Some (Inr t, a') \<and> same_open tasks a' s'"
  using assms(2)
proof (induction n arbitrary: t0 r a s)
  case (Suc n)
  show ?case
  proof (cases "recv_identity t0 r")
    case None
    then show ?thesis by (simp add: a_recv_same)
  next
    case (Some y)
    obtain m t r' where y: "y = (m, t, r')" by (cases y)
    show ?thesis
    proof (cases m)
      case None
      with Some y have "a_echo_loop aenv (Suc n) t0 r a = a_echo_loop aenv n t r' a"
        "echo_loop world (Suc n) t0 r s = echo_loop world n t r' s" by (simp_all add: a_recv_same)
      with Suc.IH [OF Suc.prems, of t r'] show ?thesis by (simp only:)
    next
      case (Some q)
      obtain i p where q: "q = (i, p)" by (rule prod.exhaust)
      obtain x a' where a': "a_send_to i p a = (x, a')" by fastforce
      with same_open_dispatch [OF Suc.prems, of "Some i" p]
      have "x = Inr ()" "same_open tasks a' (snd (send_to i p s))" by (simp_all add: a_send_to_def send_to_def)
      with a' \<open>recv_identity t0 r = Some y\<close> y Some q
      have "a_echo_loop aenv (Suc n) t0 r a = a_echo_loop aenv n t r' (aenv n a')"
        "echo_loop world (Suc n) t0 r s = echo_loop world n t r' (world n (snd (send_to i p s)))" by (simp_all add: a_recv_same)
      with Suc.IH [OF assms(1) [OF \<open>same_open tasks a' (snd (send_to i p s))\<close>], of t r'] show ?thesis by (simp only:)
    qed
  qed
qed simp

lemma a_sink_same: "a_sink_loop n t0 r stdout = map_option (\<lambda>(t, r', out). (t, out)) (sink_loop n t0 r stdout)"
  by (induction n arbitrary: t0 r stdout) (auto simp: a_recv_same split: option.split)


lemma behave_same:
  assumes "\<And>i a s. same_open tasks a s \<Longrightarrow> same_open tasks (aenv i a) (world i s)" and "same_open tasks a s"
    and "os_pause os (ag_linger c) = Some pause"
  shows "case agent_behave world c pause t0 r s of
      None \<Rightarrow> a_agent_behave os aenv c t0 r a = None
    | Some (t, out, s') \<Rightarrow> \<exists>a'. a_agent_behave os aenv c t0 r a = Some (Finished t out, a') \<and> same_open tasks a' s'"
proof -
  obtain x a' where "a_source_loop aenv (ag_prefix c) [0..<unat (ag_count c)] a = (x, a')" by fastforce
  with a_source_same [where aenv = aenv and world = world, OF assms(1,2), where pre = "ag_prefix c" and ns = "[0..<unat (ag_count c)]"] assms(2,3)
    a_echo_same [where aenv = aenv and world = world, OF assms(1,2), where n = "unat (ag_count c)" and ?t0.0 = t0 and r = r]
  show ?thesis
    by (auto simp: agent_behave_def a_agent_behave_def Let_def a_rest_def a_sink_same split: option.splits)
qed

text \<open>Between the agent's calls the brokers take equally many commands.\<close>

lemma same_open_turns:
  assumes "\<exists>ts. aenv i = fold a_broker_turn ts \<and> world i = broker_turn ^^ length ts" and "same_open tasks a s"
  shows "same_open tasks (aenv i a) (world i s)"
proof -
  have "same_open tasks (fold a_broker_turn ts a) ((broker_turn ^^ length ts) s)" for ts
    using assms(2) by (induction ts arbitrary: a s) (simp_all add: same_open_turn funpow_Suc_right del: funpow.simps(2))
  with assms(1) show ?thesis by auto
qed


section \<open>Opening\<close>

definition chosen :: "agent_config \<Rightarrow> a_socket_builder" where
  "chosen c = a_builder\<lparr>asb_send_mode := ag_send_mode c, asb_delivery := ag_delivery c, asb_identity := ag_identity c\<rparr>"

lemma agent_sockets_built:
  "a_agent_socket i u c = a_build i u (chosen c)" "agent_socket i u c = build i u (builder_of (chosen c))"
  by (simp_all add: a_agent_socket_def agent_socket_def a_set_delivery_guarantee_def a_set_send_mode_def a_set_identity_def chosen_def
      set_delivery_guarantee_def set_send_mode_def set_identity_def builder_of_def a_builder_def builder_def Let_def split: option.split)

lemma agent_sockets_same: "same_open [] (a_agent_socket i u c) (agent_socket i u c)"
  unfolding agent_sockets_built same_open_def
  by (intro conjI sim_build) (simp_all add: a_build_def chosen_def a_builder_def)

text \<open>A file without a name cannot be opened, and the address is one that the resolver returns first.\<close>

definition good_os :: "('srv, 'cli, 'name, 'addr) a_agent_os \<Rightarrow> bytes \<Rightarrow> 'addr \<Rightarrow> bool" where
  "good_os os at addr \<longleftrightarrow> os_runtime os \<and> os_addr os at = Some addr \<and> (\<exists>others. os_resolve os at = Inr (addr # others)) \<and>
     (\<forall>f. os_server_config os [] f = None \<and> os_server_config os f [] = None) \<and> os_client_config os [] = None"

text \<open>The outcomes of opening: a panic, an error, or a socket with one task.\<close>

fun opens_alike :: "('srv, 'cli, 'name, 'addr) a_task set \<Rightarrow> (unit result \<times> ('srv, 'cli, 'name, 'addr) inner) option \<Rightarrow>
    (unit a_result \<times> ('srv, 'cli, 'name, 'addr) a_inner) option \<Rightarrow> bool" where
  "opens_alike T None y \<longleftrightarrow> y = None"
| "opens_alike T (Some (Inl e, s)) y \<longleftrightarrow> (\<exists>e' a. y = Some (Inl e', a))"
| "opens_alike T (Some (Inr u, s)) y \<longleftrightarrow> (\<exists>task \<in> T. \<exists>a. y = Some (Inr (), a) \<and> same_open [task] a s)"

lemmas open_ops = same_open_def sock_sim_iff a_bind_def bind_def bind_with_def spawn_accept_def a_bind_tls_def bind_tls_def
  a_connect_def connect_def connect_with_def spawn_connect_def a_connect_tls_def connect_tls_def Let_def

lemma bind_alike:
  assumes "same_open [] a s"
  shows "opens_alike (range (\<lambda>(addr, acc). AAcceptTask addr acc))
     (case bind l loc s of (Inl e, s') \<Rightarrow> Some (Inl e, s') | (Inr _, s') \<Rightarrow> Some (Inr (), s'))
     (case a_bind l loc a of (Inl e, a') \<Rightarrow> Some (Inl e, a') | (Inr _, a') \<Rightarrow> Some (Inr (), a'))"
    and "opens_alike (range (\<lambda>(addr, acc). AAcceptTask addr acc))
     (case bind_tls l loc cfg s of (Inl e, s') \<Rightarrow> Some (Inl e, s') | (Inr _, s') \<Rightarrow> Some (Inr (), s'))
     (case a_bind_tls l loc cfg a of (Inl e, a') \<Rightarrow> Some (Inl e, a') | (Inr _, a') \<Rightarrow> Some (Inr (), a'))"
  using assms by (cases l; cases loc; auto simp: open_ops)+

lemma connect_alike:
  assumes "same_open [] a s"
  shows "opens_alike {AConnectTask addr AConnectPlain} (Some (connect (Inr (addr # others)) s)) (Some (a_connect addr a))"
    and "opens_alike UNIV (Some (connect_tls parse (Inr (addr # others)) name cfg s)) (Some (a_connect_tls parse addr name cfg a))"
  using assms by (auto simp: open_ops split: option.split)

lemma opens_alike_mono: "opens_alike T x y \<Longrightarrow> T \<subseteq> T' \<Longrightarrow> opens_alike T' x y"
  by (cases "(T, x, y)" rule: opens_alike.cases) auto

text \<open>The task of an agent that does not connect over TLS is one that closing can end.\<close>

definition closable :: "agent_config \<Rightarrow> ('srv, 'cli, 'name, 'addr) a_task set" where
  "closable c = {task. ag_role c \<noteq> ascii ''bind'' \<and> ag_tls c \<or>
     (\<forall>t te. reachable_peers (te_attempts te) \<longrightarrow> ending_task t te task)}"

lemma agents_open_alike:
  assumes "good_os os (agent_addr c) addr" and "same_open [] a s"
  shows "opens_alike (closable c) (agent_open (agent_os.truncate os) args c s) (a_agent_open os args c a)"
proof -
  obtain others where os: "os_addr os (agent_addr c) = Some addr" "os_resolve os (agent_addr c) = Inr (addr # others)"
      "\<And>f. os_server_config os [] f = None" "\<And>f. os_server_config os f [] = None" "os_client_config os [] = None"
    using assms(1) by (auto simp: good_os_def)
  note open_defs = agent_open_def a_agent_open_def agent_os.truncate_def Let_def os
  have acc: "range (\<lambda>(addr, acc). AAcceptTask addr acc) \<subseteq> closable c" by (auto simp: closable_def)
  show ?thesis
  proof (cases "ag_role c = ascii ''bind''"; cases "ag_tls c")
    assume "ag_role c = ascii ''bind''" "ag_tls c"
    then show ?thesis using opens_alike_mono [OF bind_alike(2) [OF assms(2)] acc]
      by (auto simp: open_defs agent_bind_tls_def a_agent_bind_tls_def arg_def split: option.split)
  next
    assume "ag_role c = ascii ''bind''" "\<not> ag_tls c"
    then show ?thesis using opens_alike_mono [OF bind_alike(1) [OF assms(2)] acc] by (simp add: open_defs)
  next
    assume "ag_role c \<noteq> ascii ''bind''" "ag_tls c"
    moreover from this have "UNIV \<subseteq> closable c" by (simp add: closable_def)
    ultimately show ?thesis using opens_alike_mono [OF connect_alike(2) [OF assms(2)]]
      by (auto simp: open_defs agent_connect_tls_def a_agent_connect_tls_def arg_def split: option.split)
  next
    assume "ag_role c \<noteq> ascii ''bind''" "\<not> ag_tls c"
    moreover have "{AConnectTask addr AConnectPlain} \<subseteq> closable c" by (auto simp: closable_def)
    ultimately show ?thesis using opens_alike_mono [OF connect_alike(1) [OF assms(2)]] by (simp add: open_defs)
  qed
qed


section \<open>The programs\<close>

lemma agent_close_returns:
  assumes "same_open [task] a s" and "ending_task t te task" and "\<And>cs. commands_of (schedule cs) = cs"
  shows "\<exists>u a'. a_close tls [te] schedule late t a = (Some u, a')"
proof -
  have "\<not> ai_closed a" "ai_running a" "ai_joinable a" "AClose \<notin> set (ai_cmds a)" "\<And>i. 0 < ai_reconnect_delay a i"
      "list_all2 (ending_task t) [te] (ai_tasks a)"
    using assms(1,2) by (auto simp: same_open_def sock_sim_iff)
  from close_waits [OF this assms(3) refl] show ?thesis by blast
qed

text \<open>A host name is not an IP address, and parsing it panics.\<close>

lemma async_agent_needs_address:
  assumes "os_runtime os" and "os_addr os (agent_addr (a_agent_config_of (parse_args argv))) = None"
  shows "a_agent_main os aenv tls envs schedule late fresh_id uuid t0 r argv = Some (Panic, [])"
  using assms by (simp add: a_agent_main_def a_agent_open_def Let_def)

lemma agents_agree:
  assumes "\<And>i. \<exists>ts. aenv i = fold a_broker_turn ts \<and> world i = broker_turn ^^ length ts"
    and "c = agent_config_of (parse_args argv)" and "good_os os (agent_addr c) addr" and "os_pause os (ag_linger c) \<noteq> None"
    and "reachable_peers (te_attempts te)" and "\<And>cs. commands_of (schedule cs) = cs"
  shows "case agent_main (agent_os.truncate os) world late' leave fresh_id uuid t0 r argv of
      None \<Rightarrow> a_agent_main os aenv tls [te] schedule late fresh_id uuid t0 r argv = None
    | Some (e, out, s') \<Rightarrow> a_agent_main os aenv tls [te] schedule late fresh_id uuid t0 r argv = Some (e, out) \<or>
        e = Exit 0 \<and> ag_tls c \<and> ag_role c \<noteq> ascii ''bind'' \<and>
        a_agent_main os aenv tls [te] schedule late fresh_id uuid t0 r argv = None"
proof -
  let ?a = "a_agent_socket fresh_id uuid c" and ?s = "agent_socket fresh_id uuid c" and ?os = "agent_os.truncate os"
  let ?open = "agent_open ?os (parse_args argv) c ?s" and ?aopen = "a_agent_open os (parse_args argv) c ?a"
  have c: "a_agent_config_of (parse_args argv) = c" "agent_config_of (parse_args argv) = c"
    using assms(2) by (simp_all add: agent_configs_agree)
  obtain pause where pause: "os_pause os (ag_linger c) = Some pause" "os_pause ?os (ag_linger c) = Some pause"
    using assms(4) by (auto simp: agent_os.truncate_def)
  have run: "os_runtime os" using assms(3) by (simp add: good_os_def)
  have "opens_alike (closable c) ?open ?aopen" by (rule agents_open_alike [OF assms(3) agent_sockets_same])
  then show ?thesis
  proof (cases rule: opens_alike.elims(2))
    case (3 _ s)
    then obtain task a where open1: "?open = Some (Inr (), s)" "?aopen = Some (Inr (), a)"
      and task: "task \<in> closable c" "same_open [task] a s" by auto
    note main = agent_main_def a_agent_main_def Let_def c open1 pause run
    have beh: "case agent_behave world c pause t0 r s of
        None \<Rightarrow> a_agent_behave os aenv c t0 r a = None
      | Some (t, out, s') \<Rightarrow> \<exists>a'. a_agent_behave os aenv c t0 r a = Some (Finished t out, a') \<and> same_open [task] a' s'"
      by (rule behave_same [OF same_open_turns [OF assms(1)] task(2) pause(1)])
    show ?thesis
    proof (cases "agent_behave world c pause t0 r s")
      case None
      with beh show ?thesis by (simp add: main)
    next
      case (Some z)
      then obtain t out s' a' where z: "agent_behave world c pause t0 r s = Some (t, out, s')"
          "a_agent_behave os aenv c t0 r a = Some (Finished t out, a')" "same_open [task] a' s'"
        using beh by (cases z) auto
      from task(1) assms(5) have "ag_tls c \<and> ag_role c \<noteq> ascii ''bind'' \<or> ending_task t te task"
        by (auto simp: closable_def)
      with agent_close_returns [OF z(3) _ assms(6), of t te tls late] show ?thesis
        by (cases "a_close tls [te] schedule late t a'") (auto simp: main z split: option.split)
    qed
  qed (auto simp: agent_main_def a_agent_main_def Let_def c run)
qed



end
