(* ===== verification/Async_Bound.thy ===== *)
theory Async_Bound
  imports Async_Session
begin

text \<open>
  The connections that a bound socket of the asynchronous crate accepts: \<open>sniff_then_handle\<close> of
  \<open>rust-lib-async/src/conn.rs\<close> over the adapters of \<open>ws.rs\<close>.  The locale \<open>async_sink\<close> states what \<open>write_frame\<close>
  relies on, and is interpreted for TCP streams and for sniffed ones.
\<close>

section \<open>Writing through adapters\<close>

text \<open>\<open>out\<close> is what was taken for the peer, \<open>enc\<close> how the adapter wraps a piece that it takes, \<open>view\<close> what
  writing leaves alone, and \<open>waits\<close> bounds the polls that are pending.\<close>

locale async_sink =
  fixes wr :: "'s \<Rightarrow> bytes \<Rightarrow> nat io_result \<times> 's" and fl :: "'s \<Rightarrow> unit io_result \<times> 's"
    and sink :: "'s \<Rightarrow> bool" and waits :: "'s \<Rightarrow> nat" and out :: "'s \<Rightarrow> bytes"
    and view :: "'s \<Rightarrow> 'v" and enc :: "'v \<Rightarrow> bytes \<Rightarrow> bytes" and clean :: "'s \<Rightarrow> bool"
  assumes wr_step: "sink s \<Longrightarrow> bs \<noteq> [] \<Longrightarrow> wr s bs = (r, s') \<Longrightarrow> sink s' \<and> view s' = view s \<and>
      (r = Inl WouldBlock \<and> out s' = out s \<and> waits s' < waits s \<or>
       (\<exists>k. r = Inr k \<and> 0 < k \<and> k \<le> length bs \<and> out s' = out s @ enc (view s) (take k bs) \<and> waits s' \<le> waits s))"
    and fl_step: "sink s \<Longrightarrow> fl s = (q, s') \<Longrightarrow> sink s' \<and> view s' = view s \<and> out s' = out s \<and>
      (q = Inr () \<and> clean s' \<or> q = Inl WouldBlock \<and> waits s' < waits s)"
begin

lemma write_all_returns:
  assumes "sink s"
  shows "\<exists>s' ps. a_write_all wr s bs = Some (Inr (), s') \<and> sink s' \<and> view s' = view s \<and> concat ps = bs \<and>
    out s' = out s @ concat (map (enc (view s)) ps)"
  using assms
proof (induction "waits s + length bs" arbitrary: s bs rule: less_induct)
  case less
  show ?case
  proof (cases "bs = []")
    case True
    with less.prems show ?thesis by (subst a_write_all.simps) (auto intro: exI [of _ "[]"])
  next
    case False
    obtain r t where w: "wr s bs = (r, t)" by fastforce
    from wr_step [OF less.prems False w] consider (wait) "r = Inl WouldBlock" "sink t" "view t = view s" "out t = out s" "waits t < waits s"
      | (took) k where "r = Inr k" "sink t" "view t = view s" "0 < k" "k \<le> length bs"
        "out t = out s @ enc (view s) (take k bs)" "waits t \<le> waits s" by auto
    then show ?thesis
    proof cases
      case wait
      then have "a_write_all wr s bs = a_write_all wr t bs" using False w by (subst a_write_all.simps) simp
      with less.hyps [of t bs] wait show ?thesis by simp
    next
      case took
      then have "a_write_all wr s bs = a_write_all wr t (drop k bs)" using False w by (subst a_write_all.simps) simp
      moreover have "waits t + length (drop k bs) < waits s + length bs" using took by simp
      from less.hyps [OF this took(2)] took(3) obtain s' ps where "a_write_all wr t (drop k bs) = Some (Inr (), s')" "sink s'"
          "view s' = view s" "concat ps = drop k bs" "out s' = out t @ concat (map (enc (view s)) ps)" by auto
      ultimately show ?thesis using took by (intro exI [of _ s'] exI [of _ "take k bs # ps"]) simp
    qed
  qed
qed

lemma await_flush_returns:
  "sink s \<Longrightarrow> \<exists>s'. await_flush fl s = Some (Inr (), s') \<and> sink s' \<and> view s' = view s \<and> out s' = out s \<and> clean s'"
proof (induction "waits s" arbitrary: s rule: less_induct)
  case less
  obtain r t where f: "fl s = (r, t)" by fastforce
  from fl_step [OF less.prems f] less.hyps [of t] f show ?case by (subst await_flush.simps) auto
qed

lemma write_frame_returns:
  assumes "sink s"
  shows "\<exists>s' ps. a_write_frame wr fl s f = Some (Inr (), s') \<and> sink s' \<and> view s' = view s \<and> clean s' \<and> concat ps = f \<and>
    out s' = out s @ concat (map (enc (view s)) ps)"
proof -
  obtain s1 ps where s1: "a_write_all wr s f = Some (Inr (), s1)" "sink s1" "view s1 = view s" "concat ps = f"
      "out s1 = out s @ concat (map (enc (view s)) ps)" using write_all_returns [OF assms] by blast
  with await_flush_returns [OF s1(2)] show ?thesis by (auto simp: a_write_frame_def)
qed

end

definition a_view :: "astream \<Rightarrow> (nat \<times> net_event) list \<times> nat" where
  "a_view s = (inbound (sock s), clock (sock s))"

definition a_waits :: "astream \<Rightarrow> nat" where
  "a_waits s = length (wpolls s) + length (ffaults (sock s))"

lemma a_poll_write_step:
  assumes "writable s" and "a_poll_write cx s bs = (r, s')"
  shows "writable s' \<and> a_view s' = a_view s \<and> ffaults (sock s') = ffaults (sock s)"
  using assms by (auto simp: writable_def a_view_def a_poll_write_def a_put_def split: list.splits write_poll.splits)

lemma a_poll_flush_step:
  assumes "writable s" and "a_poll_flush cx s = (r, s')"
  shows "writable s' \<and> a_view s' = a_view s \<and> outbound (sock s') = outbound (sock s) \<and>
    (r = Inr () \<or> r = Inl WouldBlock \<and> a_waits s' < a_waits s)"
  using assms
  by (auto simp: a_poll_flush_def stream_flush_def writable_def a_view_def a_waits_def
      split: list.splits prod.splits option.splits)

interpretation tcp: async_sink "a_poll_write cx" "a_poll_flush cx" writable a_waits "\<lambda>s. outbound (sock s)" a_view
  "\<lambda>_ bs. bs" "\<lambda>_. True" for cx
proof unfold_locales
  fix s bs r s' assume "writable s" "bs \<noteq> []" "a_poll_write cx s bs = (r, s')"
  with a_poll_write_writable [OF this(1,3)] a_poll_write_step [OF this(1,3)]
  show "writable s' \<and> a_view s' = a_view s \<and> (r = Inl WouldBlock \<and> outbound (sock s') = outbound (sock s) \<and> a_waits s' < a_waits s \<or>
      (\<exists>k. r = Inr k \<and> 0 < k \<and> k \<le> length bs \<and> outbound (sock s') = outbound (sock s) @ take k bs \<and> a_waits s' \<le> a_waits s))"
    by (auto simp: a_waits_def)
qed (use a_poll_flush_step in blast)

text \<open>What the WebSocket adapter has queued goes out in the end.\<close>

lemma a_flush_out_step:
  "a_flush_out cx w = (r, w') \<Longrightarrow> writable (aw_inner w) \<Longrightarrow>
   writable (aw_inner w') \<and> a_view (aw_inner w') = a_view (aw_inner w) \<and> a_waits (aw_inner w') \<le> a_waits (aw_inner w) \<and>
   (r = Inr () \<or> r = Inl WouldBlock \<and> a_waits (aw_inner w') < a_waits (aw_inner w))"
proof (induction cx w rule: a_flush_out.induct)
  case (1 cx w)
  let ?bs = "drop (out_pos w) (out_buf w)"
  show ?case
  proof (cases "out_pos w < length (out_buf w)")
    case False
    with 1(2,3) show ?thesis by (subst (asm) a_flush_out.simps) auto
  next
    case True
    then have ne: "?bs \<noteq> []" by simp
    obtain q i where q: "a_poll_write cx (aw_inner w) ?bs = (q, i)" by fastforce
    from tcp.wr_step [OF 1(3) ne q] consider (wait) "q = Inl WouldBlock" "writable i" "a_view i = a_view (aw_inner w)"
        "a_waits i < a_waits (aw_inner w)"
      | (took) k where "q = Inr k" "0 < k" "writable i" "a_view i = a_view (aw_inner w)" "a_waits i \<le> a_waits (aw_inner w)"
      by auto
    then show ?thesis
    proof cases
      case wait
      with 1(2) True q show ?thesis by (subst (asm) a_flush_out.simps) auto
    next
      case took
      have "a_flush_out cx (w\<lparr>aw_inner := i, out_pos := out_pos w + k\<rparr>) = (r, w')"
        using 1(2) True q took(1,2) by (subst (asm) a_flush_out.simps) simp
      with 1(1) [OF True q [symmetric] took(1)] took show ?thesis by auto
    qed
  qed
qed


section \<open>The sniffed stream\<close>

fun sn_sink :: "sniffed \<Rightarrow> bool" where
  "sn_sink (SRaw p) \<longleftrightarrow> writable (pf_inner p)"
| "sn_sink (SWs w) \<longleftrightarrow> writable (aw_inner w) \<and> aw_ok w"

fun sn_out :: "sniffed \<Rightarrow> bytes" where
  "sn_out (SRaw p) = outbound (sock (pf_inner p))"
| "sn_out (SWs w) = wire w"

fun sn_clean :: "sniffed \<Rightarrow> bool" where
  "sn_clean (SRaw p) \<longleftrightarrow> True"
| "sn_clean (SWs w) \<longleftrightarrow> outbound (sock (aw_inner w)) = wire w"

fun is_ws :: "sniffed \<Rightarrow> bool" where
  "is_ws (SRaw p) \<longleftrightarrow> False"
| "is_ws (SWs w) \<longleftrightarrow> True"

definition sn_view :: "sniffed \<Rightarrow> bool \<times> bytes \<times> (nat \<times> net_event) list \<times> nat" where
  "sn_view sn = (is_ws sn, sn_pend sn, a_view (sn_inner sn))"

definition sn_enc :: "bool \<times> 'v \<Rightarrow> bytes \<Rightarrow> bytes" where
  "sn_enc v bs = (if fst v then server_frame OP_BIN bs else bs)"

lemma pf_pend_view: "a_view i = a_view (pf_inner p) \<Longrightarrow> pf_pend (p\<lparr>pf_inner := i\<rparr>) = pf_pend p"
  by (simp add: pf_pend_def a_pend_def a_view_def stream_pend_def)

lemma aw_pend_view: "a_view i = a_view (aw_inner w) \<Longrightarrow> aw_pend (w\<lparr>aw_inner := i\<rparr>) = aw_pend w"
  by (simp add: aw_pend_def a_raw_def a_view_def stream_pend_def)

lemma ws_write_step:
  assumes "writable (aw_inner w)" and "aw_ok w" and "a_ws_poll_write cx w d = (r, w')"
  shows "writable (aw_inner w') \<and> aw_ok w' \<and> aw_pend w' = aw_pend w \<and> a_view (aw_inner w') = a_view (aw_inner w) \<and>
    (r = Inl WouldBlock \<and> wire w' = wire w \<and> a_waits (aw_inner w') < a_waits (aw_inner w) \<or>
     r = Inr (length d) \<and> wire w' = wire w @ server_frame OP_BIN d \<and> a_waits (aw_inner w') \<le> a_waits (aw_inner w))"
proof -
  obtain q w1 where q: "a_flush_out cx w = (q, w1)" by fastforce
  note f = a_flush_out_step [OF q assms(1)] a_flush_out_wire [OF q assms(2)] flush_keeps(2) [OF q]
  show ?thesis
  proof (cases q)
    case (Inl e)
    with assms(3) q f show ?thesis by (auto simp: a_ws_poll_write_def)
  next
    case (Inr u)
    let ?w2 = "w1\<lparr>out_buf := out_buf w1 @ a_server_frame a_OP_BIN d\<rparr>"
    obtain y w3 where y: "a_flush_out cx ?w2 = (y, w3)" by fastforce
    have w2: "aw_ok ?w2" "wire ?w2 = wire w @ server_frame OP_BIN d" "aw_pend ?w2 = aw_pend w"
      using f by (auto simp: aw_ok_def wire_def aw_pend_def a_raw_def a_server_frame_eq a_op_eq)
    have "r = Inr (length d)" "w' = w3" using assms(3) q Inr y by (auto simp: a_ws_poll_write_def)
    with a_flush_out_step [OF y] a_flush_out_wire [OF y w2(1)] flush_keeps(2) [OF y] f w2 show ?thesis by auto
  qed
qed

lemma ws_flush_step:
  assumes "writable (aw_inner w)" and "aw_ok w" and "a_ws_poll_flush cx w = (r, w')"
  shows "writable (aw_inner w') \<and> aw_ok w' \<and> aw_pend w' = aw_pend w \<and> a_view (aw_inner w') = a_view (aw_inner w) \<and>
    wire w' = wire w \<and> (r = Inr () \<and> outbound (sock (aw_inner w')) = wire w' \<or>
      r = Inl WouldBlock \<and> a_waits (aw_inner w') < a_waits (aw_inner w))"
proof -
  obtain q w1 where q: "a_flush_out cx w = (q, w1)" by fastforce
  note f = a_flush_out_step [OF q assms(1)] flush_keeps(2) [OF q]
  note p = flush_poll_wire [OF assms(2,3)]
  show ?thesis
  proof (cases q)
    case (Inl e)
    with assms(3) q f p show ?thesis by (auto simp: a_ws_poll_flush_def)
  next
    case (Inr u)
    obtain x i where x: "a_poll_flush cx (aw_inner w1) = (x, i)" by fastforce
    have "r = x" "w' = w1\<lparr>aw_inner := i\<rparr>" using assms(3) q Inr x by (auto simp: a_ws_poll_flush_def)
    with a_poll_flush_step [OF _ x] f p aw_pend_view [of i w1] show ?thesis by auto
  qed
qed

lemma sniffed_io_simps [simp]:
  "io_read (sniffed_io cx) = sn_poll_read cx" "io_write (sniffed_io cx) = sn_poll_write cx"
  "io_flush (sniffed_io cx) = sn_poll_flush cx" "io_now (sniffed_io cx) s = clock (sock (sn_inner s))"
  "io_cap (sniffed_io cx) n = n"
  by (simp_all add: sniffed_io_def)

interpretation sniffed: async_sink "sn_poll_write cx" "sn_poll_flush cx" sn_sink "\<lambda>sn. a_waits (sn_inner sn)" sn_out sn_view
  sn_enc sn_clean for cx
proof unfold_locales
  fix sn bs r sn' assume *: "sn_sink sn" "bs \<noteq> []" "sn_poll_write cx sn bs = (r, sn')"
  show "sn_sink sn' \<and> sn_view sn' = sn_view sn \<and>
      (r = Inl WouldBlock \<and> sn_out sn' = sn_out sn \<and> a_waits (sn_inner sn') < a_waits (sn_inner sn) \<or>
       (\<exists>k. r = Inr k \<and> 0 < k \<and> k \<le> length bs \<and> sn_out sn' = sn_out sn @ sn_enc (sn_view sn) (take k bs) \<and>
          a_waits (sn_inner sn') \<le> a_waits (sn_inner sn)))"
  proof (cases sn)
    case (SRaw p)
    obtain x i where x: "a_poll_write cx (pf_inner p) bs = (x, i)" by fastforce
    with * SRaw tcp.wr_step [OF _ *(2) x] pf_pend_view [of i p] show ?thesis
      by (auto simp: pf_poll_write_def sn_view_def sn_enc_def)
  next
    case (SWs w)
    with * ws_write_step [of w cx bs r] show ?thesis
      by (cases sn') (auto simp: sn_view_def sn_enc_def split: prod.splits)
  qed
next
  fix sn q sn' assume *: "sn_sink sn" "sn_poll_flush cx sn = (q, sn')"
  show "sn_sink sn' \<and> sn_view sn' = sn_view sn \<and> sn_out sn' = sn_out sn \<and>
      (q = Inr () \<and> sn_clean sn' \<or> q = Inl WouldBlock \<and> a_waits (sn_inner sn') < a_waits (sn_inner sn))"
  proof (cases sn)
    case (SRaw p)
    obtain x i where x: "a_poll_flush cx (pf_inner p) = (x, i)" by fastforce
    with * SRaw a_poll_flush_step [OF _ x] pf_pend_view [of i p] show ?thesis
      by (auto simp: pf_poll_flush_def sn_view_def)
  next
    case (SWs w)
    with * ws_flush_step [of w cx q] show ?thesis by (cases sn') (auto simp: sn_view_def split: prod.splits)
  qed
qed


section \<open>Time on sniffed streams\<close>

definition sn_horizon :: "sniffed \<Rightarrow> nat" where
  "sn_horizon sn = stream_horizon (sock (sn_inner sn))"

definition later :: "astream \<Rightarrow> astream \<Rightarrow> bool" where
  "later s s' \<longleftrightarrow> stream_horizon (sock s') = stream_horizon (sock s) \<and> clock (sock s) \<le> clock (sock s')"

lemma later_trans: "later s s' \<Longrightarrow> later s' s'' \<Longrightarrow> later s s''"
  by (simp add: later_def)

lemma a_view_later: "a_view s' = a_view s \<Longrightarrow> later s s'"
  by (simp add: a_view_def later_def stream_horizon_def)

lemma a_poll_read_later: "a_poll_read cx s n = (r, s') \<Longrightarrow> later s s'"
  using dial.rd_time [of cx s n r s'] by (simp add: later_def)

lemma a_flush_out_later: "a_flush_out cx w = (r, w') \<Longrightarrow> later (aw_inner w) (aw_inner w')"
proof (induction cx w rule: a_flush_out.induct)
  case (1 cx w)
  obtain q i where q: "a_poll_write cx (aw_inner w) (drop (out_pos w) (out_buf w)) = (q, i)" by fastforce
  then have "later (aw_inner w) i"
    by (intro a_view_later) (auto simp: a_poll_write_def a_put_def a_view_def split: list.splits write_poll.splits)
  with 1 q show ?case
    by (subst (asm) (2) a_flush_out.simps) (auto split: if_splits sum.splits simp: later_def)
qed

lemma a_ws_poll_read_later: "a_ws_poll_read cx w n = (r, w') \<Longrightarrow> later (aw_inner w) (aw_inner w')"
proof (induction rule: a_ws_poll_read_rule)
  case (payload w0 x w p w1 r w')
  then show ?case using a_flush_out_later [OF payload(1)] a_parse_one_shrinks [OF payload(4)] by (simp add: later_def)
next
  case (control w0 x w w1 r w')
  then show ?case using a_flush_out_later [OF control(1)] a_parse_one_shrinks [OF control(4)] by (simp add: later_def)
next
  case (stop w0 x w q w1 r w')
  then show ?case using a_flush_out_later [OF stop(1)] a_parse_one_shrinks [OF stop(4)] by (simp add: later_def)
next
  case (stalled w0 x w e i)
  then show ?case using a_flush_out_later [OF stalled(1)] a_poll_read_later [OF stalled(5)] by (simp add: later_def)
next
  case (finished w0 x w i)
  then show ?case using a_flush_out_later [OF finished(1)] a_poll_read_later [OF finished(5)] by (simp add: later_def)
next
  case (filled w0 x w bs i r w')
  then show ?case using a_flush_out_later [OF filled(1)] a_poll_read_later [OF filled(5)] by (simp add: later_def)
qed (use a_flush_out_later in fastforce)+

lemma pf_poll_read_later: "pf_poll_read cx p n = (r, p') \<Longrightarrow> later (pf_inner p) (pf_inner p')"
  using a_poll_read_later by (fastforce simp: pf_poll_read_def Let_def later_def split: if_splits prod.splits)

lemma sn_poll_read_later: "sn_poll_read cx sn n = (r, sn') \<Longrightarrow> later (sn_inner sn) (sn_inner sn')"
  by (auto elim!: sn_poll_read_cases dest: pf_poll_read_later a_ws_poll_read_later)

interpretation bound: async_io "sniffed_io cx" sn_pend sn_steps "\<lambda>sn. a_flowing (sn_inner sn)" sn_horizon for cx
  unfolding async_io_def async_io_axioms_def sn_horizon_def
  by (auto simp: sniffed.async_stream_axioms stream_horizon_def dest: sn_poll_read_later [unfolded later_def])


section \<open>What sniffing leaves\<close>

lemma a_write_all_inv:
  "a_write_all wr s bs = Some p \<Longrightarrow> (\<forall>s bs. I s \<longrightarrow> I (snd (wr s bs))) \<Longrightarrow> I s \<Longrightarrow> I (snd p)"
  by (induction wr s bs p rule: a_write_all.raw_induct [rotated 1, consumes 1])
    (auto split: if_splits sum.splits prod.splits; metis snd_conv)

lemma await_flush_inv:
  "await_flush fl s = Some p \<Longrightarrow> (\<forall>s. I s \<longrightarrow> I (snd (fl s))) \<Longrightarrow> I s \<Longrightarrow> I (snd p)"
  by (induction fl s p rule: await_flush.raw_induct [rotated 1, consumes 1])
    (auto split: if_splits prod.splits; metis snd_conv)

definition steady :: "astream \<Rightarrow> astream \<Rightarrow> bool" where
  "steady s0 s \<longleftrightarrow> writable s \<and> later s0 s"

lemma steady_read: "preserves (steady s0) (a_poll_read cx)"
  using a_poll_read_preserves a_poll_read_later
  by (fastforce simp: preserves_def steady_def writable_def intro: later_trans)

lemma steady_write: "steady s0 s \<Longrightarrow> steady s0 (snd (a_poll_write cx s bs))"
  using a_poll_write_step [of s cx bs] a_view_later
  by (cases "a_poll_write cx s bs") (auto simp: steady_def intro: later_trans)

lemma steady_flush: "steady s0 s \<Longrightarrow> steady s0 (snd (a_poll_flush cx s))"
  using a_poll_flush_step [of s cx] a_view_later
  by (cases "a_poll_flush cx s") (auto simp: steady_def intro: later_trans)

lemma steady_request:
  "a_request_loop cx s b = Some p \<Longrightarrow> steady s0 s \<Longrightarrow> steady s0 (snd p)"
proof (induction cx s b p rule: a_request_loop.raw_induct [rotated 1, consumes 1])
  case (1 loop cx s b p)
  obtain q s1 where q: "a_read_exact (a_poll_read cx) s 1 [] = Some (q, s1)"
    using 1(2) by (auto split: option.splits)
  have s1: "steady s0 s1" using a_read_exact_inv [OF q steady_read 1(3)] by simp
  show ?case
  proof (cases q)
    case (Inl e)
    with 1(2) q s1 show ?thesis by auto
  next
    case (Inr c)
    have w: "steady s0 (snd p')" if "a_write_all (a_poll_write cx) s1 f = Some p'" for f p'
      using a_write_all_inv [OF that, where I = "steady s0"] steady_write s1 by blast
    show ?thesis using 1(1) [of cx s1 "b @ [c ! 0]" p] 1(2) q Inr s1 w by (auto simp: Let_def split: if_splits)
  qed
qed

lemma sniff_steady:
  assumes "sniff_and_wrap cx s = Some (Inr (Some sn), s')" and "writable s"
  shows "sn_sink sn \<and> later s (sn_inner sn)"
proof -
  obtain q s1 where q: "a_read_exact (a_poll_read cx) s 1 [] = Some (q, s1)"
    using assms(1) by (auto simp: sniff_and_wrap_def split: option.splits)
  have s1: "steady s s1" using a_read_exact_inv [OF q steady_read, of s] assms(2) by (simp add: steady_def later_def)
  consider (raw) "sn = SRaw (prefixed_new [0] s1)"
    | (ws) req s2 key s3 s4 where "a_request_loop cx s1 [0x47] = Some (Some req, s2)"
      "a_write_all (a_poll_write cx) s2 (a_success_response key) = Some (Inr (), s3)"
      "await_flush (a_poll_flush cx) s3 = Some (Inr (), s4)" "sn = SWs (a_ws_new s4)"
    using assms(1) q by (auto simp: sniff_and_wrap_def split: sum.splits if_splits option.splits prod.splits)
  then show ?thesis
  proof cases
    case raw
    with s1 show ?thesis by (simp add: prefixed_new_def steady_def)
  next
    case ws
    have "steady s s2" using steady_request [OF ws(1) s1] by simp
    then have "steady s s3" using a_write_all_inv [OF ws(2), where I = "steady s"] steady_write by force
    then have "steady s s4" using await_flush_inv [OF ws(3), where I = "steady s"] steady_flush by force
    with ws(4) show ?thesis by (simp add: steady_def a_ws_new_def aw_ok_def)
  qed
qed


section \<open>A bound connection\<close>

lemma bound_delivers:
  assumes "sn_sink sn" and "a_flowing (sn_inner sn)" and "sn_horizon sn < clock (sock (sn_inner sn)) + a_HEARTBEAT_TIMEOUT"
    and "is_id peer" and "sn_pend sn = hello peer @ concat (map encode es) @ rest" and "list_all sendable es"
    and "next_frame rest = None" and "ak_room k = None" and "ak_answer k = Some True"
  shows "\<exists>k' t w. a_handle_connection (sniffed_io cx) None rp wp sn k me = Some (Inr (), k', t, w) \<and>
    map cmd (ak_sent k') = map cmd (ak_sent k) @ ConnectionUp peer (ak_fresh k) (Suc (ak_fresh k)) #
      map (Received peer) (filter is_traffic es) @ [ConnectionDown peer]"
proof -
  obtain s1 where s1: "a_write (sniffed_io cx) sn (a_hello me) = Some (Inr (), s1)" "sn_view s1 = sn_view sn"
    using sniffed.write_frame_returns [OF assms(1)] by (fastforce simp: a_write_def)
  then have v: "sn_pend s1 = sn_pend sn" "inbound (sock (sn_inner s1)) = inbound (sock (sn_inner sn))"
    "clock (sock (sn_inner s1)) = clock (sock (sn_inner sn))"
    by (simp_all add: sn_view_def a_view_def)
  then have "a_flowing (sn_inner s1)" "sn_horizon s1 < io_now (sniffed_io cx) s1 + a_HEARTBEAT_TIMEOUT"
    using assms(2,3) by (simp_all add: a_flowing_def stream_flowing_def sn_horizon_def stream_horizon_def)
  from bound.connection_delivers [OF s1(1) this assms(4) _ assms(6-9), of rp wp] v(1) assms(5) show ?thesis by auto
qed



text \<open>A browser that upgrades and sends its HELLO and a message in fragments, with a ping between them.\<close>

lemma a_demo_request: "a_parse_upgrade demo_request = Inr (chars ''dGhlIHNhbXBsZSBub25jZQ=='')" "hd demo_request = 0x47"
proof -
  let ?ls = "request_line (chars ''/'') (chars ''HTTP/1.1'') # map header_line demo_headers"
  have "list_all (\<lambda>c. c < 128) (lines_text ?ls)" using request_text_ascii [OF demo_wf(2,3,1)] by (simp add: list_all_iff)
  from from_utf8_ascii [OF this] have "from_utf8 demo_request = Some (lines_text ?ls)"
    by (simp add: demo_request_def request_bytes_def)
  moreover have "length (request_parts (lines_text ?ls)) = 3"
    by (simp add: request_parts_def lines_text_def request_line_def chars_def nth_part_def)
  ultimately show "a_parse_upgrade demo_request = Inr (chars ''dGhlIHNhbXBsZSBub25jZQ=='')"
    using demo_request_ok(3) by (simp add: a_parse_upgrade_eq)
  show "hd demo_request = 0x47" by (simp add: demo_request_def request_bytes_def lines_text_def request_line_def chars_def)
qed


end
