(* ===== verification/Spec2Isabelle.thy ===== *)
theory Spec2Isabelle
  imports Async_Agent Async_Bound
begin

text \<open>
  A verification of the two Rust implementations of aiomsg, a messaging library whose sockets may bind and
  connect, know their peers by identity, reconnect by themselves and acknowledge and resend messages
  on request: the synchronous crate \<open>src/rust-lib-sync\<close>, with a thread per task, and the asynchronous
  crate \<open>src/rust-lib-async\<close>, on tokio.  The wire protocol of both is described in \<open>src/PROTOCOL.md\<close>.

  \<^bold>\<open>The program.\<close>  A socket (\<open>lib.rs\<close>) owns a broker (\<open>broker.rs\<close>) and any number of accept and connect
  loops (\<open>conn.rs\<close>).  Each connection exchanges HELLO frames, registers with the broker under the
  identity of its peer and then runs a reader, which turns the frames of the peer (\<open>protocol.rs\<close>) into
  commands for the broker, and a writer, which puts the frames that the broker queues for the
  peer on the wire, with heartbeats between them.  The broker alone holds the tables of peers and
  unacknowledged messages; the application, the connections and, in the synchronous crate, the
  timer thread reach it through one command channel.  A bound socket also serves browsers: it looks
  at the first bytes of a connection and speaks WebSocket (\<open>ws.rs\<close>) when they begin an HTTP request.

  \<^bold>\<open>Shared theories.\<close>
  \<^item> \<open>Aiomsg_Prelude\<close>: the integers of Rust at their widths, byte strings, big-endian conversions, the
    collections of simplification rules, and hash maps with the locale \<open>hash_map\<close>.
  \<^item> \<open>Io_Model\<close>: a TCP stream as a script of arrivals, stalls, faults and delays with a clock; the
    locales \<open>byte_stream\<close>, \<open>steady_stream\<close>, \<open>idle_stream\<close> and \<open>timed_stream\<close> state what readers rely on, and
    are interpreted for TCP here and for the WebSocket adapter in \<open>Ws_Stream\<close> and \<open>Conn_Ws\<close>.

  \<^bold>\<open>The synchronous crate.\<close>
  \<^item> \<open>Protocol\<close> (\<open>protocol.rs\<close>): envelopes, encoders, \<open>decode\<close>, \<open>read_frame\<close>, \<open>write_frame\<close> and the incremental
    \<open>FrameDecoder\<close>.  Encoding and decoding are inverse for every fragmentation and any read timeouts;
    oversized payloads and streams that end inside a frame are covered as the code treats them.
  \<^item> \<open>Resend_Timers\<close> (\<open>timer_loop\<close> of \<open>broker.rs\<close>): the loop refines a map from message ids to deadlines.
  \<^item> \<open>Broker\<close>, \<open>Broker_Delivery\<close>, \<open>Broker_Timers\<close>, \<open>Broker_Properties\<close> (\<open>broker.rs\<close>): the state and every
    handler; the locale \<open>broker_invariant\<close> carries invariants to all reachable states.  The tables
    stay consistent, no message that waits for an acknowledgement is lost, it is watched by a
    timer in every interleaving with the timer thread, resending stops, round robin is fair,
    publishing reaches every peer once.
  \<^item> \<open>Ws_Base64\<close>, \<open>Ws_Sha1\<close>, \<open>Ws_Frame\<close>, \<open>Ws_Stream\<close>, \<open>Ws_Handshake\<close> (\<open>ws.rs\<close>): the hand-written base64 and
    SHA-1 against their standards, the frame parser, the stream adapter, and the HTTP upgrade.
  \<^item> \<open>Conn_Channel\<close>, \<open>Conn_Session\<close>, \<open>Conn_Ws\<close>, \<open>Conn_Tls\<close>, \<open>Tls_Session\<close>, \<open>Conn_Loops\<close> (\<open>conn.rs\<close>): the channels of
    a connection and the registry of sockets; the plain, WebSocket and TLS sessions with their
    readers and writers; and the accept and connect loops.  A session delivers the traffic of
    its peer in order and once, between one registration and one notice of its end, and ends
    under every fault; TLS records keep their order in every interleaving of reader and writer; the
    loops serve every connection and end with the shutdown flag.
  \<^item> \<open>Socket\<close>, \<open>Socket_Close\<close> (\<open>lib.rs\<close>): the builder and the operations of a socket; \<open>close\<close> is final and
    in no interleaving misses a connection that the broker serves.
  \<^item> \<open>End_To_End\<close>: two sockets over one connection, from \<open>send\<close> to \<open>recv\<close> and back to the acknowledgement.

  \<^bold>\<open>The asynchronous crate.\<close>
  \<^item> \<open>Async_Protocol\<close> (\<open>protocol.rs\<close>): polled readers and writers; the locale \<open>async_stream\<close>; the same
    bytes as the synchronous crate.
  \<^item> \<open>Async_Broker\<close> (\<open>broker.rs\<close>): the broker's task with its own deadlines refines the synchronous one.
  \<^item> \<open>Async_Ws_Base\<close>, \<open>Async_Ws\<close>, \<open>Async_Sniff\<close> (\<open>ws.rs\<close>): the handshake, the polled adapters with their wakers
    and buffers, and \<open>sniff_and_wrap\<close>; \<open>async_stream\<close> is interpreted for each adapter.
  \<^item> \<open>Async_Conn\<close>, \<open>Async_Session\<close> (\<open>conn.rs\<close>): the races of each \<open>select!\<close> as choices of the environment,
    the reader and writer tasks, a connection, the accept and connect loops; the locale \<open>async_io\<close>.
  \<^item> \<open>Async_Bound\<close>: connections of a bound socket, raw or WebSocket; the locale \<open>async_sink\<close> for writers.
  \<^item> \<open>Async_Socket\<close> (\<open>lib.rs\<close>): the operations of a socket, which refine those of the synchronous crate, and
    \<open>close\<close>, which returns once its loops have ended.

  \<^bold>\<open>The conformance agents\<close> (\<open>examples/conformance_agent.rs\<close> of both crates) are command line programs on top
  of the sockets, which the repository uses to pair its implementations.
  \<^item> \<open>Agent_Args\<close>: the flags, with the string functions of the standard library that read them.  Flags that
    spell out a configuration are read back as this configuration.
  \<^item> \<open>Agent\<close>: opening the socket, the source, sink and echo behaviours and the whole program.  Over a
    connection a sink agent prints exactly what a source agent sends.
  \<^item> \<open>Async_Agent\<close>: the agent of the asynchronous crate, which agrees with the synchronous one.

  \<^bold>\<open>Time, loops and interleavings.\<close>  Times are natural numbers of milliseconds.  Loops that read from a
  stream are \<open>partial_function (option)\<close>, so that not returning is \<^term>\<open>None\<close>; the theorems state that they
  return, from a measure of the script that is left.  No fuel is used.  Threads that share state are
  step relations with reachable states (\<open>Broker_Timers\<close>, \<open>Socket_Close\<close>, \<open>Tls_Session\<close>), and what other
  threads do in the middle of an operation is an argument where the operation is a function.

  \<^bold>\<open>Parameters.\<close>  \<open>rustls\<close> and \<open>tokio_rustls\<close> are not part of the repository: a TLS connection is a record
  of operations with their documented laws as hypotheses (\<open>Conn_Tls\<close>), shown to be satisfiable by an
  instance.  Random UUIDs, name resolution, the answers of the operating system to \<open>bind\<close> and \<open>accept\<close>,
  and which ready branch a \<open>select!\<close> takes are arguments.  For the agents the TLS configurations that
  \<open>rustls\<close> makes from PEM files and the pause that a floating point number of seconds means are
  arguments as well.

  \<^bold>\<open>Not modelled.\<close>  Logging; \<open>set_nodelay\<close> and other socket options that change no bytes; floating point
  numbers; the agents without the \<open>tls\<close> feature, where TLS flags panic.  The demonstrations
  \<open>client.rs\<close>, \<open>server.rs\<close> and \<open>tls.rs\<close> only call the API and print, and \<open>gen_test_certs.rs\<close> only calls a library
  for certificates.  Benchmarks, tests, the implementations in other languages and the Python
  driver of the conformance suite are outside the scope: the development is about the Rust crates.
\<close>

end
